(* ===== verification/Prelude.thy ===== *)
theory Prelude
  imports Main "HOL-Library.Code_Target_Nat" "HOL-Library.Word" "HOL-Library.List_Lexorder" "HOL-Library.Char_ord"
begin

text \<open>
  Shared vocabulary of the development: the machine integers and strings of the Go sources,
  Go maps as association lists sorted by key (the order \<^verbatim>\<open>encoding/json\<close> writes a map in),
  the few functions of Go's \<^verbatim>\<open>strings\<close>, \<^verbatim>\<open>strconv\<close> and \<^verbatim>\<open>fmt\<close> packages the
  sources call, errors with the sentinels they wrap (\<^verbatim>\<open>errors.Is\<close>), and the lemmas on
  them that every component uses.
\<close>

section \<open>Types\<close>

type_synonym u64 = "64 word"
type_synonym u32 = "32 word"
type_synonym bytes = "8 word list"
type_synonym key = string
type_synonym 'a byname = "(string \<times> 'a) list"

named_theorems gostr \<open>rules that evaluate the string functions of the Go library\<close>
named_theorems smap \<open>lookup rules of sorted association lists\<close>

section \<open>Go maps as sorted association lists\<close>

fun mput :: "'k::linorder \<Rightarrow> 'v \<Rightarrow> ('k \<times> 'v) list \<Rightarrow> ('k \<times> 'v) list" where
  "mput k v [] = [(k, v)]"
| "mput k v ((a, b) # m) =
     (if k < a then (k, v) # (a, b) # m
      else if k = a then (k, v) # m
      else (a, b) # mput k v m)"

definition mdel :: "'k \<Rightarrow> ('k \<times> 'v) list \<Rightarrow> ('k \<times> 'v) list" where
  "mdel k m = filter (\<lambda>p. fst p \<noteq> k) m"

abbreviation msorted :: "('k::linorder \<times> 'v) list \<Rightarrow> bool" where
  "msorted m \<equiv> sorted_wrt (<) (map fst m)"

abbreviation mkeys :: "('k \<times> 'v) list \<Rightarrow> 'k list" where
  "mkeys m \<equiv> map fst m"

lemma map_of_mput [simp, smap]: "map_of (mput k v m) = (map_of m)(k \<mapsto> v)"
  by (induction m) auto

lemma map_of_mdel [simp, smap]: "map_of (mdel k m) = (map_of m)(k := None)"
  by (induction m) (auto simp: mdel_def fun_eq_iff)

lemma map_of_filter_key [simp, smap]:
  "map_of (filter (\<lambda>p. P (fst p)) m) = (\<lambda>x. if P x then map_of m x else None)"
  by (induction m) (auto simp: fun_eq_iff)

lemma set_mput: "set (mput k v m) \<subseteq> insert (k, v) (set m)"
  by (induction m) (auto split: if_splits)

lemma fst_set_mput [simp]: "fst ` set (mput k v m) = insert k (fst ` set m)"
proof (induction m)
  case (Cons p m)
  then show ?case by (cases p) (simp add: insert_commute)
qed simp

lemma fst_set_mdel [simp]: "fst ` set (mdel k m) = fst ` set m - {k}"
  by (auto simp: mdel_def)

lemma msorted_mput [simp, intro]: "msorted m \<Longrightarrow> msorted (mput k v m)"
proof (induction m)
  case (Cons p m)
  obtain a b where p: "p = (a, b)" by (cases p)
  have "\<forall>x \<in> set (mput k v m). fst x = k \<or> x \<in> set m"
    using set_mput by fastforce
  then show ?case using Cons by (auto simp: p)
qed simp

lemma msorted_filter [simp, intro]: "msorted m \<Longrightarrow> msorted (filter P m)"
  by (induction m) auto

lemma msorted_mdel [simp, intro]: "msorted m \<Longrightarrow> msorted (mdel k m)"
  by (simp add: mdel_def)

lemma msorted_distinct: "msorted m \<Longrightarrow> distinct (map fst m)"
  by (induction m) auto

lemma map_of_msorted: "msorted m \<Longrightarrow> map_of m k = Some v \<longleftrightarrow> (k, v) \<in> set m"
  by (simp add: map_of_eq_Some_iff msorted_distinct)

lemma filter_mput_other: "\<not> P k \<Longrightarrow> filter (\<lambda>p. P (fst p)) (mput k c s) = filter (\<lambda>p. P (fst p)) s"
proof (induction s)
  case (Cons p s)
  then show ?case by (cases p) auto
qed simp

lemma mdel_mput [smap]: "mdel k (mput k v m) = mdel k m"
  unfolding mdel_def by (rule filter_mput_other) simp

lemma mput_noop: "msorted m \<Longrightarrow> map_of m k = Some v \<Longrightarrow> mput k v m = m"
proof (induction m)
  case (Cons p m)
  obtain a b where p: "p = (a, b)" by (cases p)
  show ?case
  proof (cases "k = a")
    case False
    with Cons.prems p have "map_of m k = Some v" by simp
    then have "(k, v) \<in> set m" by (rule map_of_SomeD)
    with Cons.prems p have "a < k" by auto
    with Cons p \<open>map_of m k = Some v\<close> show ?thesis by auto
  qed (use Cons p in auto)
qed simp

text \<open>Two sorted association lists with the same lookups are the same list: equal Go maps
  are encoded as equal bytes.\<close>

lemma msorted_ext:
  assumes "msorted m" "msorted m'" "map_of m = map_of m'"
  shows "m = m'"
proof -
  have "distinct (map fst m)" "distinct (map fst m')"
    using assms msorted_distinct by auto
  then have s: "set m = set m'"
    using assms(3) by (metis map_of_inject_set)
  have "sorted (map fst m)" "sorted (map fst m')"
    using assms strict_sorted_imp_sorted by auto
  moreover have "inj_on fst (set m)"
    using \<open>distinct (map fst m)\<close> by (simp add: distinct_map)
  ultimately show ?thesis
    using s \<open>distinct (map fst m)\<close> \<open>distinct (map fst m')\<close>
    by (metis (no_types, lifting) distinct_map sorted_distinct_set_unique list.set_map
        map_inj_on Un_absorb)
qed

section \<open>Errors and the sentinels they wrap\<close>

datatype sentinel =
    ErrNotFound | ErrCAS | ErrCopyUnsupported | ErrNoCAS
  | ErrLeaseHeld | ErrLeaseLost | ErrReaping | ErrDeleting | ErrHolderMismatch
  | ErrNoSnapshotCoversTarget
  | ErrUncarriedGrowth | ErrNotWholeDatabase | ErrShadowDiverged | ErrPageSizeChanged
  | ErrDetachedCheckout | ErrQuiesceBusy | ErrCheckoutReplaced | ErrNoCheckpoint

text \<open>An error is its text and the sentinels \<^verbatim>\<open>errors.Is\<close> finds in it.\<close>

datatype err = Err (err_text: string) (err_sentinels: "sentinel list")

definition errors_is :: "err \<Rightarrow> sentinel \<Rightarrow> bool" where
  "errors_is e s \<longleftrightarrow> s \<in> set (err_sentinels e)"

definition plain_err :: "string \<Rightarrow> err" where
  "plain_err s = Err s []"

definition wrap_err :: "string \<Rightarrow> err \<Rightarrow> err" where
  "wrap_err s e = Err s (err_sentinels e)"

lemma errors_is_Err [simp]: "errors_is (Err t ss) s \<longleftrightarrow> s \<in> set ss"
  by (simp add: errors_is_def)

lemma errors_is_plain [simp]: "\<not> errors_is (plain_err t) s"
  by (simp add: plain_err_def)

lemma errors_is_wrap [simp]: "errors_is (wrap_err t e) s \<longleftrightarrow> errors_is e s"
  by (simp add: wrap_err_def errors_is_def)

section \<open>Strings\<close>

definition hasPrefix :: "string \<Rightarrow> string \<Rightarrow> bool" where
  "hasPrefix s p \<longleftrightarrow> take (length p) s = p"

definition hasSuffix :: "string \<Rightarrow> string \<Rightarrow> bool" where
  "hasSuffix s p \<longleftrightarrow> hasPrefix (rev s) (rev p)"

fun containsSub :: "string \<Rightarrow> string \<Rightarrow> bool" where
  "containsSub [] p \<longleftrightarrow> p = []"
| "containsSub (c # s) p \<longleftrightarrow> hasPrefix (c # s) p \<or> containsSub s p"

definition trimPrefix :: "string \<Rightarrow> string \<Rightarrow> string" where
  "trimPrefix s p = (if hasPrefix s p then drop (length p) s else s)"

definition trimSuffix :: "string \<Rightarrow> string \<Rightarrow> string" where
  "trimSuffix s p = (if hasSuffix s p then take (length s - length p) s else s)"

definition cutPrefix :: "string \<Rightarrow> string \<Rightarrow> string option" where
  "cutPrefix s p = (if hasPrefix s p then Some (drop (length p) s) else None)"

text \<open>\<^verbatim>\<open>strings.Split\<close> on a one-byte separator, and \<^verbatim>\<open>strings.Cut\<close>.\<close>

fun splitOn :: "char \<Rightarrow> string \<Rightarrow> string list" where
  "splitOn c [] = [[]]"
| "splitOn c (x # xs) =
     (if x = c then [] # splitOn c xs
      else (case splitOn c xs of [] \<Rightarrow> [[x]] | p # ps \<Rightarrow> (x # p) # ps))"

fun cutAt :: "char \<Rightarrow> string \<Rightarrow> (string \<times> string) option" where
  "cutAt c [] = None"
| "cutAt c (x # xs) =
     (if x = c then Some ([], xs)
      else map_option (\<lambda>(a, b). (x # a, b)) (cutAt c xs))"

lemma hasPrefix_append [simp, gostr]: "hasPrefix (p @ s) p"
  by (simp add: hasPrefix_def)

lemma hasPrefix_iff: "hasPrefix s p \<longleftrightarrow> (\<exists>r. s = p @ r)"
  unfolding hasPrefix_def by (metis append_eq_conv_conj append_take_drop_id)

lemma hasSuffix_iff: "hasSuffix s p \<longleftrightarrow> (\<exists>r. s = r @ p)"
  unfolding hasSuffix_def hasPrefix_iff by (metis rev_append rev_rev_ident)

lemma hasSuffix_append [simp, gostr]: "hasSuffix (s @ p) p"
  by (auto simp: hasSuffix_iff)

lemma trimPrefix_append [simp, gostr]: "trimPrefix (p @ s) p = s"
  by (simp add: trimPrefix_def)

lemma trimSuffix_append [simp, gostr]: "trimSuffix (s @ p) p = s"
  by (simp add: trimSuffix_def)

lemma cutPrefix_append [simp, gostr]: "cutPrefix (p @ s) p = Some s"
  by (simp add: cutPrefix_def)

lemma cutPrefix_Some: "cutPrefix s p = Some r \<longleftrightarrow> s = p @ r"
  by (auto simp: cutPrefix_def hasPrefix_iff split: if_splits)

lemma containsSub_iff: "containsSub s p \<longleftrightarrow> (\<exists>a b. s = a @ p @ b)"
proof (induction s)
  case (Cons c s)
  show ?case
  proof
    assume "containsSub (c # s) p"
    then show "\<exists>a b. c # s = a @ p @ b"
      using Cons by (auto simp: hasPrefix_iff) (metis append_Cons append_Nil)+
  next
    assume "\<exists>a b. c # s = a @ p @ b"
    then obtain a b where ab: "c # s = a @ p @ b" by blast
    show "containsSub (c # s) p"
    proof (cases a)
      case Nil
      with ab have "hasPrefix (c # s) p" by (auto simp: hasPrefix_iff)
      then show ?thesis by simp
    qed (use ab Cons in auto)
  qed
qed auto

lemma splitOn_nonempty [simp]: "splitOn c s \<noteq> []"
  by (induction s) (auto split: list.splits)

lemma splitOn_no_sep: "c \<notin> set s \<Longrightarrow> splitOn c s = [s]"
  by (induction s) auto

lemma splitOn_sep [gostr]: "c \<notin> set s \<Longrightarrow> splitOn c (s @ c # r) = s # splitOn c r"
  by (induction s) auto

lemma splitOn_parts: "p \<in> set (splitOn c s) \<Longrightarrow> c \<notin> set p"
proof (induction s arbitrary: p)
  case (Cons x xs)
  then show ?case
    by (cases "splitOn c xs") (auto split: if_splits)
qed simp

lemma splitOn_single: "splitOn c s = [b] \<Longrightarrow> s = b"
proof (induction s arbitrary: b)
  case (Cons y ys)
  then show ?case by (cases "splitOn c ys") (auto split: if_splits)
qed simp

lemma splitOn_two: "splitOn c s = [a, b] \<Longrightarrow> s = a @ c # b"
proof (induction s arbitrary: a)
  case (Cons x xs)
  show ?case
  proof (cases "x = c")
    case True
    with Cons.prems have "a = []" "splitOn c xs = [b]" by auto
    then show ?thesis using True splitOn_single by simp
  next
    case False
    with Cons.prems obtain p ps where "splitOn c xs = p # ps" "a = x # p" "ps = [b]"
      by (cases "splitOn c xs") auto
    with Cons.IH [of p] show ?thesis by simp
  qed
qed simp

lemma last_splitOn: "c \<notin> set b \<Longrightarrow> last (splitOn c (a @ c # b)) = b"
proof (induction a)
  case Nil
  then show ?case by (simp add: splitOn_no_sep)
next
  case (Cons x a)
  show ?case
  proof (cases "splitOn c (a @ c # b)")
    case (Cons p ps)
    have "ps \<noteq> []"
    proof
      assume "ps = []"
      with Cons have "a @ c # b = p" using splitOn_single by simp
      moreover have "c \<notin> set p" using splitOn_parts [of p c "a @ c # b"] Cons by simp
      ultimately show False by auto
    qed
    with Cons Cons.IH Cons.prems show ?thesis by auto
  qed simp
qed

lemma cutAt_sep [gostr]: "c \<notin> set a \<Longrightarrow> cutAt c (a @ c # b) = Some (a, b)"
  by (induction a) auto

lemma cutAt_Some: "cutAt c s = Some (a, b) \<Longrightarrow> s = a @ c # b \<and> c \<notin> set a"
  by (induction s arbitrary: a) (auto split: if_splits)

section \<open>Numbers in keys\<close>

definition digitChar :: "nat \<Rightarrow> char" where
  "digitChar d = char_of (if d < 10 then 48 + d else 87 + d)"

definition digitVal :: "nat \<Rightarrow> char \<Rightarrow> nat option" where
  "digitVal base c =
     (let n = of_char c :: nat;
          d = (if 48 \<le> n \<and> n \<le> 57 then n - 48
               else if 97 \<le> n \<and> n \<le> 122 then n - 87
               else if 65 \<le> n \<and> n \<le> 90 then n - 55
               else base)
      in if d < base then Some d else None)"

text \<open>The loop of \<^verbatim>\<open>strconv.ParseUint\<close>; the range check is against 64 bits.\<close>

fun parseDigits :: "nat \<Rightarrow> nat \<Rightarrow> string \<Rightarrow> nat option" where
  "parseDigits base acc [] = Some acc"
| "parseDigits base acc (c # s) =
     (case digitVal base c of None \<Rightarrow> None | Some d \<Rightarrow> parseDigits base (acc * base + d) s)"

definition parseUint :: "nat \<Rightarrow> string \<Rightarrow> u64 option" where
  "parseUint base s =
     (if s = [] then None
      else case parseDigits base 0 s of
             None \<Rightarrow> None
           | Some n \<Rightarrow> if n < 2 ^ 64 then Some (word_of_nat n) else None)"

text \<open>\<^verbatim>\<open>%d\<close> and \<^verbatim>\<open>%016x\<close> of a \<^verbatim>\<open>uint64\<close>.\<close>

fun decDigits :: "nat \<Rightarrow> string" where
  "decDigits n = (if n < 10 then [digitChar n] else decDigits (n div 10) @ [digitChar (n mod 10)])"

declare decDigits.simps [simp del]

fun hexDigits :: "nat \<Rightarrow> nat \<Rightarrow> string" where
  "hexDigits 0 n = []"
| "hexDigits (Suc w) n = hexDigits w (n div 16) @ [digitChar (n mod 16)]"

definition fmtD :: "u64 \<Rightarrow> string" where
  "fmtD w = decDigits (unat w)"

definition fmtX16 :: "u64 \<Rightarrow> string" where
  "fmtX16 w = hexDigits 16 (unat w)"

lemma of_char_digitChar: "d < 16 \<Longrightarrow> of_char (digitChar d) = (if d < 10 then 48 + d else 87 + d)"
  by (simp add: digitChar_def)

lemma digitVal_digitChar: "d < base \<Longrightarrow> base \<le> 16 \<Longrightarrow> digitVal base (digitChar d) = Some d"
  by (simp add: digitVal_def of_char_digitChar Let_def)

lemma parseDigits_append:
  "parseDigits base acc (s @ t) =
     (case parseDigits base acc s of None \<Rightarrow> None | Some a \<Rightarrow> parseDigits base a t)"
  by (induction s arbitrary: acc) (auto split: option.splits)

lemma parseDigits_decDigits: "parseDigits 10 0 (decDigits n) = Some n"
proof (induction n rule: decDigits.induct)
  case (1 n)
  show ?case
  proof (cases "n < 10")
    case True
    then show ?thesis by (subst decDigits.simps) (simp add: digitVal_digitChar)
  next
    case False
    with 1 show ?thesis
      by (subst decDigits.simps) (simp add: parseDigits_append digitVal_digitChar)
  qed
qed

lemma parseDigits_hexDigits:
  "n < 16 ^ w \<Longrightarrow> parseDigits 16 0 (hexDigits w n) = Some n"
proof (induction w arbitrary: n)
  case (Suc w)
  then have "n div 16 < 16 ^ w" by (simp add: less_mult_imp_div_less mult.commute)
  with Suc.IH show ?case by (simp add: parseDigits_append digitVal_digitChar)
qed simp

lemma decDigits_nonempty: "decDigits n \<noteq> []"
  by (subst decDigits.simps) simp

lemma hexDigits_length [simp]: "length (hexDigits w n) = w"
  by (induction w arbitrary: n) auto

lemma unat_u64_bound: "unat (w::u64) < 2 ^ 64"
  using unsigned_less [of w] by simp

lemma parseUint_fmtD [simp]: "parseUint 10 (fmtD w) = Some w"
  using unat_u64_bound [of w]
  by (simp add: parseUint_def fmtD_def parseDigits_decDigits decDigits_nonempty)

lemma parseUint_fmtX16 [simp]: "parseUint 16 (fmtX16 w) = Some w"
proof -
  have "unat w < 16 ^ 16" using unat_u64_bound [of w] by simp
  then have "parseDigits 16 0 (hexDigits 16 (unat w)) = Some (unat w)"
    by (rule parseDigits_hexDigits)
  moreover have "hexDigits 16 (unat w) \<noteq> []"
    using hexDigits_length [of 16 "unat w"] by (metis list.size(3) zero_neq_numeral)
  ultimately show ?thesis
    using unat_u64_bound [of w] by (simp add: parseUint_def fmtX16_def)
qed

lemma digitChar_not: "d < 16 \<Longrightarrow> digitChar d \<noteq> CHR ''/'' \<and> digitChar d \<noteq> CHR ''-'' \<and> digitChar d \<noteq> CHR ''.''"
proof -
  assume "d < 16"
  then have "of_char (digitChar d) \<noteq> (of_char CHR ''/'' :: nat)"
    "of_char (digitChar d) \<noteq> (of_char CHR ''-'' :: nat)"
    "of_char (digitChar d) \<noteq> (of_char CHR ''.'' :: nat)"
    by (auto simp: of_char_digitChar)
  then show ?thesis by metis
qed

lemma hexDigits_set: "c \<in> set (hexDigits w n) \<Longrightarrow> \<exists>d < 16. c = digitChar d"
  by (induction w arbitrary: n) (auto intro: exI [of _ "_ mod 16"])

lemma decDigits_set: "c \<in> set (decDigits n) \<Longrightarrow> \<exists>d < 16. c = digitChar d"
proof (induction n rule: decDigits.induct)
  case (1 n)
  show ?case
  proof (cases "n < 10")
    case True
    with "1.prems" show ?thesis by (subst (asm) decDigits.simps) (auto intro: exI [of _ n])
  next
    case False
    have "n mod 10 < 16" by (rule less_trans [of _ 10]) simp_all
    with False 1 show ?thesis
      by (subst (asm) (2) decDigits.simps) auto
  qed
qed

lemma fmtX16_chars [simp]:
  "CHR ''/'' \<notin> set (fmtX16 w)" "CHR ''-'' \<notin> set (fmtX16 w)" "CHR ''.'' \<notin> set (fmtX16 w)"
  using hexDigits_set digitChar_not unfolding fmtX16_def by metis+

lemma fmtD_chars [simp]:
  "CHR ''/'' \<notin> set (fmtD w)" "CHR ''-'' \<notin> set (fmtD w)" "CHR ''.'' \<notin> set (fmtD w)"
  using decDigits_set digitChar_not unfolding fmtD_def by metis+

lemma fmtX16_inject [simp]: "fmtX16 a = fmtX16 b \<longleftrightarrow> a = b"
  by (metis option.inject parseUint_fmtX16)

lemma fmtD_inject [simp]: "fmtD a = fmtD b \<longleftrightarrow> a = b"
  by (metis option.inject parseUint_fmtD)

end
