(* ===== verification/Keys.thy ===== *)
theory Keys
  imports Prelude
begin

text \<open>
  Names and object keys: \<^verbatim>\<open>store.ValidateName\<close>, the key builders and
  \<^verbatim>\<open>ParseMemberKey\<close> of \<^verbatim>\<open>internal/store/store.go\<close>, \<^verbatim>\<open>ParseTarget\<close> of
  \<^verbatim>\<open>internal/ops/ops.go\<close> and \<^verbatim>\<open>lineageOfDataKey\<close> of \<^verbatim>\<open>internal/ops/gc.go\<close>.
  The lemmas show that printing a key and parsing it back is the identity, that keys of
  different kinds never collide, and that an accepted name cannot leave its path component.
  Go ranges over runes where \<^verbatim>\<open>ValidateName\<close> checks characters; a byte of a multi-byte
  rune is no ASCII character, so checking bytes gives the same answer.
\<close>

section \<open>Names\<close>

definition maxNameLen :: nat where
  "maxNameLen = 128"

definition nameChar :: "char \<Rightarrow> bool" where
  "nameChar c \<longleftrightarrow>
     (CHR ''a'' \<le> c \<and> c \<le> CHR ''z'') \<or> (CHR ''0'' \<le> c \<and> c \<le> CHR ''9'') \<or>
     c = CHR ''-'' \<or> c = CHR ''_'' \<or> c = CHR ''.''"

definition ValidateName :: "string \<Rightarrow> err option" where
  "ValidateName name =
     (if name = [] \<or> length name > maxNameLen then
        Some (plain_err ''store: invalid name (1-128 chars)'')
      else if name = ''.'' \<or> name = ''..'' \<or> containsSub name ''..'' then
        Some (plain_err ''store: invalid name (must not be . or .., or contain ..)'')
      else if hasPrefix name ''-'' then
        Some (plain_err ''store: invalid name (must not start with -)'')
      else if \<not> list_all nameChar name then
        Some (plain_err ''store: invalid name (allowed: [a-z0-9-_.])'')
      else if hasSuffix name ''.lock'' \<or> containsSub name ''.tmp-'' then
        Some (plain_err ''store: invalid name (must not end in .lock or contain .tmp-)'')
      else None)"

abbreviation valid_name :: "string \<Rightarrow> bool" where
  "valid_name n \<equiv> ValidateName n = None"

definition ParseTarget :: "string \<Rightarrow> err + (string \<times> string)" where
  "ParseTarget s =
     (let parts = splitOn CHR ''@'' s;
          bad = plain_err ''ops: invalid target (want db or db@branch)''
      in if length parts > 2 then Inl bad
         else
           let db = parts ! 0;
               branch = (if length parts = 2 then parts ! 1 else ''main'')
           in if db = [] \<or> branch = [] then Inl bad
              else case ValidateName db of
                     Some e \<Rightarrow> Inl e
                   | None \<Rightarrow>
                       (case ValidateName branch of Some e \<Rightarrow> Inl e | None \<Rightarrow> Inr (db, branch)))"

section \<open>Keys\<close>

definition RefKey :: "string \<Rightarrow> string \<Rightarrow> key" where
  "RefKey db branch = ''refs/'' @ db @ ''/'' @ branch"

definition SnapshotKey :: "string \<Rightarrow> u64 \<Rightarrow> u64 \<Rightarrow> key" where
  "SnapshotKey lineage epoch txid =
     ''data/'' @ lineage @ ''/'' @ fmtD epoch @ ''/snapshot-'' @ fmtX16 txid @ ''.ltx''"

definition LineagePrefix :: "string \<Rightarrow> string" where
  "LineagePrefix lineage = ''data/'' @ lineage @ ''/''"

definition BaseKey :: "string \<Rightarrow> key" where
  "BaseKey lineage = ''data/'' @ lineage @ ''/base.json''"

definition SegmentKey :: "string \<Rightarrow> u64 \<Rightarrow> u64 \<Rightarrow> u64 \<Rightarrow> key" where
  "SegmentKey lineage epoch minTXID maxTXID =
     ''data/'' @ lineage @ ''/'' @ fmtD epoch @ ''/segment-'' @
     fmtX16 maxTXID @ ''-'' @ fmtX16 minTXID @ ''.ltx''"

record chainMember =
  cmKey :: key
  cmSnapshot :: bool
  cmMin :: u64
  cmMax :: u64
  cmEpoch :: u64

definition parseSnapshotFile :: "key \<Rightarrow> u64 \<Rightarrow> string \<Rightarrow> chainMember option" where
  "parseSnapshotFile key epoch file =
     (case parseUint 16 (trimSuffix (trimPrefix file ''snapshot-'') ''.ltx'') of
        None \<Rightarrow> None
      | Some txid \<Rightarrow>
          Some \<lparr>cmKey = key, cmSnapshot = True, cmMin = 0, cmMax = txid, cmEpoch = epoch\<rparr>)"

definition parseSegmentFile :: "key \<Rightarrow> u64 \<Rightarrow> string \<Rightarrow> chainMember option" where
  "parseSegmentFile key epoch file =
     (let fields = splitOn CHR ''-'' (trimSuffix (trimPrefix file ''segment-'') ''.ltx'')
      in if length fields \<noteq> 2 then None
         else case parseUint 16 (fields ! 0) of
                None \<Rightarrow> None
              | Some maxTXID \<Rightarrow>
                  (case parseUint 16 (fields ! 1) of
                     None \<Rightarrow> None
                   | Some minTXID \<Rightarrow>
                       Some \<lparr>cmKey = key, cmSnapshot = False, cmMin = minTXID,
                             cmMax = maxTXID, cmEpoch = epoch\<rparr>))"

definition ParseMemberKey :: "key \<Rightarrow> chainMember option" where
  "ParseMemberKey key =
     (case cutPrefix key ''data/'' of
        None \<Rightarrow> None
      | Some rest \<Rightarrow>
          let parts = splitOn CHR ''/'' rest
          in if length parts \<noteq> 3 then None
             else
               let lineage = parts ! 0; epochStr = parts ! 1; file = parts ! 2
               in if lineage = [] then None
                  else case parseUint 10 epochStr of
                         None \<Rightarrow> None
                       | Some epoch \<Rightarrow>
                           if hasPrefix file ''snapshot-'' \<and> hasSuffix file ''.ltx''
                           then parseSnapshotFile key epoch file
                           else if hasPrefix file ''segment-'' \<and> hasSuffix file ''.ltx''
                           then parseSegmentFile key epoch file
                           else None)"

definition lineageOfDataKey :: "key \<Rightarrow> string option" where
  "lineageOfDataKey key =
     (case cutPrefix key ''data/'' of
        None \<Rightarrow> None
      | Some rest \<Rightarrow>
          (case cutAt CHR ''/'' rest of
             None \<Rightarrow> None
           | Some (lineage, _) \<Rightarrow> if lineage = [] then None else Some lineage))"

text \<open>What \<^verbatim>\<open>NewLineageID\<close> guarantees of a lineage and every lemma below needs of one.\<close>

definition lineage_ok :: "string \<Rightarrow> bool" where
  "lineage_ok l \<longleftrightarrow> l \<noteq> [] \<and> CHR ''/'' \<notin> set l"

section \<open>Splitting a key at its separators\<close>

lemma splitOn_slash3:
  assumes "CHR ''/'' \<notin> set a" "CHR ''/'' \<notin> set b" "CHR ''/'' \<notin> set c"
  shows "splitOn CHR ''/'' (a @ CHR ''/'' # b @ CHR ''/'' # c) = [a, b, c]"
  using assms by (simp add: splitOn_sep splitOn_no_sep)

lemma cutPrefix_data [simp]: "cutPrefix (CHR ''d'' # CHR ''a'' # CHR ''t'' # CHR ''a'' # CHR ''/'' # s) ''data/'' = Some s"
  using cutPrefix_append [of "''data/''" s] by simp

lemma hasPrefix_Cons [gostr]: "hasPrefix (c # s) (d # p) \<longleftrightarrow> c = d \<and> hasPrefix s p"
  by (auto simp: hasPrefix_def)

lemma hasPrefix_Nil [simp]: "hasPrefix s []"
  by (simp add: hasPrefix_def)

lemma hasPrefix_of_Nil [simp]: "hasPrefix [] p \<longleftrightarrow> p = []"
  by (auto simp: hasPrefix_def)

lemma trimPrefix_Cons [gostr]: "trimPrefix (c # s) (c # p) = (if hasPrefix s p then trimPrefix s p else c # s)"
  by (simp add: trimPrefix_def hasPrefix_Cons)

lemma trimPrefix_Nil [simp]: "trimPrefix s [] = s"
  by (simp add: trimPrefix_def)

lemma snapshot_file:
  "parseSnapshotFile k e (''snapshot-'' @ fmtX16 t @ ''.ltx'') =
     Some \<lparr>cmKey = k, cmSnapshot = True, cmMin = 0, cmMax = t, cmEpoch = e\<rparr>"
  unfolding parseSnapshotFile_def trimPrefix_append trimSuffix_append by simp

lemma segment_file:
  "parseSegmentFile k e (''segment-'' @ fmtX16 b @ ''-'' @ fmtX16 a @ ''.ltx'') =
     Some \<lparr>cmKey = k, cmSnapshot = False, cmMin = a, cmMax = b, cmEpoch = e\<rparr>"
proof -
  have "trimSuffix (fmtX16 b @ ''-'' @ fmtX16 a @ ''.ltx'') ''.ltx'' = fmtX16 b @ CHR ''-'' # fmtX16 a"
    using trimSuffix_append [of "fmtX16 b @ CHR ''-'' # fmtX16 a" "''.ltx''"] by simp
  then show ?thesis
    unfolding parseSegmentFile_def trimPrefix_append
    by (simp add: splitOn_sep splitOn_no_sep)
qed

lemma ParseMemberKey_parts:
  assumes "lineage_ok l" "CHR ''/'' \<notin> set f"
  shows "ParseMemberKey (''data/'' @ l @ ''/'' @ fmtD e @ ''/'' @ f) =
    (let k = ''data/'' @ l @ ''/'' @ fmtD e @ ''/'' @ f in
     if hasPrefix f ''snapshot-'' \<and> hasSuffix f ''.ltx'' then parseSnapshotFile k e f
     else if hasPrefix f ''segment-'' \<and> hasSuffix f ''.ltx'' then parseSegmentFile k e f
     else None)"
proof -
  have "splitOn CHR ''/'' (l @ CHR ''/'' # fmtD e @ CHR ''/'' # f) = [l, fmtD e, f]"
    using assms by (intro splitOn_slash3) (auto simp: lineage_ok_def)
  then show ?thesis
    using assms by (simp add: ParseMemberKey_def lineage_ok_def Let_def)
qed

section \<open>Round trips\<close>

lemma ParseMemberKey_SnapshotKey [simp]:
  assumes "lineage_ok l"
  shows "ParseMemberKey (SnapshotKey l e t) =
    Some \<lparr>cmKey = SnapshotKey l e t, cmSnapshot = True, cmMin = 0, cmMax = t, cmEpoch = e\<rparr>"
proof -
  let ?f = "''snapshot-'' @ fmtX16 t @ ''.ltx''"
  have k: "SnapshotKey l e t = ''data/'' @ l @ ''/'' @ fmtD e @ ''/'' @ ?f"
    by (simp add: SnapshotKey_def)
  have s: "hasSuffix ?f ''.ltx''"
    using hasSuffix_append [of "''snapshot-'' @ fmtX16 t"] by simp
  show ?thesis
    unfolding k
    by (subst ParseMemberKey_parts) (use assms s snapshot_file in \<open>auto simp: Let_def gostr\<close>)
qed

lemma ParseMemberKey_SegmentKey [simp]:
  assumes "lineage_ok l"
  shows "ParseMemberKey (SegmentKey l e a b) =
    Some \<lparr>cmKey = SegmentKey l e a b, cmSnapshot = False, cmMin = a, cmMax = b, cmEpoch = e\<rparr>"
proof -
  let ?f = "''segment-'' @ fmtX16 b @ ''-'' @ fmtX16 a @ ''.ltx''"
  have k: "SegmentKey l e a b = ''data/'' @ l @ ''/'' @ fmtD e @ ''/'' @ ?f"
    by (simp add: SegmentKey_def)
  have s: "hasSuffix ?f ''.ltx''"
    using hasSuffix_append [of "''segment-'' @ fmtX16 b @ ''-'' @ fmtX16 a"] by simp
  show ?thesis
    unfolding k
    by (subst ParseMemberKey_parts) (use assms s segment_file in \<open>auto simp: Let_def gostr\<close>)
qed

lemma ParseMemberKey_BaseKey [simp]: "lineage_ok l \<Longrightarrow> ParseMemberKey (BaseKey l) = None"
  by (simp add: ParseMemberKey_def BaseKey_def lineage_ok_def splitOn_sep splitOn_no_sep)

lemma ParseMemberKey_key: "ParseMemberKey k = Some m \<Longrightarrow> cmKey m = k"
  by (auto simp: ParseMemberKey_def parseSnapshotFile_def parseSegmentFile_def Let_def
      split: option.splits if_splits)

lemma ParseMemberKey_snapshot_min: "ParseMemberKey k = Some m \<Longrightarrow> cmSnapshot m \<Longrightarrow> cmMin m = 0"
  by (auto simp: ParseMemberKey_def parseSnapshotFile_def parseSegmentFile_def Let_def
      split: option.splits if_splits)

lemma lineageOfDataKey_prefix [simp]:
  "lineage_ok l \<Longrightarrow> lineageOfDataKey (LineagePrefix l @ s) = Some l"
  by (simp add: lineageOfDataKey_def LineagePrefix_def lineage_ok_def cutAt_sep)

lemma lineageOfDataKey_SomeD:
  "lineageOfDataKey k = Some l \<Longrightarrow> lineage_ok l \<and> hasPrefix k (LineagePrefix l)"
  by (auto simp: lineageOfDataKey_def LineagePrefix_def lineage_ok_def cutPrefix_Some
      hasPrefix_iff dest!: cutAt_Some split: option.splits if_splits)

lemma hasPrefix_keys [simp]:
  "hasPrefix (SnapshotKey l e t) (LineagePrefix l)"
  "hasPrefix (SegmentKey l e a b) (LineagePrefix l)"
  "hasPrefix (BaseKey l) (LineagePrefix l)"
  by (auto simp: SnapshotKey_def SegmentKey_def BaseKey_def LineagePrefix_def hasPrefix_iff)

lemma lineageOfDataKey_keys [simp]:
  assumes "lineage_ok l"
  shows "lineageOfDataKey (SnapshotKey l e t) = Some l"
    "lineageOfDataKey (SegmentKey l e a b) = Some l"
    "lineageOfDataKey (BaseKey l) = Some l"
  using lineageOfDataKey_prefix [OF assms] hasPrefix_keys
  unfolding hasPrefix_iff by metis+

lemma lineageOfDataKey_hasPrefix:
  assumes "lineage_ok l" "hasPrefix k (LineagePrefix l)"
  shows "lineageOfDataKey k = Some l"
proof -
  obtain r where "k = LineagePrefix l @ r" using assms(2) by (auto simp: hasPrefix_iff)
  then show ?thesis using lineageOfDataKey_prefix [OF assms(1)] by simp
qed

lemma RefKey_inject:
  assumes "CHR ''/'' \<notin> set db" "CHR ''/'' \<notin> set db'" "RefKey db b = RefKey db' b'"
  shows "db = db' \<and> b = b'"
proof -
  have "cutAt CHR ''/'' (db @ CHR ''/'' # b) = cutAt CHR ''/'' (db' @ CHR ''/'' # b')"
    using assms(3) by (simp add: RefKey_def)
  then show ?thesis using assms by (simp add: cutAt_sep)
qed

lemma BaseKey_inject [simp]: "BaseKey a = BaseKey b \<longleftrightarrow> a = b"
  by (simp add: BaseKey_def)

lemma RefKey_not_data: "RefKey db b \<noteq> ''data/'' @ s"
  by (simp add: RefKey_def)

lemma SnapshotKey_inject:
  assumes "lineage_ok l" "lineage_ok l'" "SnapshotKey l e t = SnapshotKey l' e' t'"
  shows "l = l' \<and> e = e' \<and> t = t'"
proof -
  have "lineageOfDataKey (SnapshotKey l e t) = lineageOfDataKey (SnapshotKey l' e' t')"
    "ParseMemberKey (SnapshotKey l e t) = ParseMemberKey (SnapshotKey l' e' t')"
    using assms(3) by auto
  then show ?thesis using assms(1,2) by auto
qed

section \<open>Accepted names\<close>

lemma nameChar_not_sep [simp]:
  "\<not> nameChar CHR ''/''" "\<not> nameChar CHR ''@''" "\<not> nameChar CHR '' ''"
  by (simp_all add: nameChar_def less_eq_char_def)

lemma valid_nameD:
  assumes "valid_name n"
  shows "n \<noteq> []" "length n \<le> 128" "CHR ''/'' \<notin> set n" "CHR ''@'' \<notin> set n"
    "\<not> containsSub n ''..''" "\<not> hasPrefix n ''-''" "n \<noteq> ''.''"
    "\<not> hasSuffix n ''.lock''" "\<not> containsSub n ''.tmp-''"
  using assms nameChar_not_sep
  by (auto simp: ValidateName_def maxNameLen_def list_all_iff split: if_splits)

lemma splitOn_RefKey:
  assumes "valid_name db" "valid_name b"
  shows "splitOn CHR ''/'' (RefKey db b) = [''refs'', db, b]"
  using assms valid_nameD(3) splitOn_slash3 [of "''refs''" db b] by (simp add: RefKey_def)

lemma splitOn_slash_RefKey:
  "splitOn CHR ''/'' k = [r, db, b] \<Longrightarrow> hasPrefix k ''refs/'' \<Longrightarrow> k = RefKey db b"
proof -
  assume s: "splitOn CHR ''/'' k = [r, db, b]" and p: "hasPrefix k ''refs/''"
  from p obtain k' where k: "k = ''refs'' @ CHR ''/'' # k'" by (auto simp: hasPrefix_iff)
  have "splitOn CHR ''/'' k' = [db, b]"
    using s unfolding k by (subst (asm) splitOn_sep) auto
  then show ?thesis using k splitOn_two by (simp add: RefKey_def)
qed

lemma ParseTarget_Inr:
  assumes "ParseTarget s = Inr (db, b)"
  shows "valid_name db \<and> valid_name b \<and> (s = db @ ''@'' @ b \<or> s = db \<and> b = ''main'')"
proof -
  let ?p = "splitOn CHR ''@'' s"
  have len: "length ?p \<le> 2" and v: "valid_name db" "valid_name b"
    and db: "db = ?p ! 0" and b: "b = (if length ?p = 2 then ?p ! 1 else ''main'')"
    using assms by (auto simp: ParseTarget_def Let_def split: if_splits option.splits)
  show ?thesis
  proof (cases "length ?p = 2")
    case True
    then have "?p = [db, b]"
      using db b by (auto simp: numeral_2_eq_2 length_Suc_conv)
    then show ?thesis using splitOn_two v by simp
  next
    case False
    with len have "length ?p = 1"
      by (cases ?p) (auto simp: le_Suc_eq)
    then obtain x where x: "?p = [x]" by (auto simp: length_Suc_conv)
    moreover have "s = x"
      using splitOn_single [OF x] .
    ultimately show ?thesis using db b v by simp
  qed
qed

section \<open>Properties\<close>

text \<open>A target string names a branch exactly when it is \<^verbatim>\<open>db@branch\<close>, or a bare \<^verbatim>\<open>db\<close> for
  \<^verbatim>\<open>main\<close>, with both parts valid names: every accepted target is read back from its own text, and
  every pair of valid names has a target.\<close>

theorem ParseTarget_exact:
  "ParseTarget s = Inr (db, b) \<longleftrightarrow>
     valid_name db \<and> valid_name b \<and> (s = db @ ''@'' @ b \<or> (s = db \<and> b = ''main''))"
proof
  assume "valid_name db \<and> valid_name b \<and> (s = db @ ''@'' @ b \<or> (s = db \<and> b = ''main''))"
  then show "ParseTarget s = Inr (db, b)"
    using valid_nameD(1,4) [of db] valid_nameD(1,4) [of b]
    by (auto simp: ParseTarget_def Let_def splitOn_sep splitOn_no_sep)
qed (use ParseTarget_Inr in blast)

text \<open>Object keys round trip. The key of a snapshot and the key of a segment parse back to the
  member they were printed for, with its epoch and transaction range at full 64-bit width, a lineage's
  base pointer parses as no member, and each names its lineage.\<close>

theorem member_keys_roundtrip:
  assumes "l \<noteq> []" "CHR ''/'' \<notin> set l"
  shows "ParseMemberKey (SnapshotKey l e t) =
      Some \<lparr>cmKey = SnapshotKey l e t, cmSnapshot = True, cmMin = 0, cmMax = t, cmEpoch = e\<rparr> \<and>
    ParseMemberKey (SegmentKey l e a t) =
      Some \<lparr>cmKey = SegmentKey l e a t, cmSnapshot = False, cmMin = a, cmMax = t, cmEpoch = e\<rparr> \<and>
    ParseMemberKey (BaseKey l) = None \<and>
    lineageOfDataKey (SnapshotKey l e t) = Some l \<and> lineageOfDataKey (SegmentKey l e a t) = Some l \<and>
    lineageOfDataKey (BaseKey l) = Some l"
proof -
  have "lineage_ok l" using assms by (simp add: lineage_ok_def)
  then show ?thesis by simp
qed

theorem member_keys_roundtrip_witness:
  "ParseMemberKey (SnapshotKey ''l1'' 3 18446744073709551615) =
     Some \<lparr>cmKey = SnapshotKey ''l1'' 3 18446744073709551615, cmSnapshot = True, cmMin = 0,
           cmMax = 18446744073709551615, cmEpoch = 3\<rparr>"
  using member_keys_roundtrip [of "''l1''" 3 18446744073709551615] by simp

end
