(* ===== verification/Objects.thy ===== *)
theory Objects
  imports Keys
begin

text \<open>
  The data the store holds (\<^verbatim>\<open>internal/store/store.go\<close>): manifest, checkpoints, refs, base
  pointers, and the tombstone list of \<^verbatim>\<open>internal/ops/gc.go\<close>.  A JSON object is modelled by
  the value it decodes to; a Go map by its association list in key order, the order
  \<^verbatim>\<open>json.Marshal\<close> writes, so equal values are equal bytes.  A time stamp field is a Go
  string: empty, a time in nanoseconds, or a text \<^verbatim>\<open>time.Parse\<close> rejects.
\<close>

datatype stamp = NoStamp | At int | BadStamp string

datatype duration = NoTTL | TTL int | BadTTL string

definition parseStamp :: "stamp \<Rightarrow> int option" where
  "parseStamp s = (case s of At t \<Rightarrow> Some t | _ \<Rightarrow> None)"

record manifest =
  mLayoutVersion :: int
  mCreatedAt :: string

record checkpoint =
  cpTXID :: u64
  cpEpoch :: u64
  cpCreatedAt :: string
  cpMeta :: "string byname"
  cpKind :: string

record basePointer =
  bpLineage :: string
  bpTXID :: u64

record 'c refOf =
  rSchema :: int
  rLineage :: string
  rEpoch :: u64
  rHeadTXID :: u64
  rHeadEpoch :: u64
  rCheckpoints :: "'c byname"
  rParent :: string
  rProtected :: bool
  rLeaseHolder :: string
  rLeaseExpiry :: stamp
  rTTL :: duration
  rTouchedAt :: stamp
  rReaping :: bool
  rDeleting :: bool
  rDeletingAt :: stamp
  rMeta :: "string byname"
  rBase :: "basePointer option"

text \<open>A checkpoint on disk (\<^verbatim>\<open>json.RawMessage\<close>): a schema 1 number, a schema 2 object,
  \<^verbatim>\<open>null\<close>, or anything else.\<close>

datatype cpRaw = RawNull | RawNum u64 | RawObj checkpoint | RawBad string

type_synonym ref = "checkpoint refOf"
type_synonym refWire = "cpRaw refOf"

definition LayoutVersion :: int where "LayoutVersion = 2"
definition RefSchema :: int where "RefSchema = 2"

datatype content =
    CManifest manifest | CRef refWire | CBase basePointer | CStones "stamp byname" | CRaw string

text \<open>An etag identifies content: \<^verbatim>\<open>etagOf\<close> is a SHA-256 of the bytes, compared only for
  equality, modelled by the content itself.  \<^verbatim>\<open>ETagText\<close> is an etag no write returned.\<close>

datatype etag = NoETag | ETagOf content | ETagText string

section \<open>Refs\<close>

definition SetCheckpoint :: "string \<Rightarrow> checkpoint \<Rightarrow> ref \<Rightarrow> ref" where
  "SetCheckpoint name cp r = r\<lparr>rCheckpoints := mput name cp (rCheckpoints r)\<rparr>"

definition refTouch :: "int \<Rightarrow> ref \<Rightarrow> ref" where
  "refTouch now r = r\<lparr>rTouchedAt := At now\<rparr>"

text \<open>The loop of \<^verbatim>\<open>decodeRef\<close> over the wire checkpoints.\<close>

fun decodeCheckpoints :: "u64 \<Rightarrow> cpRaw byname \<Rightarrow> ref \<Rightarrow> err + ref" where
  "decodeCheckpoints epoch [] r = Inr r"
| "decodeCheckpoints epoch ((name, raw) # ws) r =
     (case raw of
        RawNull \<Rightarrow> Inl (plain_err ''store: bad checkpoint: null'')
      | RawObj cp \<Rightarrow>
          if cpTXID cp \<noteq> 0 then decodeCheckpoints epoch ws (SetCheckpoint name cp r)
          else Inl (plain_err ''store: bad checkpoint'')
      | RawNum txid \<Rightarrow>
          decodeCheckpoints epoch ws
            (SetCheckpoint name
               \<lparr>cpTXID = txid, cpEpoch = epoch, cpCreatedAt = [], cpMeta = [], cpKind = []\<rparr> r)
      | RawBad _ \<Rightarrow> Inl (plain_err ''store: bad checkpoint''))"

definition decodeWire :: "refWire \<Rightarrow> err + ref" where
  "decodeWire w =
     (if rSchema w > RefSchema then
        Inl (plain_err ''store: ref schema is newer than this binary supports'')
      else
        decodeCheckpoints (rEpoch w) (rCheckpoints w)
          \<lparr>rSchema = RefSchema, rLineage = rLineage w, rEpoch = rEpoch w,
           rHeadTXID = rHeadTXID w,
           rHeadEpoch = (if rHeadEpoch w = 0 then rEpoch w else rHeadEpoch w),
           rCheckpoints = [], rParent = rParent w, rProtected = rProtected w,
           rLeaseHolder = rLeaseHolder w, rLeaseExpiry = rLeaseExpiry w,
           rTTL = rTTL w, rTouchedAt = rTouchedAt w, rReaping = rReaping w,
           rDeleting = rDeleting w, rDeletingAt = rDeletingAt w,
           rMeta = rMeta w, rBase = rBase w\<rparr>)"

definition decodeRef :: "content \<Rightarrow> err + ref" where
  "decodeRef c = (case c of CRef w \<Rightarrow> decodeWire w | _ \<Rightarrow> Inl (plain_err ''json: cannot unmarshal ref''))"

text \<open>\<^verbatim>\<open>json.Marshal\<close> of a ref: every checkpoint becomes a schema 2 object.\<close>

definition marshalRef :: "ref \<Rightarrow> content" where
  "marshalRef r = CRef
     \<lparr>rSchema = rSchema r, rLineage = rLineage r, rEpoch = rEpoch r, rHeadTXID = rHeadTXID r,
      rHeadEpoch = rHeadEpoch r, rCheckpoints = map (\<lambda>(n, cp). (n, RawObj cp)) (rCheckpoints r),
      rParent = rParent r, rProtected = rProtected r, rLeaseHolder = rLeaseHolder r,
      rLeaseExpiry = rLeaseExpiry r, rTTL = rTTL r, rTouchedAt = rTouchedAt r,
      rReaping = rReaping r, rDeleting = rDeleting r, rDeletingAt = rDeletingAt r,
      rMeta = rMeta r, rBase = rBase r\<rparr>"

text \<open>What \<^verbatim>\<open>PutRef\<close> writes into the ref before it encodes it.\<close>

definition stampRef :: "ref \<Rightarrow> ref" where
  "stampRef r =
     (let r1 = r\<lparr>rSchema := RefSchema\<rparr>
      in if rHeadEpoch r1 = 0 then r1\<lparr>rHeadEpoch := rEpoch r1\<rparr> else r1)"

text \<open>A ref as a Go program holds one: its maps are maps, and no checkpoint has transaction 0.\<close>

definition ref_wf :: "ref \<Rightarrow> bool" where
  "ref_wf r \<longleftrightarrow> msorted (rCheckpoints r) \<and> list_all (\<lambda>(n, cp). cpTXID cp \<noteq> 0) (rCheckpoints r)"

definition wire_wf :: "refWire \<Rightarrow> bool" where
  "wire_wf w \<longleftrightarrow> list_all (\<lambda>(n, c). c \<noteq> RawNum 0) (rCheckpoints w)"

section \<open>Encoding and decoding\<close>

lemma decodeCheckpoints_objects:
  assumes "list_all (\<lambda>(n, cp). cpTXID cp \<noteq> 0) cps"
  shows "decodeCheckpoints e (map (\<lambda>(n, cp). (n, RawObj cp)) cps) r =
    Inr (r\<lparr>rCheckpoints := fold (\<lambda>(n, cp). mput n cp) cps (rCheckpoints r)\<rparr>)"
  using assms by (induction cps arbitrary: r) (auto simp: SetCheckpoint_def)

lemma mput_last: "\<forall>x \<in> fst ` set m. x < k \<Longrightarrow> mput k v m = m @ [(k, v)]"
proof (induction m)
  case (Cons p m)
  then show ?case by (cases p) auto
qed simp

lemma fold_mput_sorted:
  "msorted (m @ cps) \<Longrightarrow> fold (\<lambda>(n, cp). mput n cp) cps m = m @ cps"
proof (induction cps arbitrary: m)
  case (Cons p cps)
  obtain n cp where p: "p = (n, cp)" by (cases p)
  have "mput n cp m = m @ [(n, cp)]"
    using Cons.prems p by (intro mput_last) (auto simp: sorted_wrt_append)
  with Cons p show ?case by simp
qed simp

lemma decodeRef_marshalRef:
  assumes "ref_wf r"
  shows "decodeRef (marshalRef (stampRef r)) = Inr (stampRef r)"
proof -
  have "fold (\<lambda>(n, cp). mput n cp) (rCheckpoints r) [] = rCheckpoints r"
    using fold_mput_sorted [of "[]" "rCheckpoints r"] assms by (simp add: ref_wf_def)
  moreover have "rCheckpoints (stampRef r) = rCheckpoints r"
    "rSchema (stampRef r) = RefSchema"
    "rHeadEpoch (stampRef r) = 0 \<Longrightarrow> rEpoch (stampRef r) = 0"
    by (auto simp: stampRef_def Let_def split: if_splits)
  ultimately show ?thesis
    using assms
    by (auto simp: decodeRef_def marshalRef_def decodeWire_def decodeCheckpoints_objects ref_wf_def)
qed

lemma ref_wf_SetCheckpoint:
  assumes "ref_wf r" "cpTXID cp \<noteq> 0"
  shows "ref_wf (SetCheckpoint n cp r)"
  using assms set_mput [of n cp "rCheckpoints r"]
  by (auto simp: ref_wf_def SetCheckpoint_def list_all_iff)

lemma decodeCheckpoints_wf:
  assumes "decodeCheckpoints e ws r = Inr r'" "ref_wf r" "list_all (\<lambda>(n, c). c \<noteq> RawNum 0) ws"
  shows "ref_wf r'"
  using assms
proof (induction e ws r rule: decodeCheckpoints.induct)
  case (2 epoch name raw ws r)
  then show ?case
    by (cases raw) (auto simp: ref_wf_SetCheckpoint split: if_splits)
qed simp

lemma decodeWire_wf: "decodeWire w = Inr r \<Longrightarrow> wire_wf w \<Longrightarrow> ref_wf r"
  by (auto simp: decodeWire_def wire_wf_def ref_wf_def split: if_splits
      dest!: decodeCheckpoints_wf)

lemma decodeCheckpoints_frame:
  assumes "decodeCheckpoints e ws r = Inr r'"
  shows "\<exists>cps. r' = r\<lparr>rCheckpoints := cps\<rparr>"
  using assms
proof (induction e ws r rule: decodeCheckpoints.induct)
  case (1 e r)
  then show ?case by (auto intro: exI [of _ "rCheckpoints r"])
next
  case (2 epoch name raw ws r)
  then show ?case
    by (cases raw) (fastforce simp: SetCheckpoint_def split: if_splits)+
qed

lemma marshalRef_inject [simp]: "marshalRef a = marshalRef b \<longleftrightarrow> a = b"
proof
  assume eq: "marshalRef a = marshalRef b"
  have "inj (\<lambda>(n::string, cp). (n, RawObj cp))" by (auto simp: inj_def)
  then have "rCheckpoints a = rCheckpoints b"
    using eq by (simp add: marshalRef_def inj_map_eq_map)
  with eq show "a = b"
    by (cases a, cases b) (simp add: marshalRef_def)
qed simp

lemma stampRef_wf [simp]: "ref_wf (stampRef r) \<longleftrightarrow> ref_wf r"
  by (simp add: ref_wf_def stampRef_def Let_def)

lemma stampRef_fields [simp]:
  "rLineage (stampRef r) = rLineage r" "rEpoch (stampRef r) = rEpoch r"
  "rHeadTXID (stampRef r) = rHeadTXID r" "rCheckpoints (stampRef r) = rCheckpoints r"
  "rParent (stampRef r) = rParent r" "rProtected (stampRef r) = rProtected r"
  "rLeaseHolder (stampRef r) = rLeaseHolder r" "rLeaseExpiry (stampRef r) = rLeaseExpiry r"
  "rTTL (stampRef r) = rTTL r" "rTouchedAt (stampRef r) = rTouchedAt r"
  "rReaping (stampRef r) = rReaping r" "rDeleting (stampRef r) = rDeleting r"
  "rDeletingAt (stampRef r) = rDeletingAt r" "rMeta (stampRef r) = rMeta r"
  "rBase (stampRef r) = rBase r" "rSchema (stampRef r) = RefSchema"
  by (simp_all add: stampRef_def Let_def)

lemma stampRef_idem [simp]: "stampRef (stampRef r) = stampRef r"
  by (simp add: stampRef_def Let_def)

lemma decodeWire_stamped:
  assumes "decodeWire w = Inr r"
  shows "stampRef r = r"
proof -
  have "rSchema r = RefSchema" "rHeadEpoch r = 0 \<Longrightarrow> rEpoch r = 0"
    using assms by (auto simp: decodeWire_def split: if_splits dest!: decodeCheckpoints_frame)
  then show ?thesis by (cases r) (auto simp: stampRef_def Let_def)
qed

section \<open>Properties\<close>

text \<open>A branch as a writer leaves it: two checkpoints, a live lease, a base pointer.\<close>

definition sampleRef :: ref where
  "sampleRef =
     \<lparr>rSchema = 2, rLineage = ''l2'', rEpoch = 3, rHeadTXID = 3, rHeadEpoch = 3,
      rCheckpoints =
        [(''c1'', \<lparr>cpTXID = 2, cpEpoch = 3, cpCreatedAt = ''t2'', cpMeta = [], cpKind = ''full''\<rparr>),
         (''c2'', \<lparr>cpTXID = 3, cpEpoch = 3, cpCreatedAt = ''t3'', cpMeta = [(''k'', ''v'')], cpKind = []\<rparr>)],
      rParent = ''app@main'', rProtected = False, rLeaseHolder = ''h'', rLeaseExpiry = At 900,
      rTTL = TTL 60, rTouchedAt = At 100, rReaping = False, rDeleting = False, rDeletingAt = NoStamp,
      rMeta = [], rBase = Some \<lparr>bpLineage = ''l1'', bpTXID = 2\<rparr>\<rparr>"




end
