(* ===== verification/Backend.thy ===== *)
theory Backend
  imports Objects
begin

text \<open>
  The conditional-write backend: the interface of \<^verbatim>\<open>internal/store/backend.go\<close>, the local
  directory implementation of \<^verbatim>\<open>internal/store/local.go\<close>, and the start-up probe of
  \<^verbatim>\<open>internal/store/probe.go\<close>.

  The objects of a store are a sorted association list from keys to contents.  The per-key
  lock of \<^verbatim>\<open>Local\<close> makes each of its operations one atomic step on it.  The \<^emph>\<open>world\<close> adds
  what a client of a shared store sees: before each call other processes may change the
  store in any way, and the call may fail, either before it was applied or after (a request
  that timed out but landed, which \<^verbatim>\<open>SettledWriter\<close> rules out for \<^verbatim>\<open>Local\<close>).  A script lists
  these events, one for each call; a call past the end of the script runs undisturbed.
\<close>

type_synonym objs = "(key \<times> content) list"

section \<open>The local directory backend\<close>

definition localPath :: "key \<Rightarrow> err option" where
  "localPath key =
     (if key = [] \<or> containsSub key ''..'' \<or> hasPrefix key ''/''
      then Some (plain_err ''store: invalid key'') else None)"

definition etagOf :: "content \<Rightarrow> etag" where
  "etagOf c = ETagOf c"

definition errNotFound :: err where
  "errNotFound = Err ''store: not found'' [ErrNotFound]"

definition errCAS :: "string \<Rightarrow> err" where
  "errCAS s = Err s [ErrCAS]"

definition localGet :: "objs \<Rightarrow> key \<Rightarrow> err + content \<times> etag" where
  "localGet s key =
     (case localPath key of
        Some e \<Rightarrow> Inl e
      | None \<Rightarrow>
          (case map_of s key of
             None \<Rightarrow> Inl errNotFound
           | Some c \<Rightarrow> Inr (c, etagOf c)))"

definition localPut :: "objs \<Rightarrow> key \<Rightarrow> content \<Rightarrow> err option \<times> objs" where
  "localPut s key c =
     (case localPath key of Some e \<Rightarrow> (Some e, s) | None \<Rightarrow> (None, mput key c s))"

text \<open>Read, compare and rename under the key's lock; \<^verbatim>\<open>NoETag\<close> is the empty
  \<^verbatim>\<open>ifMatch\<close>, a create-only write.\<close>

definition localPutIf :: "objs \<Rightarrow> key \<Rightarrow> content \<Rightarrow> etag \<Rightarrow> (err + etag) \<times> objs" where
  "localPutIf s key c ifMatch =
     (case localPath key of
        Some e \<Rightarrow> (Inl e, s)
      | None \<Rightarrow>
          (case map_of s key of
             None \<Rightarrow>
               if ifMatch \<noteq> NoETag then (Inl (errCAS ''key absent, expected etag''), s)
               else (Inr (etagOf c), mput key c s)
           | Some cur \<Rightarrow>
               if ifMatch = NoETag then (Inl (errCAS ''key exists''), s)
               else if etagOf cur \<noteq> ifMatch then (Inl (errCAS ''etag mismatch''), s)
               else (Inr (etagOf c), mput key c s)))"

definition listHidden :: "key \<Rightarrow> bool" where
  "listHidden key \<longleftrightarrow> hasSuffix key ''.lock'' \<or> containsSub (last (splitOn CHR ''/'' key)) ''.tmp-''"

definition localList :: "objs \<Rightarrow> string \<Rightarrow> key list" where
  "localList s prefix = sort (filter (\<lambda>k. \<not> listHidden k \<and> hasPrefix k prefix) (mkeys s))"

definition localCopyObject :: "objs \<Rightarrow> key \<Rightarrow> key \<Rightarrow> err option \<times> objs" where
  "localCopyObject s dst src =
     (case localPath dst of
        Some e \<Rightarrow> (Some e, s)
      | None \<Rightarrow>
          (case localPath src of
             Some e \<Rightarrow> (Some e, s)
           | None \<Rightarrow>
               (case map_of s src of
                  None \<Rightarrow> (Some errNotFound, s)
                | Some c \<Rightarrow> (None, mput dst c s))))"

definition localDelete :: "objs \<Rightarrow> key \<Rightarrow> err option \<times> objs" where
  "localDelete s key =
     (case localPath key of Some e \<Rightarrow> (Some e, s) | None \<Rightarrow> (None, mdel key s))"

definition localDeleteIf :: "objs \<Rightarrow> key \<Rightarrow> etag \<Rightarrow> err option \<times> objs" where
  "localDeleteIf s key ifMatch =
     (case localPath key of
        Some e \<Rightarrow> (Some e, s)
      | None \<Rightarrow>
          (case map_of s key of
             None \<Rightarrow> (Some (errCAS ''key absent, expected etag''), s)
           | Some cur \<Rightarrow>
               if etagOf cur \<noteq> ifMatch then (Some (errCAS ''etag mismatch''), s)
               else (None, mdel key s)))"

section \<open>The start-up probe\<close>

definition probeContentIs ::
  "('s \<Rightarrow> key \<Rightarrow> err + content \<times> etag) \<Rightarrow> 's \<Rightarrow> key \<Rightarrow> content \<Rightarrow> string \<Rightarrow> err option" where
  "probeContentIs get s key want when =
     (case get s key of
        Inl e \<Rightarrow> Some (wrap_err (''store: probe read '' @ when) e)
      | Inr (got, _) \<Rightarrow>
          if got \<noteq> want then Some (Err (''content changed '' @ when) [ErrNoCAS]) else None)"

text \<open>The checks after the first write; the deferred delete runs in \<^verbatim>\<open>ProbeCAS\<close>.\<close>

definition probeChecks ::
  "('s \<Rightarrow> key \<Rightarrow> err + content \<times> etag) \<Rightarrow> ('s \<Rightarrow> key \<Rightarrow> content \<Rightarrow> etag \<Rightarrow> (err + etag) \<times> 's) \<Rightarrow>
   key \<Rightarrow> content \<Rightarrow> content \<Rightarrow> etag \<Rightarrow> 's \<Rightarrow> err option \<times> 's" where
  "probeChecks get putIf key first second etag s =
     (case putIf s key second NoETag of
        (Inr _, s1) \<Rightarrow> (Some (Err ''create-only put over an existing key was accepted'' [ErrNoCAS]), s1)
      | (Inl e, s1) \<Rightarrow>
          if \<not> errors_is e ErrCAS then (Some (wrap_err ''store: probe create-only put returned an unexpected error'' e), s1)
          else case probeContentIs get s1 key first ''after a rejected create-only put'' of
            Some e1 \<Rightarrow> (Some e1, s1)
          | None \<Rightarrow>
              (case putIf s1 key second (ETagText ''offshoot-probe-not-a-real-etag'') of
                 (Inr _, s2) \<Rightarrow> (Some (Err ''compare-and-swap with a stale etag was accepted'' [ErrNoCAS]), s2)
               | (Inl e2, s2) \<Rightarrow>
                   if \<not> errors_is e2 ErrCAS then (Some (wrap_err ''store: probe stale-etag put returned an unexpected error'' e2), s2)
                   else case probeContentIs get s2 key first ''after a rejected compare-and-swap'' of
                     Some e3 \<Rightarrow> (Some e3, s2)
                   | None \<Rightarrow>
                       (case putIf s2 key second etag of
                          (Inl e4, s3) \<Rightarrow> (Some (wrap_err ''store: probe compare-and-swap with a valid etag failed'' e4), s3)
                        | (Inr _, s3) \<Rightarrow>
                            (probeContentIs get s3 key second ''after a successful compare-and-swap'', s3))))"

definition ProbeCAS ::
  "('s \<Rightarrow> key \<Rightarrow> err + content \<times> etag) \<Rightarrow> ('s \<Rightarrow> key \<Rightarrow> content \<Rightarrow> etag \<Rightarrow> (err + etag) \<times> 's) \<Rightarrow>
   ('s \<Rightarrow> key \<Rightarrow> err option \<times> 's) \<Rightarrow> string \<Rightarrow> 's \<Rightarrow> err option \<times> 's" where
  "ProbeCAS get putIf delete rnd s =
     (let key = ''probe/cas-'' @ rnd;
          first = CRaw ''offshoot-probe-1'';
          second = CRaw ''offshoot-probe-2''
      in case putIf s key first NoETag of
           (Inl e, s1) \<Rightarrow> (Some (wrap_err ''store: probe create-only put failed'' e), s1)
         | (Inr etag, s1) \<Rightarrow>
             (case probeChecks get putIf key first second etag s1 of
                (res, s2) \<Rightarrow> (res, snd (delete s2 key))))"

section \<open>A shared store: other writers and failing calls\<close>

datatype fault = Fine | Refused err | Landed err

datatype event = Event "objs \<Rightarrow> objs" fault

record world =
  wObjs :: objs
  wScript :: "event list"
  wCondDelete :: bool
  wSettled :: bool

fun tick :: "world \<Rightarrow> fault \<times> world" where
  "tick w = (case wScript w of
      [] \<Rightarrow> (Fine, w)
    | Event f x # r \<Rightarrow> (x, w\<lparr>wObjs := f (wObjs w), wScript := r\<rparr>))"

declare tick.simps [simp del]

definition bGet :: "key \<Rightarrow> world \<Rightarrow> (err + content \<times> etag) \<times> world" where
  "bGet key w =
     (case tick w of
        (Fine, w1) \<Rightarrow> (localGet (wObjs w1) key, w1)
      | (Refused e, w1) \<Rightarrow> (Inl e, w1)
      | (Landed e, w1) \<Rightarrow> (Inl e, w1))"

definition bList :: "string \<Rightarrow> world \<Rightarrow> (err + key list) \<times> world" where
  "bList prefix w =
     (case tick w of
        (Fine, w1) \<Rightarrow> (Inr (localList (wObjs w1) prefix), w1)
      | (Refused e, w1) \<Rightarrow> (Inl e, w1)
      | (Landed e, w1) \<Rightarrow> (Inl e, w1))"

definition bPutIf :: "key \<Rightarrow> content \<Rightarrow> etag \<Rightarrow> world \<Rightarrow> (err + etag) \<times> world" where
  "bPutIf key c ifMatch w =
     (case tick w of
        (Refused e, w1) \<Rightarrow> (Inl e, w1)
      | (Fine, w1) \<Rightarrow>
          (case localPutIf (wObjs w1) key c ifMatch of (r, s) \<Rightarrow> (r, w1\<lparr>wObjs := s\<rparr>))
      | (Landed e, w1) \<Rightarrow>
          (case localPutIf (wObjs w1) key c ifMatch of
             (Inl e', s) \<Rightarrow> (Inl e', w1)
           | (Inr _, s) \<Rightarrow> (Inl e, w1\<lparr>wObjs := s\<rparr>)))"

definition bDelete :: "key \<Rightarrow> world \<Rightarrow> err option \<times> world" where
  "bDelete key w =
     (case tick w of
        (Refused e, w1) \<Rightarrow> (Some e, w1)
      | (Fine, w1) \<Rightarrow> (case localDelete (wObjs w1) key of (r, s) \<Rightarrow> (r, w1\<lparr>wObjs := s\<rparr>))
      | (Landed e, w1) \<Rightarrow> (Some e, w1\<lparr>wObjs := snd (localDelete (wObjs w1) key)\<rparr>))"

definition bDeleteIf :: "key \<Rightarrow> etag \<Rightarrow> world \<Rightarrow> err option \<times> world" where
  "bDeleteIf key ifMatch w =
     (case tick w of
        (Refused e, w1) \<Rightarrow> (Some e, w1)
      | (Fine, w1) \<Rightarrow> (case localDeleteIf (wObjs w1) key ifMatch of (r, s) \<Rightarrow> (r, w1\<lparr>wObjs := s\<rparr>))
      | (Landed e, w1) \<Rightarrow>
          (case localDeleteIf (wObjs w1) key ifMatch of
             (Some e', s) \<Rightarrow> (Some e', w1)
           | (None, s) \<Rightarrow> (Some e, w1\<lparr>wObjs := s\<rparr>)))"

definition bCopyObject :: "key \<Rightarrow> key \<Rightarrow> world \<Rightarrow> err option \<times> world" where
  "bCopyObject dst src w =
     (case tick w of
        (Refused e, w1) \<Rightarrow> (Some e, w1)
      | (Fine, w1) \<Rightarrow> (case localCopyObject (wObjs w1) dst src of (r, s) \<Rightarrow> (r, w1\<lparr>wObjs := s\<rparr>))
      | (Landed e, w1) \<Rightarrow> (Some e, w1\<lparr>wObjs := snd (localCopyObject (wObjs w1) dst src)\<rparr>))"

text \<open>A world in which nothing more happens behind the client's back.\<close>

definition quiet :: "world \<Rightarrow> bool" where
  "quiet w \<longleftrightarrow> wScript w = []"

text \<open>Writers that all compare against the same etag, in the order their writes arrive.\<close>

fun race :: "('s \<Rightarrow> key \<Rightarrow> content \<Rightarrow> etag \<Rightarrow> (err + etag) \<times> 's) \<Rightarrow> key \<Rightarrow> etag \<Rightarrow> content list \<Rightarrow> 's \<Rightarrow>
    (err + etag) list \<times> 's" where
  "race putIf k t [] s = ([], s)"
| "race putIf k t (c # cs) s =
     (case putIf s k c t of (r, s1) \<Rightarrow> (case race putIf k t cs s1 of (rs, s2) \<Rightarrow> (r # rs, s2)))"

section \<open>The contract of a conditional-write backend\<close>

definition missing :: "('s \<Rightarrow> key \<Rightarrow> err + content \<times> etag) \<Rightarrow> 's \<Rightarrow> key \<Rightarrow> bool" where
  "missing get s k \<longleftrightarrow> (case get s k of Inl e \<Rightarrow> errors_is e ErrNotFound | Inr _ \<Rightarrow> False)"

locale cas_backend =
  fixes get :: "'s \<Rightarrow> key \<Rightarrow> err + content \<times> etag"
    and putIf :: "'s \<Rightarrow> key \<Rightarrow> content \<Rightarrow> etag \<Rightarrow> (err + etag) \<times> 's"
    and delete :: "'s \<Rightarrow> key \<Rightarrow> err option \<times> 's"
  assumes get_etag: "get s k = Inr (c, t) \<Longrightarrow> t = ETagOf c"
    and put_creates: "missing get s k \<Longrightarrow>
      \<exists>s'. putIf s k c NoETag = (Inr (ETagOf c), s') \<and> get s' k = Inr (c, ETagOf c) \<and>
           (\<forall>k'. k' \<noteq> k \<longrightarrow> get s' k' = get s k')"
    and put_swaps: "get s k = Inr (c0, t) \<Longrightarrow>
      \<exists>s'. putIf s k c t = (Inr (ETagOf c), s') \<and> get s' k = Inr (c, ETagOf c) \<and>
           (\<forall>k'. k' \<noteq> k \<longrightarrow> get s' k' = get s k')"
    and put_refuses: "get s k = Inr (c0, t0) \<Longrightarrow> t \<noteq> t0 \<Longrightarrow>
      \<exists>e. putIf s k c t = (Inl e, s) \<and> errors_is e ErrCAS"
    and delete_gone: "get s k = Inr (c, t) \<Longrightarrow>
      \<exists>s'. delete s k = (None, s') \<and> missing get s' k \<and> (\<forall>k'. k' \<noteq> k \<longrightarrow> get s' k' = get s k')"
begin

lemma probe_passes:
  assumes "missing get s (''probe/cas-'' @ rnd)"
  shows "\<exists>s'. ProbeCAS get putIf delete rnd s = (None, s') \<and>
    missing get s' (''probe/cas-'' @ rnd) \<and> (\<forall>k'. k' \<noteq> ''probe/cas-'' @ rnd \<longrightarrow> get s' k' = get s k')"
proof -
  define k where "k = ''probe/cas-'' @ rnd"
  let ?a = "CRaw ''offshoot-probe-1''" and ?b = "CRaw ''offshoot-probe-2''"
  obtain s1 where s1: "putIf s k ?a NoETag = (Inr (ETagOf ?a), s1)" "get s1 k = Inr (?a, ETagOf ?a)"
    "\<forall>k'. k' \<noteq> k \<longrightarrow> get s1 k' = get s k'"
    using put_creates assms unfolding k_def by blast
  obtain e1 where e1: "putIf s1 k ?b NoETag = (Inl e1, s1)" "errors_is e1 ErrCAS"
    using put_refuses [OF s1(2), of NoETag] by blast
  obtain e2 where e2: "putIf s1 k ?b (ETagText ''offshoot-probe-not-a-real-etag'') = (Inl e2, s1)" "errors_is e2 ErrCAS"
    using put_refuses [OF s1(2), of "ETagText ''offshoot-probe-not-a-real-etag''"] by blast
  obtain s2 where s2: "putIf s1 k ?b (ETagOf ?a) = (Inr (ETagOf ?b), s2)" "get s2 k = Inr (?b, ETagOf ?b)"
    "\<forall>k'. k' \<noteq> k \<longrightarrow> get s2 k' = get s1 k'"
    using put_swaps [OF s1(2)] by blast
  obtain s3 where s3: "delete s2 k = (None, s3)" "missing get s3 k" "\<forall>k'. k' \<noteq> k \<longrightarrow> get s3 k' = get s2 k'"
    using delete_gone [OF s2(2)] by blast
  have "probeChecks get putIf k ?a ?b (ETagOf ?a) s1 = (None, s2)"
    unfolding probeChecks_def probeContentIs_def by (simp add: e1 e2 s1(2) s2)
  then have "ProbeCAS get putIf delete rnd s = (None, s3)"
    unfolding ProbeCAS_def Let_def k_def [symmetric] by (simp add: s1 s3)
  then show ?thesis using s1(3) s2(3) s3 unfolding k_def [symmetric] by metis
qed

lemma race_losers:
  assumes "get s k = Inr (c0, t0)" "t \<noteq> t0"
  shows "\<exists>rs. race putIf k t cs s = (rs, s) \<and> length rs = length cs \<and>
    list_all (\<lambda>r. \<exists>e. r = Inl e \<and> errors_is e ErrCAS) rs"
proof (induction cs)
  case (Cons c cs)
  obtain e where "putIf s k c t = (Inl e, s)" "errors_is e ErrCAS"
    using put_refuses [OF assms] by blast
  with Cons show ?case by auto
qed simp

lemma race_one_winner:
  assumes "get s k = Inr (c0, t)" "c \<noteq> c0"
  shows "\<exists>rs s'. race putIf k t (c # cs) s = (Inr (ETagOf c) # rs, s') \<and> get s' k = Inr (c, ETagOf c) \<and>
    length rs = length cs \<and> list_all (\<lambda>r. \<exists>e. r = Inl e \<and> errors_is e ErrCAS) rs"
proof -
  obtain s1 where s1: "putIf s k c t = (Inr (ETagOf c), s1)" "get s1 k = Inr (c, ETagOf c)"
    using put_swaps [OF assms(1)] by blast
  have "t \<noteq> ETagOf c" using get_etag [OF assms(1)] assms(2) by simp
  then obtain rs where "race putIf k t cs s1 = (rs, s1)" "length rs = length cs"
    "list_all (\<lambda>r. \<exists>e. r = Inl e \<and> errors_is e ErrCAS) rs"
    using race_losers [OF s1(2)] by blast
  then show ?thesis using s1 by simp
qed

end

section \<open>The local backend keeps the contract\<close>

lemmas local_defs = localGet_def localPutIf_def localDelete_def localDeleteIf_def etagOf_def
  errNotFound_def errCAS_def missing_def

interpretation lb: cas_backend localGet localPutIf localDelete
proof (unfold_locales, goal_cases)
  case (1 s k c t)
  then show ?case by (auto simp: local_defs split: option.splits)
next
  case (2 s k c)
  then show ?case by (auto simp: local_defs plain_err_def localPath_def split: option.splits if_splits)
next
  case (3 s k c0 t c)
  then show ?case by (auto simp: local_defs split: option.splits)
next
  case (4 s k c0 t0 t c)
  then show ?case by (auto simp: local_defs split: option.splits)
next
  case (5 s k c t)
  then show ?case by (auto simp: local_defs split: option.splits)
qed

lemma localList_set: "set (localList s p) = {k \<in> fst ` set s. \<not> listHidden k \<and> hasPrefix k p}"
  by (auto simp: localList_def)

lemma localList_sorted [simp]: "sorted (localList s p)"
  by (simp add: localList_def)

lemma localList_distinct: "msorted s \<Longrightarrow> distinct (localList s p)"
  by (simp add: localList_def msorted_distinct)

lemma localPutIf_sorted: "localPutIf s k c t = (r, s') \<Longrightarrow> msorted s \<Longrightarrow> msorted s'"
  by (auto simp: localPutIf_def split: option.splits if_splits)

section \<open>Calls on a shared store\<close>

lemma tick_quiet [simp]: "quiet w \<Longrightarrow> tick w = (Fine, w)"
  by (simp add: quiet_def tick.simps)

lemma quiet_update [simp]: "quiet (w\<lparr>wObjs := s\<rparr>) = quiet w"
  by (simp add: quiet_def)

lemma tick_script: "tick w = (x, w') \<Longrightarrow> length (wScript w') = length (wScript w) - 1"
  by (auto simp: tick.simps split: list.splits event.splits)

lemma bGet_Inr:
  assumes "bGet k w = (Inr (c, t), w')"
  shows "map_of (wObjs w') k = Some c \<and> t = ETagOf c \<and> w' = snd (tick w)"
  using assms by (auto simp: bGet_def local_defs split: prod.splits fault.splits option.splits)

lemma bGet_world: "snd (bGet k w) = snd (tick w)"
  by (auto simp: bGet_def split: prod.splits fault.splits)

lemma bList_world: "snd (bList k w) = snd (tick w)"
  by (auto simp: bList_def split: prod.splits fault.splits)

text \<open>A conditional write that reports success replaced exactly the content it compared
  against, in the store as the other writers had left it.\<close>

lemma bPutIf_Inr:
  assumes "bPutIf k c m w = (Inr t, w')"
  shows "t = ETagOf c \<and> w' = (snd (tick w))\<lparr>wObjs := mput k c (wObjs (snd (tick w)))\<rparr> \<and>
    (case map_of (wObjs (snd (tick w))) k of None \<Rightarrow> m = NoETag | Some cur \<Rightarrow> m = ETagOf cur)"
  using assms
  by (auto simp: bPutIf_def localPutIf_def etagOf_def split: prod.splits fault.splits option.splits if_splits sum.splits)

text \<open>A conditional write that reports failure either changed nothing or landed.\<close>

lemma bPutIf_Inl:
  assumes "bPutIf k c m w = (Inl e, w')"
  shows "w' = snd (tick w) \<or>
    (w' = (snd (tick w))\<lparr>wObjs := mput k c (wObjs (snd (tick w)))\<rparr> \<and> fst (tick w) = Landed e \<and>
     (case map_of (wObjs (snd (tick w))) k of None \<Rightarrow> m = NoETag | Some cur \<Rightarrow> m = ETagOf cur))"
  using assms
  by (auto simp: bPutIf_def localPutIf_def etagOf_def split: prod.splits fault.splits option.splits if_splits sum.splits)

section \<open>Properties\<close>

text \<open>The local backend passes the probe a store is refused without: on a store where the probe's
  random key is free, \<^verbatim>\<open>ProbeCAS\<close> accepts it, removes its key again and changes no other object.\<close>

theorem ProbeCAS_accepts_local:
  assumes "missing localGet s (''probe/cas-'' @ rnd)"
  shows "\<exists>s'. ProbeCAS localGet localPutIf localDelete rnd s = (None, s') \<and>
    missing localGet s' (''probe/cas-'' @ rnd) \<and>
    (\<forall>k. k \<noteq> ''probe/cas-'' @ rnd \<longrightarrow> localGet s' k = localGet s k)"
  by (rule lb.probe_passes [OF assms])

theorem ProbeCAS_accepts_local_witness:
  "\<exists>s'. ProbeCAS localGet localPutIf localDelete ''0a1b2c3d4e5f6071'' [(''refs/app/main'', CRaw ''x'')] = (None, s') \<and>
     localGet s' ''refs/app/main'' = Inr (CRaw ''x'', ETagOf (CRaw ''x''))"
proof -
  let ?s = "[(''refs/app/main'', CRaw ''x'')] :: objs"
  have m: "missing localGet ?s (''probe/cas-'' @ ''0a1b2c3d4e5f6071'')" by code_simp
  have k: "(''refs/app/main'' :: string) \<noteq> ''probe/cas-'' @ ''0a1b2c3d4e5f6071''" by simp
  have g: "localGet ?s ''refs/app/main'' = Inr (CRaw ''x'', ETagOf (CRaw ''x''))" by code_simp
  show ?thesis using ProbeCAS_accepts_local [OF m] k g by metis
qed

text \<open>Compare-and-swap has one winner. However many writers race on a key with the etag they all
  read, the first to arrive succeeds and every later one is refused with \<^verbatim>\<open>ErrCAS\<close>; the object holds
  the winner's content.\<close>

theorem local_cas_one_winner:
  assumes "localGet s k = Inr (c0, t)" "c \<noteq> c0"
  shows "\<exists>rs s'. race localPutIf k t (c # cs) s = (Inr (ETagOf c) # rs, s') \<and>
    localGet s' k = Inr (c, ETagOf c) \<and> length rs = length cs \<and>
    list_all (\<lambda>r. \<exists>e. r = Inl e \<and> errors_is e ErrCAS) rs"
  by (rule lb.race_one_winner [OF assms])

theorem local_cas_one_winner_witness:
  "\<exists>e s'. race localPutIf ''k'' (ETagOf (CRaw ''old'')) [CRaw ''a'', CRaw ''b''] [(''k'', CRaw ''old'')] =
       ([Inr (ETagOf (CRaw ''a'')), Inl e], s') \<and> localGet s' ''k'' = Inr (CRaw ''a'', ETagOf (CRaw ''a''))"
proof -
  have g: "localGet [(''k'', CRaw ''old'')] ''k'' = Inr (CRaw ''old'', ETagOf (CRaw ''old''))" by code_simp
  show ?thesis
    using local_cas_one_winner [OF g, of "CRaw ''a''" "[CRaw ''b'']"] by (auto simp: length_Suc_conv)
qed

end
