(* ===== verification/Chain.thy ===== *)
theory Chain
  imports Backend "HOL-Library.Product_Lexorder"
begin

text \<open>
  Chain resolution (\<^verbatim>\<open>internal/store/store.go\<close>): which snapshot and segments materialize a
  lineage at a transaction, across copy-on-write bases.  A resolution reads the store through
  a view: its objects at one instant and the reads that fail.  The base recursion and the two
  spine walks are total functions; their termination proof is that every hop adds a new
  lineage to \<^verbatim>\<open>seen\<close> and the store has finitely many base objects.
\<close>

record view =
  vObjs :: objs
  vFail :: "key \<Rightarrow> err option"

definition viewOf :: "objs \<Rightarrow> view" where
  "viewOf s = \<lparr>vObjs = s, vFail = (\<lambda>_. None)\<rparr>"

definition viewGet :: "view \<Rightarrow> key \<Rightarrow> err + content \<times> etag" where
  "viewGet v k = (case vFail v k of Some e \<Rightarrow> Inl e | None \<Rightarrow> localGet (vObjs v) k)"

definition viewList :: "view \<Rightarrow> string \<Rightarrow> err + key list" where
  "viewList v p = (case vFail v p of Some e \<Rightarrow> Inl e | None \<Rightarrow> Inr (localList (vObjs v) p))"

section \<open>Base pointers\<close>

definition lineageBase :: "view \<Rightarrow> string \<Rightarrow> err + basePointer option" where
  "lineageBase v lineage =
     (case viewGet v (BaseKey lineage) of
        Inl e \<Rightarrow> if errors_is e ErrNotFound then Inr None else Inl e
      | Inr (data, _) \<Rightarrow>
          (case data of
             CBase b \<Rightarrow> Inr (Some b)
           | _ \<Rightarrow> Inl (plain_err ''store: base: cannot unmarshal'')))"

text \<open>The lineages whose base object the view can read, for the termination measures.\<close>

definition basedIn :: "view \<Rightarrow> string set" where
  "basedIn v = {l. BaseKey l \<in> fst ` set (vObjs v)}"

lemma finite_basedIn [simp]: "finite (basedIn v)"
proof (rule finite_imageD)
  have "BaseKey ` basedIn v \<subseteq> fst ` set (vObjs v)" by (auto simp: basedIn_def)
  then show "finite (BaseKey ` basedIn v)" by (rule finite_subset) simp
  show "inj_on BaseKey (basedIn v)" by (auto intro: inj_onI)
qed

lemma lineageBase_based: "lineageBase v l = Inr (Some b) \<Longrightarrow> l \<in> basedIn v"
  by (auto simp: lineageBase_def viewGet_def localGet_def basedIn_def split: option.splits sum.splits
      content.splits if_splits dest!: map_of_SomeD intro: rev_image_eqI)

definition hopMeasure :: "(view \<times> string \<times> string list) \<Rightarrow> nat" where
  "hopMeasure = (\<lambda>(v, l, seen). 2 * card (basedIn v - set seen) + (if l \<in> basedIn v then 1 else 0))"

lemma hopMeasure_less:
  assumes "lineageBase v l = Inr (Some b)" "bpLineage b \<notin> set seen"
  shows "hopMeasure (v, bpLineage b, bpLineage b # seen) < hopMeasure (v, l, seen)"
proof (cases "bpLineage b \<in> basedIn v")
  case True
  have "basedIn v - set (bpLineage b # seen) \<subset> basedIn v - set seen"
    using True assms(2) by auto
  then have "card (basedIn v - set (bpLineage b # seen)) < card (basedIn v - set seen)"
    by (intro psubset_card_mono) auto
  then show ?thesis using assms(1) lineageBase_based by (simp add: hopMeasure_def)
next
  case False
  then have "basedIn v - set (bpLineage b # seen) = basedIn v - set seen" by auto
  then show ?thesis using False lineageBase_based [OF assms(1)] by (simp add: hopMeasure_def)
qed

function baseSpineFrom :: "view \<Rightarrow> string \<Rightarrow> string list \<Rightarrow> err + string list" where
  "baseSpineFrom v cur seen =
     (case lineageBase v cur of
        Inl e \<Rightarrow> Inl e
      | Inr None \<Rightarrow> Inr []
      | Inr (Some b) \<Rightarrow>
          if bpLineage b \<in> set seen then Inl (plain_err ''store: base spine revisits lineage (cycle)'')
          else map_sum id (Cons (bpLineage b)) (baseSpineFrom v (bpLineage b) (bpLineage b # seen)))"
  by pat_completeness auto
termination
  by (relation "measure hopMeasure") (simp_all add: hopMeasure_less)

definition BaseSpine :: "view \<Rightarrow> string \<Rightarrow> err + string list" where
  "BaseSpine v lineage = baseSpineFrom v lineage [lineage]"

function collapseFrom :: "view \<Rightarrow> u64 \<Rightarrow> string \<Rightarrow> string list \<Rightarrow> err + string" where
  "collapseFrom v txid cur seen =
     (case lineageBase v cur of
        Inl e \<Rightarrow> Inl e
      | Inr None \<Rightarrow> Inr cur
      | Inr (Some b) \<Rightarrow>
          if txid > bpTXID b then Inr cur
          else if bpLineage b \<in> set seen then Inl (plain_err ''store: base spine revisits lineage (cycle)'')
          else collapseFrom v txid (bpLineage b) (bpLineage b # seen))"
  by pat_completeness auto
termination
  by (relation "measure (\<lambda>(v, t, l, seen). hopMeasure (v, l, seen))")
     (simp_all add: hopMeasure_less)

definition CollapseBase :: "view \<Rightarrow> string \<Rightarrow> u64 \<Rightarrow> err + string" where
  "CollapseBase v lineage txid = collapseFrom v txid lineage [lineage]"

section \<open>The members of one lineage\<close>

definition moreLive :: "chainMember \<Rightarrow> chainMember \<Rightarrow> bool" where
  "moreLive a b =
     (if cmEpoch a \<noteq> cmEpoch b then cmEpoch a > cmEpoch b
      else cmSnapshot a \<and> \<not> cmSnapshot b)"

text \<open>Members \<^verbatim>\<open>keepHighestEpoch\<close> keys on \<^verbatim>\<open>MaxTXID\<close> alone.\<close>

definition collapsible :: "chainMember \<Rightarrow> bool" where
  "collapsible m \<longleftrightarrow> cmSnapshot m \<or> cmMin m = cmMax m"

type_synonym buckets = "(u64 \<times> chainMember) list \<times> ((u64 \<times> u64) \<times> chainMember) list"

definition kheStep :: "chainMember \<Rightarrow> buckets \<Rightarrow> buckets" where
  "kheStep m = (\<lambda>(byTXID, byRange).
     if collapsible m then
       (case map_of byTXID (cmMax m) of
          Some cur \<Rightarrow> if moreLive m cur then (mput (cmMax m) m byTXID, byRange) else (byTXID, byRange)
        | None \<Rightarrow> (mput (cmMax m) m byTXID, byRange))
     else
       (let k = (cmMin m, cmMax m) in
        case map_of byRange k of
          Some cur \<Rightarrow> if cmEpoch m > cmEpoch cur then (byTXID, mput k m byRange) else (byTXID, byRange)
        | None \<Rightarrow> (byTXID, mput k m byRange)))"

definition keepHighestEpoch :: "chainMember list \<Rightarrow> chainMember list" where
  "keepHighestEpoch members =
     (case fold kheStep members ([], []) of
        (byTXID, byRange) \<Rightarrow> map snd byTXID @ map snd byRange)"

text \<open>Snapshots by transaction, segments by last and then first transaction.\<close>

definition splitMembers :: "chainMember list \<Rightarrow> chainMember list \<times> chainMember list" where
  "splitMembers members =
     (sort_key cmMax (filter cmSnapshot members),
      sort_key (\<lambda>m. (cmMax m, cmMin m)) (filter (\<lambda>m. \<not> cmSnapshot m) members))"

definition listMembers :: "view \<Rightarrow> string \<Rightarrow> err + chainMember list \<times> chainMember list" where
  "listMembers v lineage =
     (case viewList v (LineagePrefix lineage) of
        Inl e \<Rightarrow> Inl e
      | Inr keys \<Rightarrow> Inr (splitMembers (keepHighestEpoch (List.map_filter ParseMemberKey keys))))"

section \<open>Resolution\<close>

fun selfWalk :: "u64 \<Rightarrow> u64 \<Rightarrow> chainMember list \<Rightarrow> err + chainMember list" where
  "selfWalk target prevMax [] = Inl (plain_err ''store: chain: no contiguous run reaches target'')"
| "selfWalk target prevMax (seg # segs) =
     (if cmMax seg \<le> prevMax then selfWalk target prevMax segs
      else if cmMin seg \<noteq> prevMax + 1 then Inl (plain_err ''store: chain: hole before segment'')
      else if cmMax seg = target then Inr [seg]
      else if cmMax seg > target then Inl (plain_err ''store: chain: no contiguous run reaches target'')
      else map_sum id (Cons seg) (selfWalk target (cmMax seg) segs))"

definition resolveSelf :: "u64 \<Rightarrow> chainMember list \<Rightarrow> chainMember list \<Rightarrow> err + chainMember list" where
  "resolveSelf target snapshots segments =
     (case List.find (\<lambda>m. cmMax m \<le> target) (rev snapshots) of
        None \<Rightarrow> Inl (Err ''store: chain: no snapshot covers target'' [ErrNoSnapshotCoversTarget])
      | Some base \<Rightarrow>
          if cmMax base = target then Inr [base]
          else map_sum id (Cons base) (selfWalk target (cmMax base) segments))"

fun rangeWalk :: "u64 \<Rightarrow> u64 \<Rightarrow> u64 \<Rightarrow> chainMember list \<Rightarrow> err + chainMember list" where
  "rangeWalk lo hi prevMax [] = Inl (plain_err ''store: segments: no contiguous run reaches target'')"
| "rangeWalk lo hi prevMax (seg # segs) =
     (if cmMax seg \<le> lo then rangeWalk lo hi prevMax segs
      else if cmMin seg \<noteq> prevMax + 1 then Inl (plain_err ''store: segments: hole before segment'')
      else if cmMax seg = hi then Inr [seg]
      else if cmMax seg > hi then Inl (plain_err ''store: segments: no contiguous run reaches target'')
      else map_sum id (Cons seg) (rangeWalk lo hi (cmMax seg) segs))"

definition resolveRange :: "u64 \<Rightarrow> u64 \<Rightarrow> chainMember list \<Rightarrow> err + chainMember list" where
  "resolveRange lo hi segments = rangeWalk lo hi lo segments"

definition chainSelf :: "view \<Rightarrow> string \<Rightarrow> u64 \<Rightarrow> err + chainMember list" where
  "chainSelf v lineage target =
     (case listMembers v lineage of
        Inl e \<Rightarrow> Inl e
      | Inr (snapshots, segments) \<Rightarrow> resolveSelf target snapshots segments)"

function chainFrom :: "view \<Rightarrow> string \<Rightarrow> u64 \<Rightarrow> string list \<Rightarrow> err + chainMember list" where
  "chainFrom v lineage target seen =
     (case lineageBase v lineage of
        Inl e \<Rightarrow> Inl e
      | Inr None \<Rightarrow> chainSelf v lineage target
      | Inr (Some base) \<Rightarrow>
          if bpLineage base \<in> set seen then Inl (plain_err ''store: chain: base pointer cycle detected'')
          else if target \<le> bpTXID base then chainFrom v (bpLineage base) target (bpLineage base # seen)
          else (case listMembers v lineage of
            Inl e \<Rightarrow> Inl e
          | Inr (snapshots, segments) \<Rightarrow>
              (case resolveSelf target snapshots segments of
                 Inr selfChain \<Rightarrow> Inr selfChain
               | Inl selfErr \<Rightarrow>
                   if \<not> errors_is selfErr ErrNoSnapshotCoversTarget then Inl selfErr
                   else (case chainFrom v (bpLineage base) (bpTXID base) (bpLineage base # seen) of
                     Inl e \<Rightarrow> Inl (wrap_err ''store: chain: resolving base'' e)
                   | Inr parentChain \<Rightarrow>
                       (case resolveRange (bpTXID base) target segments of
                          Inl e \<Rightarrow> Inl (wrap_err ''store: chain'' e)
                        | Inr childSegs \<Rightarrow>
                            if parentChain = [] \<or> cmMax (last parentChain) \<noteq> bpTXID base
                            then Inl (plain_err ''store: chain: base seam broken'')
                            else Inr (parentChain @ childSegs))))))"
  by pat_completeness auto
termination
  by (relation "measure (\<lambda>(v, l, t, seen). hopMeasure (v, l, seen))")
     (simp_all add: hopMeasure_less)

declare baseSpineFrom.simps [simp del] collapseFrom.simps [simp del] chainFrom.simps [simp del]

definition Chain :: "view \<Rightarrow> string \<Rightarrow> u64 \<Rightarrow> err + chainMember list" where
  "Chain v lineage target = chainFrom v lineage target [lineage]"

section \<open>What the epoch collapse keeps\<close>

text \<open>Two members of a lineage compete when they are in the same bucket; the winner is the
  first of highest rank: the epoch, and a snapshot before a segment.\<close>

definition sameBucket :: "chainMember \<Rightarrow> chainMember \<Rightarrow> bool" where
  "sameBucket x y \<longleftrightarrow> collapsible x = collapsible y \<and> cmMax x = cmMax y \<and>
     (\<not> collapsible x \<longrightarrow> cmMin x = cmMin y)"

definition rank :: "chainMember \<Rightarrow> u64 \<times> bool" where
  "rank m = (cmEpoch m, cmSnapshot m)"

definition firstMax :: "('a \<Rightarrow> 'b::linorder) \<Rightarrow> 'a list \<Rightarrow> 'a option" where
  "firstMax f xs = List.find (\<lambda>x. \<forall>y \<in> set xs. f y \<le> f x) xs"

lemma moreLive_rank: "moreLive a b \<longleftrightarrow> rank b < rank a"
  by (auto simp: moreLive_def rank_def less_prod_def)

lemma find_append: "List.find P (xs @ ys) = (case List.find P xs of None \<Rightarrow> List.find P ys | Some x \<Rightarrow> Some x)"
  by (induction xs) auto

lemma firstMax_Some:
  assumes "firstMax f xs = Some m"
  shows "m \<in> set xs" "\<forall>y \<in> set xs. f y \<le> f m"
  using assms by (auto simp: firstMax_def find_Some_iff)

lemma firstMax_Nil [simp]: "firstMax f [] = None"
  by (simp add: firstMax_def)

lemma firstMax_snoc:
  "firstMax f (xs @ [x]) =
     (case firstMax f xs of None \<Rightarrow> Some x | Some c \<Rightarrow> if f c < f x then Some x else Some c)"
proof (cases "firstMax f xs")
  case None
  have "xs = []"
  proof (rule ccontr)
    assume "xs \<noteq> []"
    then have "Max (f ` set xs) \<in> f ` set xs" by (intro Max_in) auto
    then obtain m where "m \<in> set xs" "f m = Max (f ` set xs)" by auto
    then have "m \<in> set xs" "\<forall>y \<in> set xs. f y \<le> f m" by auto
    then show False using None by (auto simp: firstMax_def find_None_iff)
  qed
  then show ?thesis by (simp add: firstMax_def)
next
  case (Some c)
  show ?thesis
  proof (cases "f c < f x")
    case True
    then have "\<forall>y \<in> set xs. f y < f x"
      using firstMax_Some(2) [OF Some] le_less_trans by blast
    then have "List.find (\<lambda>x'. \<forall>y \<in> set (xs @ [x]). f y \<le> f x') xs = None"
      by (auto simp: find_None_iff not_le)
    with True Some show ?thesis
      unfolding firstMax_def find_append by (auto simp: less_imp_le \<open>\<forall>y \<in> set xs. f y < f x\<close>)
  next
    case False
    have "(\<forall>y \<in> set (xs @ [x]). f y \<le> f x') \<longleftrightarrow> (\<forall>y \<in> set xs. f y \<le> f x')" if "x' \<in> set xs" for x'
      using False firstMax_Some [OF Some] that by (auto simp: not_less dest: order_trans)
    then have "List.find (\<lambda>x'. \<forall>y \<in> set (xs @ [x]). f y \<le> f x') xs = firstMax f xs"
      unfolding firstMax_def by (intro find_cong) auto
    with False Some show ?thesis unfolding firstMax_def find_append by simp
  qed
qed

lemma firstMax_insert_dominated:
  assumes "z \<in> set (xs @ ys)" "f x < f z"
  shows "firstMax f (xs @ x # ys) = firstMax f (xs @ ys)"
proof -
  let ?P = "\<lambda>x'. \<forall>y \<in> set (xs @ x # ys). f y \<le> f x'" and ?Q = "\<lambda>x'. \<forall>y \<in> set (xs @ ys). f y \<le> f x'"
  have eq: "?P x' = ?Q x'" for x'
    using assms by (auto dest: less_imp_le order_trans)
  have "\<not> ?Q x" using assms by (auto simp: not_le)
  then have "List.find ?Q (x # ys) = List.find ?Q ys" by (simp only: find.simps if_False)
  then show ?thesis unfolding firstMax_def eq find_append by (simp only:)
qed

definition bucketKey :: "chainMember \<Rightarrow> u64 \<times> u64" where
  "bucketKey m = (cmMin m, cmMax m)"

lemma kheStep_fst:
  "map_of (fst (kheStep m (a, b))) t =
     (if collapsible m \<and> cmMax m = t
      then (case map_of a t of None \<Rightarrow> Some m | Some c \<Rightarrow> if rank c < rank m then Some m else Some c)
      else map_of a t)"
  by (auto simp: kheStep_def Let_def moreLive_rank split: option.splits)

lemma kheStep_snd:
  assumes "\<forall>c. map_of b (bucketKey m) = Some c \<longrightarrow> \<not> collapsible c"
  shows "map_of (snd (kheStep m (a, b))) k =
     (if \<not> collapsible m \<and> bucketKey m = k
      then (case map_of b k of None \<Rightarrow> Some m | Some c \<Rightarrow> if rank c < rank m then Some m else Some c)
      else map_of b k)"
proof -
  have "cmEpoch m > cmEpoch c \<longleftrightarrow> rank c < rank m"
    if "\<not> collapsible m" "map_of b (bucketKey m) = Some c" for c
    using that assms by (auto simp: rank_def less_prod_def collapsible_def)
  then show ?thesis
    by (auto simp: kheStep_def Let_def bucketKey_def split: option.splits)
qed

lemma kheStep_sorted:
  "msorted a \<Longrightarrow> msorted (fst (kheStep m (a, b)))" "msorted b \<Longrightarrow> msorted (snd (kheStep m (a, b)))"
  by (auto simp: kheStep_def Let_def split: option.splits)

definition bucketsOk :: "chainMember list \<Rightarrow> buckets \<Rightarrow> bool" where
  "bucketsOk ms = (\<lambda>(a, b). msorted a \<and> msorted b \<and>
     (\<forall>t. map_of a t = firstMax rank (filter (\<lambda>m. collapsible m \<and> cmMax m = t) ms)) \<and>
     (\<forall>k. map_of b k = firstMax rank (filter (\<lambda>m. \<not> collapsible m \<and> bucketKey m = k) ms)))"

lemma bucketsOk_lookup:
  assumes "bucketsOk ms (a, b)"
  shows "msorted a" "msorted b"
    "map_of a t = firstMax rank (filter (\<lambda>m. collapsible m \<and> cmMax m = t) ms)"
    "map_of b k = firstMax rank (filter (\<lambda>m. \<not> collapsible m \<and> bucketKey m = k) ms)"
  using assms unfolding bucketsOk_def case_prod_conv by blast+

lemma bucketsOk_shape:
  assumes "bucketsOk ms (a, b)"
  shows "map_of a t = Some v \<Longrightarrow> collapsible v \<and> cmMax v = t"
    "map_of b k = Some v \<Longrightarrow> \<not> collapsible v \<and> bucketKey v = k"
  using firstMax_Some(1) by (fastforce simp: bucketsOk_lookup [OF assms])+

lemma bucketsOk_fold: "bucketsOk ms (fold kheStep ms ([], []))"
proof (induction ms rule: rev_induct)
  case Nil
  show ?case by (simp add: bucketsOk_def)
next
  case (snoc m ms)
  obtain a b where ab: "fold kheStep ms ([], []) = (a, b)" by (cases "fold kheStep ms ([], [])")
  with snoc.IH have ok: "bucketsOk ms (a, b)" by simp
  then have nc: "\<forall>c. map_of b (bucketKey m) = Some c \<longrightarrow> \<not> collapsible c"
    using bucketsOk_shape(2) by blast
  obtain a' b' where ab': "kheStep m (a, b) = (a', b')" by (cases "kheStep m (a, b)")
  have srt: "msorted a'" "msorted b'"
    using kheStep_sorted(1) [OF bucketsOk_lookup(1) [OF ok], of m b]
      kheStep_sorted(2) [OF bucketsOk_lookup(2) [OF ok], of m a] ab' by simp_all
  have A: "map_of a' t = firstMax rank (filter (\<lambda>m. collapsible m \<and> cmMax m = t) (ms @ [m]))" for t
    using kheStep_fst [of m a b t] ab' by (simp add: bucketsOk_lookup(3) [OF ok] firstMax_snoc)
  have B: "map_of b' k = firstMax rank (filter (\<lambda>m. \<not> collapsible m \<and> bucketKey m = k) (ms @ [m]))" for k
    using kheStep_snd [OF nc, of a k] ab' by (simp add: bucketsOk_lookup(4) [OF ok] firstMax_snoc)
  have "fold kheStep (ms @ [m]) ([], []) = (a', b')" using ab ab' by simp
  then show ?case unfolding bucketsOk_def using srt A B by simp
qed

lemma khe_buckets:
  obtains a b where "keepHighestEpoch ms = map snd a @ map snd b" "bucketsOk ms (a, b)"
  using bucketsOk_fold [of ms] unfolding keepHighestEpoch_def
  by (cases "fold kheStep ms ([], [])") auto

lemma khe_iff:
  "x \<in> set (keepHighestEpoch ms) \<longleftrightarrow> firstMax rank (filter (sameBucket x) ms) = Some x"
proof -
  obtain a b where ab: "keepHighestEpoch ms = map snd a @ map snd b" "bucketsOk ms (a, b)"
    by (rule khe_buckets)
  note look = bucketsOk_lookup [OF ab(2)] and shape = bucketsOk_shape [OF ab(2)]
  have "x \<in> set (keepHighestEpoch ms) \<longleftrightarrow> (\<exists>t. (t, x) \<in> set a) \<or> (\<exists>k. (k, x) \<in> set b)"
    unfolding ab(1) by force
  also have "\<dots> \<longleftrightarrow> (\<exists>t. map_of a t = Some x) \<or> (\<exists>k. map_of b k = Some x)"
    by (simp only: map_of_msorted [OF look(1)] map_of_msorted [OF look(2)])
  also have "\<dots> \<longleftrightarrow> (if collapsible x then map_of a (cmMax x) = Some x else map_of b (bucketKey x) = Some x)"
    using shape by (auto simp del: split_paired_Ex)
  also have "\<dots> \<longleftrightarrow> firstMax rank (filter (sameBucket x) ms) = Some x"
  proof (cases "collapsible x")
    case True
    then have "(\<lambda>m. collapsible m \<and> cmMax m = cmMax x) = sameBucket x" by (auto simp: sameBucket_def)
    then show ?thesis using True by (simp add: look(3))
  next
    case False
    then have "(\<lambda>m. \<not> collapsible m \<and> bucketKey m = bucketKey x) = sameBucket x"
      by (auto simp: sameBucket_def bucketKey_def)
    then show ?thesis using False by (simp add: look(4))
  qed
  finally show ?thesis .
qed

lemma khe_subset: "x \<in> set (keepHighestEpoch ms) \<Longrightarrow> x \<in> set ms"
  using firstMax_Some(1) by (fastforce simp: khe_iff)

lemma khe_unique:
  assumes "x \<in> set (keepHighestEpoch ms)" "y \<in> set (keepHighestEpoch ms)" "sameBucket x y"
  shows "x = y"
proof -
  have "sameBucket x = sameBucket y" using assms(3) by (auto simp: sameBucket_def fun_eq_iff)
  then show ?thesis using assms by (simp add: khe_iff)
qed

lemma khe_rank:
  assumes "x \<in> set (keepHighestEpoch ms)" "y \<in> set ms" "sameBucket x y"
  shows "rank y \<le> rank x"
  using assms firstMax_Some(2) by (fastforce simp: khe_iff)

lemma khe_distinct: "distinct (keepHighestEpoch ms)"
proof -
  obtain a b where ab: "keepHighestEpoch ms = map snd a @ map snd b" "bucketsOk ms (a, b)"
    by (rule khe_buckets)
  note look = bucketsOk_lookup [OF ab(2)] and shape = bucketsOk_shape [OF ab(2)]
  have a: "collapsible v \<and> cmMax v = k" if "(k, v) \<in> set a" for k v
    using that shape(1) by (simp add: map_of_msorted [OF look(1)])
  have b: "\<not> collapsible v \<and> bucketKey v = k" if "(k, v) \<in> set b" for k v
    using that shape(2) by (simp add: map_of_msorted [OF look(2)])
  have "map cmMax (map snd a) = map fst a" "map bucketKey (map snd b) = map fst b"
    using a b by auto
  then have "distinct (map cmMax (map snd a))" "distinct (map bucketKey (map snd b))"
    by (simp_all only: msorted_distinct [OF look(1)] msorted_distinct [OF look(2)])
  then have "distinct (map snd a)" "distinct (map snd b)"
    unfolding distinct_map by blast+
  moreover have "set (map snd a) \<inter> set (map snd b) = {}" using a b by fastforce
  ultimately show ?thesis using ab(1) by simp
qed

lemma khe_exists:
  assumes "y \<in> set ms"
  shows "\<exists>x \<in> set (keepHighestEpoch ms). sameBucket x y"
proof -
  have "filter (sameBucket y) ms \<noteq> []"
    using assms by (auto simp: filter_empty_conv sameBucket_def)
  then obtain zs z where "filter (sameBucket y) ms = zs @ [z]" by (metis rev_exhaust)
  then obtain x where x: "firstMax rank (filter (sameBucket y) ms) = Some x"
    by (cases "firstMax rank zs"; cases "rank (the (firstMax rank zs)) < rank z") (auto simp: firstMax_snoc)
  then have "sameBucket y x" using firstMax_Some(1) by fastforce
  then have eq: "sameBucket x = sameBucket y" "sameBucket x y" by (auto simp: sameBucket_def fun_eq_iff)
  have "x \<in> set (keepHighestEpoch ms)" unfolding khe_iff eq(1) by (rule x)
  then show ?thesis using eq(2) by blast
qed

section \<open>A worked store\<close>

text \<open>Two branches of one database: \<^verbatim>\<open>main\<close> on lineage \<^verbatim>\<open>l1\<close>, and \<^verbatim>\<open>work\<close> forked from it at
  transaction 2 onto lineage \<^verbatim>\<open>l2\<close>, with one segment of its own.\<close>

definition snap1 :: chainMember where
  "snap1 = \<lparr>cmKey = ''data/l1/1/snapshot-0000000000000001.ltx'', cmSnapshot = True, cmMin = 0, cmMax = 1, cmEpoch = 1\<rparr>"

definition seg2 :: chainMember where
  "seg2 = \<lparr>cmKey = ''data/l1/1/segment-0000000000000002-0000000000000002.ltx'', cmSnapshot = False,
           cmMin = 2, cmMax = 2, cmEpoch = 1\<rparr>"

definition seg3 :: chainMember where
  "seg3 = \<lparr>cmKey = ''data/l2/3/segment-0000000000000003-0000000000000003.ltx'', cmSnapshot = False,
           cmMin = 3, cmMax = 3, cmEpoch = 3\<rparr>"

definition sampleStore :: objs where
  "sampleStore =
     [(cmKey seg2, CRaw ''B''), (cmKey snap1, CRaw ''A''), (cmKey seg3, CRaw ''C''),
      (''data/l2/base.json'', CBase \<lparr>bpLineage = ''l1'', bpTXID = 2\<rparr>),
      (''refs/app/work'', marshalRef sampleRef)]"

lemma sampleStore_sorted: "msorted sampleStore"
  by code_simp

section \<open>Properties\<close>

text \<open>C33: The one-pass collapse of a lineage's members equals its specification: a member survives
  exactly when, among all members that establish state at the same transaction (or cover the same
  range), it is the first of the highest epoch, a snapshot before a segment; the survivors are
  distinct.\<close>

theorem keepHighestEpoch_spec:
  "set (keepHighestEpoch ms) = {x. firstMax rank (filter (sameBucket x) ms) = Some x} \<and>
   distinct (keepHighestEpoch ms)"
  using khe_distinct by (auto simp: khe_iff)

end
