(* ===== verification/Refs.thy ===== *)
theory Refs
  imports Chain
begin

text \<open>
  The typed store over a shared backend (\<^verbatim>\<open>internal/store/store.go\<close>): manifest, refs, base
  pointers and existence checks.  Every operation takes the world and returns the world its
  backend calls leave.  \<^verbatim>\<open>retryLoop\<close> is Go's \<^verbatim>\<open>for\<close> without a condition: a body either
  finishes or asks for another round.  \<^verbatim>\<open>None\<close> means the fuel ran out; the locale
  \<^verbatim>\<open>retry_body\<close> shows that one more round than there are events left in the script is always
  enough, for a body that finishes once nobody interferes.
\<close>

section \<open>Retry loops\<close>

datatype 'r step = Retry | Done 'r

fun retryLoop :: "nat \<Rightarrow> (world \<Rightarrow> 'r step \<times> world) \<Rightarrow> world \<Rightarrow> ('r \<times> world) option" where
  "retryLoop 0 body w = None"
| "retryLoop (Suc n) body w =
     (case body w of
        (Done r, w1) \<Rightarrow> Some (r, w1)
      | (Retry, w1) \<Rightarrow> retryLoop n body w1)"

section \<open>Manifest\<close>

definition manifestKey :: key where
  "manifestKey = ''offshoot.json''"

definition InitManifest :: "string \<Rightarrow> world \<Rightarrow> err option \<times> world" where
  "InitManifest nowS w =
     (case bPutIf manifestKey (CManifest \<lparr>mLayoutVersion = LayoutVersion, mCreatedAt = nowS\<rparr>) NoETag w of
        (Inl e, w1) \<Rightarrow> (Some (wrap_err ''store: init'' e), w1)
      | (Inr _, w1) \<Rightarrow> (None, w1))"

definition unmarshalManifest :: "content \<Rightarrow> manifest option" where
  "unmarshalManifest c = (case c of CManifest m \<Rightarrow> Some m | _ \<Rightarrow> None)"

definition CheckManifest :: "world \<Rightarrow> err option \<times> world" where
  "CheckManifest w =
     (case bGet manifestKey w of
        (Inl e, w1) \<Rightarrow> (Some e, w1)
      | (Inr (data, _), w1) \<Rightarrow>
          (case unmarshalManifest data of
             None \<Rightarrow> (Some (plain_err ''store: corrupt manifest''), w1)
           | Some m \<Rightarrow>
               if mLayoutVersion m > LayoutVersion
               then (Some (plain_err ''store: layout version is newer than this binary supports''), w1)
               else (None, w1)))"

definition ensureLayoutBody :: "world \<Rightarrow> (err option) step \<times> world" where
  "ensureLayoutBody w =
     (case bGet manifestKey w of
        (Inl e, w1) \<Rightarrow> (Done (Some e), w1)
      | (Inr (data, etag), w1) \<Rightarrow>
          (case unmarshalManifest data of
             None \<Rightarrow> (Done (Some (plain_err ''store: corrupt manifest'')), w1)
           | Some m \<Rightarrow>
               if mLayoutVersion m \<ge> LayoutVersion then (Done None, w1)
               else (case bPutIf manifestKey (CManifest (m\<lparr>mLayoutVersion := LayoutVersion\<rparr>)) etag w1 of
                       (Inl e, w2) \<Rightarrow> if errors_is e ErrCAS then (Retry, w2) else (Done (Some e), w2)
                     | (Inr _, w2) \<Rightarrow> (Done None, w2))))"

text \<open>The result carries the process-wide flag \<^verbatim>\<open>layoutAtLeastV2\<close> as the call leaves it.\<close>

definition EnsureLayoutV2 :: "nat \<Rightarrow> bool \<Rightarrow> world \<Rightarrow> ((err option \<times> bool) \<times> world) option" where
  "EnsureLayoutV2 fuel atLeastV2 w =
     (if atLeastV2 then Some ((None, True), w)
      else map_option (\<lambda>(r, w1). ((r, r = None), w1)) (retryLoop fuel ensureLayoutBody w))"

section \<open>Refs\<close>

definition describeMissingRef :: "string \<Rightarrow> string \<Rightarrow> world \<Rightarrow> err \<times> world" where
  "describeMissingRef db branch w =
     (case bList (''refs/'' @ db @ ''/'') w of
        (Inr [], w1) \<Rightarrow> (Err ''store: not found: no database'' [ErrNotFound], w1)
      | (_, w1) \<Rightarrow> (Err ''store: not found: no branch'' [ErrNotFound], w1))"

definition GetRef :: "string \<Rightarrow> string \<Rightarrow> world \<Rightarrow> (err + ref \<times> etag) \<times> world" where
  "GetRef db branch w =
     (case bGet (RefKey db branch) w of
        (Inl e, w1) \<Rightarrow>
          if errors_is e ErrNotFound
          then (case describeMissingRef db branch w1 of (e', w2) \<Rightarrow> (Inl e', w2))
          else (Inl e, w1)
      | (Inr (data, etag), w1) \<Rightarrow>
          (case decodeRef data of
             Inl e \<Rightarrow> (Inl (wrap_err ''store: ref'' e), w1)
           | Inr r \<Rightarrow> (Inr (r, etag), w1)))"

definition PutRef :: "string \<Rightarrow> string \<Rightarrow> ref \<Rightarrow> etag \<Rightarrow> world \<Rightarrow> (err + etag) \<times> world" where
  "PutRef db branch r ifMatch w =
     (case ValidateName db of
        Some e \<Rightarrow> (Inl e, w)
      | None \<Rightarrow>
          (case ValidateName branch of
             Some e \<Rightarrow> (Inl e, w)
           | None \<Rightarrow> bPutIf (RefKey db branch) (marshalRef (stampRef r)) ifMatch w))"

definition ObjectExists :: "key \<Rightarrow> world \<Rightarrow> (err + bool) \<times> world" where
  "ObjectExists key w =
     (case bList key w of
        (Inl e, w1) \<Rightarrow> (Inl e, w1)
      | (Inr keys, w1) \<Rightarrow> (Inr (key \<in> set keys), w1))"

text \<open>\<^verbatim>\<open>Store.Head\<close>, its etag; both backends answer with the etag \<^verbatim>\<open>Get\<close> would give.\<close>

definition storeHead :: "key \<Rightarrow> world \<Rightarrow> (err + etag) \<times> world" where
  "storeHead key w =
     (case bGet key w of
        (Inl e, w1) \<Rightarrow> (Inl e, w1)
      | (Inr (_, etag), w1) \<Rightarrow> (Inr etag, w1))"

definition DeleteRefIf :: "string \<Rightarrow> string \<Rightarrow> etag \<Rightarrow> world \<Rightarrow> err option \<times> world" where
  "DeleteRefIf db branch etag w =
     (if wCondDelete w then bDeleteIf (RefKey db branch) etag w
      else bDelete (RefKey db branch) w)"

text \<open>The grouping loop of \<^verbatim>\<open>ListRefs\<close>.\<close>

fun groupRefs :: "key list \<Rightarrow> string list byname \<Rightarrow> err + string list byname" where
  "groupRefs [] m = Inr m"
| "groupRefs (k # ks) m =
     (case splitOn CHR ''/'' k of
        [r, db, branch] \<Rightarrow>
          (case ValidateName db of
             Some e \<Rightarrow> Inl (wrap_err ''store: ref; rename or remove the key with your storage tool'' e)
           | None \<Rightarrow>
               (case ValidateName branch of
                  Some e \<Rightarrow> Inl (wrap_err ''store: ref; rename or remove the key with your storage tool'' e)
                | None \<Rightarrow>
                    groupRefs ks
                      (mput db ((case map_of m db of None \<Rightarrow> [] | Some bs \<Rightarrow> bs) @ [branch]) m)))
      | _ \<Rightarrow> groupRefs ks m)"

definition ListRefs :: "world \<Rightarrow> (err + string list byname) \<times> world" where
  "ListRefs w =
     (case bList ''refs/'' w of
        (Inl e, w1) \<Rightarrow> (Inl e, w1)
      | (Inr keys, w1) \<Rightarrow>
          (case groupRefs keys [] of
             Inl e \<Rightarrow> (Inl e, w1)
           | Inr m \<Rightarrow> (Inr (map (\<lambda>(db, bs). (db, sort bs)) m), w1)))"

definition WriteLineageBase :: "string \<Rightarrow> basePointer \<Rightarrow> world \<Rightarrow> err option \<times> world" where
  "WriteLineageBase lineage b w =
     (if bpLineage b = lineage then (Some (plain_err ''store: lineage cannot be its own base''), w)
      else case bPutIf (BaseKey lineage) (CBase b) NoETag w of
             (Inl e, w1) \<Rightarrow> (Some e, w1)
           | (Inr _, w1) \<Rightarrow> (None, w1))"

text \<open>The store as a chain resolution reads it: at one instant, or failing as a whole.\<close>

definition readView :: "world \<Rightarrow> view \<times> world" where
  "readView w =
     (case tick w of
        (Fine, w1) \<Rightarrow> (viewOf (wObjs w1), w1)
      | (Refused e, w1) \<Rightarrow> (\<lparr>vObjs = wObjs w1, vFail = (\<lambda>_. Some e)\<rparr>, w1)
      | (Landed e, w1) \<Rightarrow> (\<lparr>vObjs = wObjs w1, vFail = (\<lambda>_. Some e)\<rparr>, w1))"

lemma readView_quiet: "quiet w \<Longrightarrow> readView w = (viewOf (wObjs w), w)"
  by (simp add: readView_def)

section \<open>Bodies that finish once nobody interferes\<close>

locale retry_body =
  fixes body :: "world \<Rightarrow> 'r step \<times> world"
  assumes finishes: "quiet w \<Longrightarrow> \<exists>r w'. body w = (Done r, w')"
    and consumes: "body w = (Retry, w') \<Longrightarrow> length (wScript w') < length (wScript w)"
begin

lemma enough_fuel:
  "length (wScript w) < n \<Longrightarrow> \<exists>r w'. retryLoop n body w = Some (r, w')"
proof (induction n arbitrary: w)
  case (Suc n)
  obtain s w1 where b: "body w = (s, w1)" by (cases "body w")
  show ?case
  proof (cases s)
    case Retry
    then have "length (wScript w1) < n" using consumes b Suc.prems by fastforce
    then show ?thesis using Suc.IH b Retry by simp
  qed (use b in simp)
qed simp

lemma fuel_irrelevant:
  "retryLoop n body w = Some x \<Longrightarrow> n \<le> n' \<Longrightarrow> retryLoop n' body w = Some x"
proof (induction n arbitrary: n' w)
  case (Suc n)
  then obtain k where "n' = Suc k" "n \<le> k" by (cases n') auto
  with Suc show ?case by (auto split: prod.splits step.splits)
qed simp

lemma last_round:
  assumes "retryLoop n body w = Some (r, w')"
  obtains w0 where "body w0 = (Done r, w')"
  using assms by (induction n arbitrary: w) (auto split: prod.splits step.splits)

end

section \<open>Reading and writing refs\<close>

definition refAt :: "objs \<Rightarrow> string \<Rightarrow> string \<Rightarrow> ref option" where
  "refAt s db branch =
     (case map_of s (RefKey db branch) of
        None \<Rightarrow> None
      | Some c \<Rightarrow> (case decodeRef c of Inl _ \<Rightarrow> None | Inr r \<Rightarrow> Some r))"

lemma tick_length: "length (wScript (snd (tick w))) = length (wScript w) - 1"
  using tick_script by (cases "tick w") auto

lemma quiet_not_empty: "\<not> quiet w \<Longrightarrow> 0 < length (wScript w)"
  by (simp add: quiet_def)

lemma GetRef_Inr:
  assumes "GetRef db b w = (Inr (r, t), w')"
  obtains c where "w' = snd (tick w)" "map_of (wObjs w') (RefKey db b) = Some c"
    "t = ETagOf c" "decodeRef c = Inr r"
  using assms by (auto simp: GetRef_def split: prod.splits sum.splits if_splits dest!: bGet_Inr)

lemma GetRef_refAt: "GetRef db b w = (Inr (r, t), w') \<Longrightarrow> refAt (wObjs w') db b = Some r"
  by (erule GetRef_Inr) (simp add: refAt_def)

lemma PutRef_Inr:
  assumes "PutRef db b r m w = (Inr t, w')"
  shows "valid_name db" "valid_name b" "t = ETagOf (marshalRef (stampRef r))"
    "wObjs w' = mput (RefKey db b) (marshalRef (stampRef r)) (wObjs (snd (tick w)))"
    "case map_of (wObjs (snd (tick w))) (RefKey db b) of None \<Rightarrow> m = NoETag | Some cur \<Rightarrow> m = ETagOf cur"
  using assms by (auto simp: PutRef_def split: option.splits dest!: bPutIf_Inr)

lemma refAt_put:
  "ref_wf r \<Longrightarrow> refAt (mput (RefKey db b) (marshalRef (stampRef r)) s) db b = Some (stampRef r)"
  by (simp add: refAt_def decodeRef_marshalRef)

lemma describeMissingRef_err: "errors_is (fst (describeMissingRef db b w)) ErrNotFound"
  by (auto simp: describeMissingRef_def split: prod.splits sum.splits list.splits)

lemma localPath_RefKey:
  assumes "valid_name db" "valid_name b"
  shows "localPath (RefKey db b) = None"
proof -
  have dots: "\<not> containsSub (x @ CHR ''/'' # y) ''..''"
    if "\<not> containsSub x ''..''" "\<not> containsSub y ''..''" for x y
    using that
  proof (induction x)
    case (Cons a x)
    then show ?case by (cases x) (auto simp: hasPrefix_def)
  qed (simp add: hasPrefix_def)
  have "\<not> containsSub (RefKey db b) ''..''"
    using dots [of "''refs''" "db @ CHR ''/'' # b"] dots [of db b] valid_nameD(5) assms
    by (simp add: RefKey_def hasPrefix_def)
  then show ?thesis by (simp add: localPath_def RefKey_def hasPrefix_def)
qed

text \<open>A read-modify-write with nobody else around succeeds.\<close>

lemma PutRef_quiet:
  assumes "quiet w" "valid_name db" "valid_name b" "map_of (wObjs w) (RefKey db b) = Some c"
  shows "\<exists>w'. PutRef db b r (ETagOf c) w = (Inr (ETagOf (marshalRef (stampRef r))), w')"
  using assms by (auto simp: PutRef_def bPutIf_def localPutIf_def etagOf_def localPath_RefKey)

lemma GetRef_quiet: "quiet w \<Longrightarrow> quiet (snd (GetRef db b w))"
  by (auto simp: GetRef_def bGet_def describeMissingRef_def bList_def split: sum.splits if_splits list.splits)

lemma PutRef_retry_consumes:
  assumes "GetRef db b w = (Inr (r0, t), w1)" "PutRef db b r t w1 = (Inl e, w2)"
    "errors_is e ErrCAS" "valid_name db" "valid_name b"
  shows "length (wScript w2) < length (wScript w)"
proof -
  obtain c where c: "w1 = snd (tick w)" "map_of (wObjs w1) (RefKey db b) = Some c" "t = ETagOf c"
    using assms(1) by (rule GetRef_Inr)
  have len: "length (wScript w2) = length (wScript w1) - 1"
    using assms(2,4,5) tick_length [of w1] by (auto simp: PutRef_def dest!: bPutIf_Inl)
  have "\<not> quiet w1"
    using PutRef_quiet [OF _ assms(4,5) c(2), of r] assms(2) c(3) by auto
  then show ?thesis using len c(1) tick_length [of w] quiet_not_empty [of w1] by auto
qed

section \<open>The backend's capabilities never change\<close>

definition caps :: "world \<Rightarrow> bool \<times> bool" where
  "caps w = (wCondDelete w, wSettled w)"

lemma caps_tick [simp]: "caps (snd (tick w)) = caps w"
  by (auto simp: caps_def tick.simps split: list.splits event.splits)

lemma caps_tick_eq: "tick w = (x, w1) \<Longrightarrow> caps w1 = caps w"
  using caps_tick [of w] by simp

lemma caps_update [simp]: "caps (w\<lparr>wObjs := s\<rparr>) = caps w"
  by (simp add: caps_def)

lemma caps_backend [simp]:
  "caps (snd (bGet k w)) = caps w" "caps (snd (bList k w)) = caps w"
  "caps (snd (bPutIf k c m w)) = caps w" "caps (snd (bDelete k w)) = caps w"
  "caps (snd (bDeleteIf k m w)) = caps w" "caps (snd (bCopyObject k k' w)) = caps w"
  by (auto simp: bGet_def bList_def bPutIf_def bDelete_def bDeleteIf_def bCopyObject_def
      dest!: caps_tick_eq split: prod.splits fault.splits sum.splits option.splits)

lemma caps_bList_eq: "bList p w = (x, w1) \<Longrightarrow> caps w1 = caps w"
  using caps_backend(2) [of p w] by simp

lemma caps_describe [simp]: "caps (snd (describeMissingRef db b w)) = caps w"
  by (auto simp: describeMissingRef_def dest!: caps_bList_eq split: prod.splits sum.splits list.splits)

lemma caps_GetRef [simp]: "caps (snd (GetRef db b w)) = caps w"
proof -
  obtain x w1 where g: "bGet (RefKey db b) w = (x, w1)" by (cases "bGet (RefKey db b) w")
  then have "caps w1 = caps w" using caps_backend(1) [of "RefKey db b" w] by simp
  moreover obtain e w2 where d: "describeMissingRef db b w1 = (e, w2)" by (cases "describeMissingRef db b w1")
  then have "caps w2 = caps w1" using caps_describe [of db b w1] by simp
  ultimately show ?thesis using g d by (auto simp: GetRef_def split: sum.splits)
qed

lemma caps_PutRef [simp]: "caps (snd (PutRef db b r m w)) = caps w"
  by (auto simp: PutRef_def split: option.splits)

lemma caps_eqs:
  "GetRef db b w = (x, w1) \<Longrightarrow> caps w1 = caps w"
  "PutRef db b r m w = (y, w1) \<Longrightarrow> caps w1 = caps w"
  by (metis caps_GetRef snd_conv, metis caps_PutRef snd_conv)

lemma bDeleteIf_None:
  assumes "bDeleteIf k m w = (None, w')"
  shows "\<exists>c. map_of (wObjs (snd (tick w))) k = Some c \<and> m = ETagOf c \<and> wObjs w' = mdel k (wObjs (snd (tick w)))"
  using assms by (auto simp: bDeleteIf_def localDeleteIf_def etagOf_def
      split: prod.splits fault.splits option.splits if_splits)

lemma DeleteRefIf_None:
  assumes "DeleteRefIf db b t w = (None, w')" "wCondDelete w"
  shows "\<exists>s c. map_of s (RefKey db b) = Some c \<and> t = ETagOf c \<and> wObjs w' = mdel (RefKey db b) s"
  using assms by (auto simp: DeleteRefIf_def dest!: bDeleteIf_None)

lemma caps_DeleteRefIf: "DeleteRefIf db b t w = (x, w1) \<Longrightarrow> caps w1 = caps w"
  unfolding DeleteRefIf_def by (metis caps_backend(4,5) snd_conv)

section \<open>The manifest upgrade\<close>

lemma localPath_manifest: "localPath manifestKey = None"
  by (simp add: localPath_def manifestKey_def hasPrefix_def)

lemma manifest_put_quiet:
  assumes "quiet w" "map_of (wObjs w) manifestKey = Some c"
  shows "\<exists>w'. bPutIf manifestKey m (ETagOf c) w = (Inr (ETagOf m), w')"
  using assms by (simp add: bPutIf_def localPutIf_def localPath_manifest etagOf_def)

interpretation layout: retry_body ensureLayoutBody
proof (unfold_locales, goal_cases)
  case (1 w)
  show ?case
  proof (cases "bGet manifestKey w")
    case (Pair x w1)
    then have q: "quiet w1" using 1 bGet_world [of manifestKey w] by simp
    show ?thesis
    proof (cases x)
      case (Inr p)
      obtain data t where p: "p = (data, t)" by (cases p)
      with Pair Inr have "map_of (wObjs w1) manifestKey = Some data" "t = ETagOf data"
        using bGet_Inr by auto
      note put = manifest_put_quiet [OF q this(1), folded this(2)]
      show ?thesis
      proof (cases "unmarshalManifest data")
        case (Some m)
        then show ?thesis
          using Pair Inr p put [of "CManifest (m\<lparr>mLayoutVersion := LayoutVersion\<rparr>)"]
          by (auto simp: ensureLayoutBody_def)
      qed (use Pair Inr p in \<open>simp add: ensureLayoutBody_def\<close>)
    qed (use Pair in \<open>simp add: ensureLayoutBody_def\<close>)
  qed
next
  case (2 w w')
  obtain data t m e where g: "bGet manifestKey w = (Inr (data, t), snd (bGet manifestKey w))"
    "bPutIf manifestKey (CManifest (m\<lparr>mLayoutVersion := LayoutVersion\<rparr>)) t (snd (bGet manifestKey w)) = (Inl e, w')"
    using 2 by (auto simp: ensureLayoutBody_def split: prod.splits sum.splits option.splits if_splits)
  define w1 where "w1 = snd (bGet manifestKey w)"
  have c: "map_of (wObjs w1) manifestKey = Some data" "t = ETagOf data" "w1 = snd (tick w)"
    using bGet_Inr [OF g(1)] unfolding w1_def by blast+
  have "\<not> quiet w1"
    using manifest_put_quiet [OF _ c(1), of "CManifest (m\<lparr>mLayoutVersion := LayoutVersion\<rparr>)"] g(2) c(2)
    by (auto simp: w1_def)
  moreover have "length (wScript w') = length (wScript w1) - 1"
    using bPutIf_Inl [OF g(2)] tick_length [of w1] by (auto simp: w1_def)
  ultimately show ?case
    using c(3) tick_length [of w] quiet_not_empty [of w1] by auto
qed

section \<open>Undisturbed calls\<close>

lemma quiet_calls:
  assumes "quiet w"
  shows "bGet k w = (localGet (wObjs w) k, w)" "bList p w = (Inr (localList (wObjs w) p), w)"
    "bPutIf k c m w = (fst (localPutIf (wObjs w) k c m), w\<lparr>wObjs := snd (localPutIf (wObjs w) k c m)\<rparr>)"
    "bDelete k w = (fst (localDelete (wObjs w) k), w\<lparr>wObjs := snd (localDelete (wObjs w) k)\<rparr>)"
  using assms by (simp_all add: bGet_def bList_def bPutIf_def bDelete_def split: prod.splits)

lemma describeMissingRef_quiet: "quiet w \<Longrightarrow> snd (describeMissingRef db b w) = w"
  by (simp add: describeMissingRef_def quiet_calls split: list.splits)

lemma GetRef_same: "quiet w \<Longrightarrow> snd (GetRef db b w) = w"
  using describeMissingRef_quiet [of w db b]
  by (auto simp: GetRef_def quiet_calls split: sum.splits prod.splits)

lemma GetRef_found:
  assumes "quiet w" "valid_name db" "valid_name b" "refAt (wObjs w) db b = Some r"
  shows "\<exists>c. GetRef db b w = (Inr (r, ETagOf c), w) \<and> map_of (wObjs w) (RefKey db b) = Some c"
  using assms by (auto simp: GetRef_def refAt_def quiet_calls localGet_def localPath_RefKey etagOf_def
      split: option.splits sum.splits)

lemma ListRefs_same: "quiet w \<Longrightarrow> snd (ListRefs w) = w"
  by (simp add: ListRefs_def quiet_calls split: sum.splits)

section \<open>Listing refs\<close>

definition groupHas :: "string list byname \<Rightarrow> string \<Rightarrow> string \<Rightarrow> bool" where
  "groupHas m db b \<longleftrightarrow> (\<exists>bs. map_of m db = Some bs \<and> b \<in> set bs)"

lemma groupHas_put:
  "groupHas (mput db ((case map_of m db of None \<Rightarrow> [] | Some bs \<Rightarrow> bs) @ [b]) m) db' b' \<longleftrightarrow>
     groupHas m db' b' \<or> (db' = db \<and> b' = b)"
  by (cases "map_of m db") (auto simp: groupHas_def)

lemma groupRefs_Inr:
  assumes "groupRefs ks m = Inr m'" "msorted m"
  shows "msorted m' \<and> (groupHas m' db b \<longleftrightarrow>
     groupHas m db b \<or> (\<exists>k \<in> set ks. \<exists>r. splitOn CHR ''/'' k = [r, db, b]))"
  using assms
proof (induction ks arbitrary: m)
  case (Cons k ks)
  show ?case
  proof (cases "\<exists>r x y. splitOn CHR ''/'' k = [r, x, y]")
    case True
    then obtain r x y where s: "splitOn CHR ''/'' k = [r, x, y]" by blast
    define m1 where "m1 = mput x ((case map_of m x of None \<Rightarrow> [] | Some bs \<Rightarrow> bs) @ [y]) m"
    have "groupRefs ks m1 = Inr m'"
      using Cons.prems(1) s by (auto simp: m1_def split: option.splits)
    moreover have "msorted m1" using Cons.prems(2) by (simp add: m1_def msorted_mput)
    ultimately have "msorted m' \<and> (groupHas m' db b \<longleftrightarrow>
      groupHas m1 db b \<or> (\<exists>k \<in> set ks. \<exists>r. splitOn CHR ''/'' k = [r, db, b]))"
      by (rule Cons.IH)
    moreover have "groupHas m1 db b \<longleftrightarrow> groupHas m db b \<or> (db = x \<and> b = y)"
      unfolding m1_def by (rule groupHas_put)
    ultimately show ?thesis using s by auto
  next
    case False
    then have "groupRefs (k # ks) m = groupRefs ks m" by (auto split: list.splits)
    with Cons have "msorted m' \<and> (groupHas m' db b \<longleftrightarrow>
      groupHas m db b \<or> (\<exists>k \<in> set ks. \<exists>r. splitOn CHR ''/'' k = [r, db, b]))" by simp
    with False show ?thesis by auto
  qed
qed simp

lemma hasPrefix_sep: "hasPrefix (a @ c # b) p \<Longrightarrow> c \<notin> set p \<Longrightarrow> hasPrefix a p"
proof (induction a arbitrary: p)
  case Nil
  then show ?case by (cases p) (auto simp: hasPrefix_def)
next
  case (Cons x a)
  then show ?case by (cases p) (auto simp: hasPrefix_Cons)
qed

lemma hasSuffix_sep: "hasSuffix (x @ c # y) p \<Longrightarrow> c \<notin> set p \<Longrightarrow> hasSuffix y p"
  unfolding hasSuffix_def using hasPrefix_sep [of "rev y" c "rev x" "rev p"] by simp

lemma RefKey_listed:
  assumes "valid_name db" "valid_name b"
  shows "\<not> listHidden (RefKey db b)"
proof -
  have eq: "RefKey db b = (''refs/'' @ db) @ CHR ''/'' # b" by (simp add: RefKey_def)
  have "last (splitOn CHR ''/'' (RefKey db b)) = b"
    unfolding eq using valid_nameD(3) [OF assms(2)] by (rule last_splitOn)
  moreover have "\<not> hasSuffix (RefKey db b) ''.lock''"
    unfolding eq using hasSuffix_sep valid_nameD(8) [OF assms(2)] by fastforce
  ultimately show ?thesis using valid_nameD(9) [OF assms(2)] by (simp add: listHidden_def)
qed

text \<open>With nobody else writing, \<^verbatim>\<open>ListRefs\<close> returns exactly the branches that have a ref.\<close>

lemma ListRefs_exact:
  assumes "quiet w" "ListRefs w = (Inr m, w')" "valid_name db" "valid_name b"
  shows "groupHas m db b \<longleftrightarrow> RefKey db b \<in> fst ` set (wObjs w)"
proof -
  obtain m0 where m0: "groupRefs (localList (wObjs w) ''refs/'') [] = Inr m0" "m = map (\<lambda>(db, bs). (db, sort bs)) m0"
    using assms(1,2) by (auto simp: ListRefs_def quiet_calls split: sum.splits)
  have "groupHas m db b \<longleftrightarrow> groupHas m0 db b"
    by (auto simp: m0(2) groupHas_def map_of_map comp_def)
  also have "\<dots> \<longleftrightarrow> (\<exists>k \<in> set (localList (wObjs w) ''refs/''). \<exists>r. splitOn CHR ''/'' k = [r, db, b])"
    using groupRefs_Inr [OF m0(1)] by (simp add: groupHas_def)
  also have "\<dots> \<longleftrightarrow> RefKey db b \<in> fst ` set (wObjs w)"
  proof
    assume "\<exists>k \<in> set (localList (wObjs w) ''refs/''). \<exists>r. splitOn CHR ''/'' k = [r, db, b]"
    then show "RefKey db b \<in> fst ` set (wObjs w)"
      using splitOn_slash_RefKey by (fastforce simp: localList_set)
  next
    assume "RefKey db b \<in> fst ` set (wObjs w)"
    then show "\<exists>k \<in> set (localList (wObjs w) ''refs/''). \<exists>r. splitOn CHR ''/'' k = [r, db, b]"
      using splitOn_RefKey [OF assms(3,4)] RefKey_listed [OF assms(3,4)]
      by (intro bexI [of _ "RefKey db b"]) (auto simp: localList_set RefKey_def hasPrefix_def)
  qed
  finally show ?thesis .
qed

lemma ListRefs_sorted: "ListRefs w = (Inr m, w') \<Longrightarrow> msorted m"
  using groupRefs_Inr [of _ "[]"]
  by (force simp: ListRefs_def comp_def case_prod_beta split: prod.splits sum.splits)

section \<open>Properties\<close>

definition sampleWorld :: world where
  "sampleWorld = \<lparr>wObjs = sampleStore, wScript = [], wCondDelete = True, wSettled = True\<rparr>"

lemma sampleWorld_quiet: "quiet sampleWorld"
  by (simp add: sampleWorld_def quiet_def)

lemma ensureLayoutBody_done:
  assumes "ensureLayoutBody w = (Done None, w')"
  shows "\<exists>m. map_of (wObjs w') manifestKey = Some (CManifest m) \<and> LayoutVersion \<le> mLayoutVersion m"
proof -
  obtain x w1 where g: "bGet manifestKey w = (x, w1)" by (cases "bGet manifestKey w")
  show ?thesis
  proof (cases x)
    case (Inr q)
    obtain c t where q: "q = (c, t)" by (cases q)
    obtain m where m: "c = CManifest m"
      using assms g Inr q by (auto simp: ensureLayoutBody_def unmarshalManifest_def split: content.splits)
    have rd: "map_of (wObjs w1) manifestKey = Some (CManifest m)"
      using bGet_Inr g unfolding Inr q m by blast
    let ?c = "CManifest (m\<lparr>mLayoutVersion := LayoutVersion\<rparr>)"
    obtain y w2 where p: "bPutIf manifestKey ?c t w1 = (y, w2)" by (cases "bPutIf manifestKey ?c t w1")
    show ?thesis
    proof (cases "LayoutVersion \<le> mLayoutVersion m")
      case True
      then have "w' = w1" using assms g Inr q m by (simp add: ensureLayoutBody_def unmarshalManifest_def)
      then show ?thesis using True rd by blast
    next
      case False
      then have "\<exists>t'. y = Inr t'" "w' = w2"
        using assms g Inr q m p
        by (auto simp: ensureLayoutBody_def unmarshalManifest_def split: sum.splits if_splits)
      then show ?thesis using bPutIf_Inr p by fastforce
    qed
  qed (use assms g in \<open>simp add: ensureLayoutBody_def\<close>)
qed

text \<open>Raising the layout version ends, whoever else is writing the manifest: each retry is caused by
  another writer's change, so with as many of those as the script holds the loop returns within that
  many rounds and one more; and when it returns without an error, the manifest in the store records
  layout 2 or newer.\<close>

theorem EnsureLayoutV2_returns:
  assumes "length (wScript w) < fuel"
  shows "\<exists>r flag w'. EnsureLayoutV2 fuel False w = Some ((r, flag), w') \<and> (flag \<longleftrightarrow> r = None) \<and>
    (r = None \<longrightarrow> (\<exists>m. map_of (wObjs w') manifestKey = Some (CManifest m) \<and> LayoutVersion \<le> mLayoutVersion m))"
proof -
  obtain r w' where run: "retryLoop fuel ensureLayoutBody w = Some (r, w')"
    using layout.enough_fuel [OF assms] by blast
  have "\<exists>m. map_of (wObjs w') manifestKey = Some (CManifest m) \<and> LayoutVersion \<le> mLayoutVersion m" if "r = None"
    using layout.last_round [OF run] ensureLayoutBody_done that by metis
  then show ?thesis using run by (auto simp: EnsureLayoutV2_def)
qed

theorem EnsureLayoutV2_returns_witness:
  "\<exists>r flag w'. EnsureLayoutV2 2 False
      \<lparr>wObjs = [(manifestKey, CManifest \<lparr>mLayoutVersion = 1, mCreatedAt = ''a''\<rparr>)],
       wScript = [Event (mput manifestKey (CManifest \<lparr>mLayoutVersion = 1, mCreatedAt = ''b''\<rparr>)) Fine],
       wCondDelete = True, wSettled = True\<rparr> = Some ((r, flag), w')"
  (is "\<exists>r flag w'. EnsureLayoutV2 2 False ?w = _")
proof -
  have "length (wScript ?w) < 2" by simp
  from EnsureLayoutV2_returns [OF this] show ?thesis by blast
qed

text \<open>A listing of the refs is exact. On a store nobody is writing, a branch is in the listing exactly
  when its ref object is in the store; no valid name is hidden by the backend's own lock and temp
  files. The databases are listed in order, without duplicates.\<close>

theorem ListRefs_lists:
  assumes "quiet w" "ListRefs w = (Inr m, w')" "valid_name db" "valid_name b"
  shows "(groupHas m db b \<longleftrightarrow> map_of (wObjs w) (RefKey db b) \<noteq> None) \<and> msorted m"
  using ListRefs_exact [OF assms] ListRefs_sorted [OF assms(2)] by (simp add: map_of_eq_None_iff)

theorem ListRefs_lists_witness:
  "\<exists>m. ListRefs sampleWorld = (Inr m, sampleWorld) \<and> groupHas m ''app'' ''work'' \<and> \<not> groupHas m ''app'' ''main''"
proof -
  have e: "fst (ListRefs sampleWorld) = Inr [(''app'', [''work''])]" by code_simp
  then have l: "ListRefs sampleWorld = (Inr [(''app'', [''work''])], sampleWorld)"
    using ListRefs_same [OF sampleWorld_quiet] by (metis prod.collapse)
  have n: "valid_name ''app''" "valid_name ''work''" "valid_name ''main''" by code_simp+
  have "map_of (wObjs sampleWorld) (RefKey ''app'' ''work'') \<noteq> None"
    "map_of (wObjs sampleWorld) (RefKey ''app'' ''main'') = None" by code_simp+
  then show ?thesis
    using ListRefs_lists [OF sampleWorld_quiet l n(1,2)] ListRefs_lists [OF sampleWorld_quiet l n(1,3)] l by blast
qed

end
