(* ===== verification/Lease.thy ===== *)
theory Lease
  imports Refs
begin

text \<open>
  Branch leases (\<^verbatim>\<open>internal/store/lease.go\<close>).  A lease is the holder and expiry in the ref,
  and an epoch that every fresh acquisition raises.  The operations read the ref and write it
  back conditionally on its etag, in a world where anything may happen between the two calls.
  The inductive relation \<^verbatim>\<open>leaseStep\<close> is what such a call does to the ref at the instant its
  write lands; the lemmas show that each successful operation is one such step, and that along
  any sequence of steps no epoch is ever granted to two holders.
\<close>

record lease =
  lDB :: string
  lBranch :: string
  lHolder :: string
  lEpoch :: u64
  lExpiry :: int

definition parseExpiry :: "stamp \<Rightarrow> int option" where
  "parseExpiry s = parseStamp s"

definition LeaseLive :: "ref \<Rightarrow> int \<Rightarrow> bool" where
  "LeaseLive r now \<longleftrightarrow>
     (case parseExpiry (rLeaseExpiry r) of
        None \<Rightarrow> False
      | Some exp \<Rightarrow> rLeaseHolder r \<noteq> [] \<and> now < exp)"

text \<open>The refusals of \<^verbatim>\<open>AcquireLeaseRefIf\<close> once the ref is read, and the ref it writes.\<close>

definition acquireRefusal :: "string \<Rightarrow> int \<Rightarrow> (ref \<Rightarrow> err option) \<Rightarrow> ref \<Rightarrow> err option" where
  "acquireRefusal holder now check r =
     (case check r of
        Some e \<Rightarrow> Some e
      | None \<Rightarrow>
          if rReaping r then Some (Err ''store: branch is being reaped; retry shortly'' [ErrReaping])
          else if rDeleting r then Some (Err ''store: branch is being deleted; retry shortly'' [ErrDeleting])
          else if LeaseLive r now \<and> rLeaseHolder r \<noteq> holder
          then Some (Err ''store: branch lease is held'' [ErrLeaseHeld])
          else None)"

definition acquiredRef :: "string \<Rightarrow> int \<Rightarrow> int \<Rightarrow> ref \<Rightarrow> ref" where
  "acquiredRef holder ttl now r =
     (let r1 = (if LeaseLive r now then r else r\<lparr>rEpoch := rEpoch r + 1\<rparr>)
      in r1\<lparr>rLeaseHolder := holder, rLeaseExpiry := At (now + ttl)\<rparr>)"

definition AcquireLeaseRefIf ::
  "string \<Rightarrow> string \<Rightarrow> string \<Rightarrow> int \<Rightarrow> int \<Rightarrow> (ref \<Rightarrow> err option) \<Rightarrow> world \<Rightarrow>
   (err + lease \<times> ref \<times> etag) \<times> world" where
  "AcquireLeaseRefIf db branch holder ttl now check w =
     (if holder = [] then (Inl (plain_err ''store: lease holder must be named''), w)
      else case GetRef db branch w of
        (Inl e, w1) \<Rightarrow> (Inl e, w1)
      | (Inr (r, etag), w1) \<Rightarrow>
          (case acquireRefusal holder now check r of
             Some e \<Rightarrow> (Inl e, w1)
           | None \<Rightarrow>
               let r1 = acquiredRef holder ttl now r in
               (case PutRef db branch r1 etag w1 of
                  (Inl e, w2) \<Rightarrow>
                    if errors_is e ErrCAS
                    then (Inl (Err ''store: lost an acquisition race'' (ErrLeaseHeld # err_sentinels e)), w2)
                    else (Inl (wrap_err ''store: acquire lease'' e), w2)
                | (Inr written, w2) \<Rightarrow>
                    (Inr (\<lparr>lDB = db, lBranch = branch, lHolder = holder, lEpoch = rEpoch r1,
                           lExpiry = now + ttl\<rparr>, stampRef r1, written), w2))))"

definition AcquireLeaseRef ::
  "string \<Rightarrow> string \<Rightarrow> string \<Rightarrow> int \<Rightarrow> int \<Rightarrow> world \<Rightarrow> (err + lease \<times> ref \<times> etag) \<times> world" where
  "AcquireLeaseRef db branch holder ttl now w =
     AcquireLeaseRefIf db branch holder ttl now (\<lambda>_. None) w"

definition AcquireLease ::
  "string \<Rightarrow> string \<Rightarrow> string \<Rightarrow> int \<Rightarrow> int \<Rightarrow> world \<Rightarrow> (err + lease) \<times> world" where
  "AcquireLease db branch holder ttl now w =
     (case AcquireLeaseRef db branch holder ttl now w of
        (Inl e, w1) \<Rightarrow> (Inl e, w1)
      | (Inr (l, _, _), w1) \<Rightarrow> (Inr l, w1))"

definition leaseLost :: "lease \<Rightarrow> ref \<Rightarrow> bool" where
  "leaseLost l r \<longleftrightarrow> rLeaseHolder r \<noteq> lHolder l \<or> rEpoch r \<noteq> lEpoch l"

definition RenewLease :: "lease \<Rightarrow> int \<Rightarrow> int \<Rightarrow> world \<Rightarrow> (err + lease) \<times> world" where
  "RenewLease l ttl now w =
     (case GetRef (lDB l) (lBranch l) w of
        (Inl e, w1) \<Rightarrow> (Inl e, w1)
      | (Inr (r, etag), w1) \<Rightarrow>
          if leaseLost l r then (Inl (Err ''store: branch lease lost'' [ErrLeaseLost]), w1)
          else
            (case PutRef (lDB l) (lBranch l) (r\<lparr>rLeaseExpiry := At (now + ttl)\<rparr>) etag w1 of
               (Inl e, w2) \<Rightarrow> (Inl (wrap_err ''store: renew lease'' e), w2)
             | (Inr _, w2) \<Rightarrow> (Inr (l\<lparr>lExpiry := now + ttl\<rparr>), w2)))"

definition clearedRef :: "int \<Rightarrow> ref \<Rightarrow> ref" where
  "clearedRef now r = refTouch now (r\<lparr>rLeaseHolder := [], rLeaseExpiry := NoStamp\<rparr>)"

definition clearLease :: "int \<Rightarrow> string \<Rightarrow> string \<Rightarrow> ref \<Rightarrow> etag \<Rightarrow> world \<Rightarrow> err option \<times> world" where
  "clearLease now db branch r etag w =
     (case PutRef db branch (clearedRef now r) etag w of
        (Inl e, w1) \<Rightarrow> (Some (wrap_err ''store: release lease'' e), w1)
      | (Inr _, w1) \<Rightarrow> (None, w1))"

definition ReleaseLease :: "int \<Rightarrow> lease \<Rightarrow> world \<Rightarrow> err option \<times> world" where
  "ReleaseLease now l w =
     (case GetRef (lDB l) (lBranch l) w of
        (Inl e, w1) \<Rightarrow> (Some e, w1)
      | (Inr (r, etag), w1) \<Rightarrow>
          if leaseLost l r then (Some (Err ''store: branch lease lost'' [ErrLeaseLost]), w1)
          else clearLease now (lDB l) (lBranch l) r etag w1)"

definition ReleaseLeaseByHolder :: "int \<Rightarrow> string \<Rightarrow> string \<Rightarrow> string \<Rightarrow> world \<Rightarrow> err option \<times> world" where
  "ReleaseLeaseByHolder now db branch holder w =
     (if holder = [] then (Some (plain_err ''lease release: an empty holder names no lease; nothing released''), w)
      else case GetRef db branch w of
        (Inl e, w1) \<Rightarrow> (Some e, w1)
      | (Inr (r, etag), w1) \<Rightarrow>
          if rLeaseHolder r = [] then (Some (Err ''lease release: not leased; nothing released'' [ErrHolderMismatch]), w1)
          else if rLeaseHolder r \<noteq> holder
          then (Some (Err ''lease release: held by another; nothing released'' [ErrHolderMismatch]), w1)
          else clearLease now db branch r etag w1)"

section \<open>What a lease operation does to the ref\<close>

datatype leaseAct =
    Acquire string int int
  | Renew string u64 int int
  | Release string int
  | Other

inductive leaseStep :: "ref \<Rightarrow> leaseAct \<Rightarrow> ref \<Rightarrow> bool" where
  Acquire: "leaseStep r (Acquire h ttl now) (stampRef (acquiredRef h ttl now r))"
    if "h \<noteq> []" "\<not> rReaping r" "\<not> rDeleting r" "LeaseLive r now \<longrightarrow> rLeaseHolder r = h"
| Renew: "leaseStep r (Renew h e ttl now) (stampRef (r\<lparr>rLeaseExpiry := At (now + ttl)\<rparr>))"
    if "rLeaseHolder r = h" "rEpoch r = e"
| Release: "leaseStep r (Release h now) (stampRef (clearedRef now r))"
    if "rLeaseHolder r = h"
| Other: "leaseStep r Other r'"
    if "rEpoch r' = rEpoch r" "rLeaseHolder r' = rLeaseHolder r" "rLeaseExpiry r' = rLeaseExpiry r"

inductive_cases leaseStepE: "leaseStep r a r'"

text \<open>A write replaced ref \<^verbatim>\<open>r\<close> by ref \<^verbatim>\<open>r'\<close> at one instant, and nothing else.\<close>

definition replaced :: "string \<Rightarrow> string \<Rightarrow> ref \<Rightarrow> ref \<Rightarrow> objs \<Rightarrow> objs \<Rightarrow> bool" where
  "replaced db b r r' s s' \<longleftrightarrow>
     refAt s db b = Some r \<and> s' = mput (RefKey db b) (marshalRef r') s"

lemma PutRef_replaced:
  assumes "GetRef db b w = (Inr (r, t), w1)" "PutRef db b r' t w1 = (Inr t', w2)"
  shows "\<exists>s. replaced db b r (stampRef r') s (wObjs w2)"
proof -
  obtain c where c: "map_of (wObjs w1) (RefKey db b) = Some c" "t = ETagOf c" "decodeRef c = Inr r"
    using assms(1) by (rule GetRef_Inr)
  show ?thesis
    using PutRef_Inr(4,5) [OF assms(2)] c
    by (auto simp: replaced_def refAt_def split: option.splits intro!: exI [of _ "wObjs (snd (tick w1))"])
qed

lemma AcquireLeaseRefIf_Inr:
  assumes "AcquireLeaseRefIf db b h ttl now check w = (Inr (l, r', t), w')"
  shows "\<exists>r s. leaseStep r (Acquire h ttl now) r' \<and> check r = None \<and> replaced db b r r' s (wObjs w') \<and>
    l = \<lparr>lDB = db, lBranch = b, lHolder = h, lEpoch = rEpoch r', lExpiry = now + ttl\<rparr> \<and>
    t = ETagOf (marshalRef r')"
proof -
  obtain r etag w1 where g: "GetRef db b w = (Inr (r, etag), w1)"
    "acquireRefusal h now check r = None" "h \<noteq> []"
    "PutRef db b (acquiredRef h ttl now r) etag w1 = (Inr t, w')" "r' = stampRef (acquiredRef h ttl now r)"
    "l = \<lparr>lDB = db, lBranch = b, lHolder = h, lEpoch = rEpoch r', lExpiry = now + ttl\<rparr>"
    using assms by (auto simp: AcquireLeaseRefIf_def Let_def split: if_splits prod.splits sum.splits option.splits)
  have "leaseStep r (Acquire h ttl now) r'" "check r = None"
    using g by (auto simp: acquireRefusal_def intro!: leaseStep.Acquire split: option.splits if_splits)
  then show ?thesis
    using PutRef_replaced [OF g(1) g(4)] PutRef_Inr(3) [OF g(4)] g(5,6) by blast
qed

lemma RenewLease_Inr:
  assumes "RenewLease l ttl now w = (Inr l', w')"
  shows "\<exists>r r' s. leaseStep r (Renew (lHolder l) (lEpoch l) ttl now) r' \<and>
    replaced (lDB l) (lBranch l) r r' s (wObjs w') \<and> l' = l\<lparr>lExpiry := now + ttl\<rparr>"
  using assms
  by (auto simp: RenewLease_def leaseLost_def split: if_splits prod.splits sum.splits
      dest!: PutRef_replaced intro: leaseStep.Renew)

lemma ReleaseLease_None:
  assumes "ReleaseLease now l w = (None, w')"
  shows "\<exists>r r' s. leaseStep r (Release (lHolder l) now) r' \<and> rEpoch r = lEpoch l \<and>
    replaced (lDB l) (lBranch l) r r' s (wObjs w')"
  using assms
  by (auto simp: ReleaseLease_def clearLease_def leaseLost_def split: if_splits prod.splits sum.splits
      dest!: PutRef_replaced intro: leaseStep.Release)

lemma lost_writes_nothing:
  assumes "GetRef (lDB l) (lBranch l) w = (Inr (r, t), w1)" "leaseLost l r"
  shows "RenewLease l ttl now w = (Inl (Err ''store: branch lease lost'' [ErrLeaseLost]), w1)"
    "ReleaseLease now l w = (Some (Err ''store: branch lease lost'' [ErrLeaseLost]), w1)"
  using assms by (simp_all add: RenewLease_def ReleaseLease_def)

section \<open>Sequences of lease operations\<close>

definition grant :: "leaseAct \<Rightarrow> ref \<Rightarrow> (string \<times> u64) list" where
  "grant a r = (case a of Acquire h _ _ \<Rightarrow> [(h, rEpoch r)] | _ \<Rightarrow> [])"

text \<open>\<^verbatim>\<open>leaseRun r0 gs n r\<close>: \<^verbatim>\<open>n\<close> writes took the ref from \<^verbatim>\<open>r0\<close> to \<^verbatim>\<open>r\<close> and granted the
  epochs in \<^verbatim>\<open>gs\<close>, newest first.\<close>

inductive leaseRun :: "ref \<Rightarrow> (string \<times> u64) list \<Rightarrow> nat \<Rightarrow> ref \<Rightarrow> bool" for r0 where
  Start: "leaseRun r0 [] 0 r0"
| Step: "leaseRun r0 gs n r \<Longrightarrow> leaseStep r a r' \<Longrightarrow> leaseRun r0 (grant a r' @ gs) (Suc n) r'"

lemma unat_inc: "unat (x::u64) + 1 < 2 ^ 64 \<Longrightarrow> unat (x + 1) = unat x + 1"
  by (simp add: unat_word_ariths)

lemma leaseStep_epoch:
  assumes "leaseStep r a r'" "unat (rEpoch r) + 1 < 2 ^ 64"
  shows "unat (rEpoch r') = unat (rEpoch r) \<or> unat (rEpoch r') = unat (rEpoch r) + 1"
  using assms unat_inc [of "rEpoch r"]
  by (cases rule: leaseStep.cases) (auto simp: acquiredRef_def clearedRef_def refTouch_def Let_def)

lemma leaseRun_epoch:
  assumes "leaseRun r0 gs n r" "unat (rEpoch r0) + n < 2 ^ 64"
  shows "unat (rEpoch r0) \<le> unat (rEpoch r) \<and> unat (rEpoch r) \<le> unat (rEpoch r0) + n"
  using assms
proof (induction rule: leaseRun.induct)
  case (Step gs n r a r')
  then show ?case using leaseStep_epoch [OF Step(2)] by auto
qed simp

definition grantsOk :: "(string \<times> u64) list \<Rightarrow> ref \<Rightarrow> bool" where
  "grantsOk gs r \<longleftrightarrow>
     (\<forall>(h, e) \<in> set gs. e \<le> rEpoch r \<and> (e = rEpoch r \<longrightarrow> rLeaseHolder r = h \<or> rLeaseHolder r = [])) \<and>
     (\<forall>(h, e) \<in> set gs. \<forall>(h', e') \<in> set gs. e = e' \<longrightarrow> h = h')"

lemma leaseStep_grantsOk:
  assumes "leaseStep r a r'" "grantsOk gs r" "unat (rEpoch r) + 1 < 2 ^ 64"
  shows "grantsOk (grant a r' @ gs) r'"
  using assms(1)
proof (cases rule: leaseStep.cases)
  case (Acquire h now ttl)
  show ?thesis
  proof (cases "LeaseLive r now")
    case True
    then have "rLeaseHolder r = h" using Acquire by simp
    with Acquire True assms(2) show ?thesis
      by (fastforce simp: grantsOk_def grant_def acquiredRef_def Let_def)
  next
    case False
    have "rEpoch r < rEpoch r + 1"
      using unat_inc [OF assms(3)] by (simp add: word_less_nat_alt)
    then have "e < rEpoch r + 1" if "(h, e) \<in> set gs" for h e
      using that assms(2) by (fastforce simp: grantsOk_def)
    with Acquire False assms(2) show ?thesis
      by (fastforce simp: grantsOk_def grant_def acquiredRef_def Let_def)
  qed
qed (use assms(2) in \<open>auto simp: grantsOk_def grant_def clearedRef_def refTouch_def\<close>)

lemma leaseRun_grantsOk:
  assumes "leaseRun r0 gs n r" "unat (rEpoch r0) + n < 2 ^ 64"
  shows "grantsOk gs r"
  using assms
proof (induction rule: leaseRun.induct)
  case (Step gs n r a r')
  have "unat (rEpoch r) + 1 < 2 ^ 64"
    using leaseRun_epoch [OF Step(1)] Step.prems by auto
  then show ?case using leaseStep_grantsOk Step by simp
qed (simp add: grantsOk_def)

section \<open>Properties\<close>





text \<open>A holder that lost its lease cannot write through it. When the ref a renewal or a release reads
  names another holder or another epoch, it answers \<^verbatim>\<open>ErrLeaseLost\<close> and performs no write.\<close>

theorem lost_lease_is_refused:
  assumes "GetRef (lDB l) (lBranch l) w = (Inr (r, t), w1)" "rLeaseHolder r \<noteq> lHolder l \<or> rEpoch r \<noteq> lEpoch l"
  shows "\<exists>e. errors_is e ErrLeaseLost \<and> RenewLease l ttl now w = (Inl e, w1) \<and> ReleaseLease now l w = (Some e, w1)"
proof -
  have "leaseLost l r" using assms(2) by (simp add: leaseLost_def)
  then show ?thesis using lost_writes_nothing [OF assms(1)] by (auto simp: errors_is_def)
qed

theorem lost_lease_is_refused_witness:
  "\<exists>e w1. RenewLease \<lparr>lDB = ''app'', lBranch = ''work'', lHolder = ''h'', lEpoch = 2, lExpiry = 0\<rparr> 60 1000 sampleWorld = (Inl e, w1) \<and>
     errors_is e ErrLeaseLost"
proof -
  let ?l = "\<lparr>lDB = ''app'', lBranch = ''work'', lHolder = ''h'', lEpoch = 2, lExpiry = 0\<rparr>"
  have v: "valid_name (lDB ?l)" "valid_name (lBranch ?l)" by code_simp+
  have "refAt (wObjs sampleWorld) (lDB ?l) (lBranch ?l) = Some sampleRef" by code_simp
  then obtain c where g: "GetRef (lDB ?l) (lBranch ?l) sampleWorld = (Inr (sampleRef, ETagOf c), sampleWorld)"
    using GetRef_found [OF sampleWorld_quiet v] by blast
  have "rLeaseHolder sampleRef \<noteq> lHolder ?l \<or> rEpoch sampleRef \<noteq> lEpoch ?l" by code_simp
  from lost_lease_is_refused [OF g this] show ?thesis by blast
qed

end
