(* ===== verification/Destroy.thy ===== *)
theory Destroy
  imports Lease
begin

text \<open>
  Destroying a branch (\<^verbatim>\<open>internal/ops/gc.go\<close>): the deletion claim, its recovery when the
  claim write reports failure but landed, the conditional delete and its retries, the unwinding
  of a claim, and the janitor's \<^verbatim>\<open>ClearStaleDeleteClaims\<close>.  The clock readings of one call and
  the result of quiescing the checkout with SQLite are arguments.  Removing the checkout's local
  files after the ref is gone is not modelled.  Times are in nanoseconds.
\<close>

definition seconds :: "int \<Rightarrow> int" where
  "seconds n = n * 1000000000"

definition staleDeletingClaimAfter :: int where "staleDeletingClaimAfter = seconds 30"
definition deleteClaimClockSlack :: int where "deleteClaimClockSlack = seconds 60"
definition deleteClaimMargin :: int where "deleteClaimMargin = seconds 10"
definition destroyDeleteAttempts :: nat where "destroyDeleteAttempts = 4"
definition claimSettleReads :: nat where "claimSettleReads = 3"

definition deleteClaimFresh :: "int \<Rightarrow> int \<Rightarrow> bool" where
  "deleteClaimFresh at now \<longleftrightarrow>
     (let age = now - at in age < staleDeletingClaimAfter \<and> age \<ge> - deleteClaimClockSlack)"

definition liveDeleteClaim :: "ref \<Rightarrow> int \<Rightarrow> bool" where
  "liveDeleteClaim r now \<longleftrightarrow>
     rDeleting r \<and> (case parseStamp (rDeletingAt r) of None \<Rightarrow> False | Some at \<Rightarrow> deleteClaimFresh at now)"

definition onlyRenewed :: "ref \<Rightarrow> ref \<Rightarrow> bool" where
  "onlyRenewed claimed cur \<longleftrightarrow>
     (let cur1 = cur\<lparr>rLeaseExpiry := rLeaseExpiry claimed\<rparr>;
          cur2 = (if rReaping claimed then cur1\<lparr>rReaping := True\<rparr> else cur1)
      in marshalRef claimed = marshalRef cur2)"

definition destroyLeaseRefusal :: err where
  "destroyLeaseRefusal = Err ''ops: live lease; use --force'' [ErrLeaseHeld]"

fun unwindAttempts :: "nat \<Rightarrow> string \<Rightarrow> string \<Rightarrow> stamp \<Rightarrow> world \<Rightarrow> world" where
  "unwindAttempts 0 db branch claimedAt w = w"
| "unwindAttempts (Suc n) db branch claimedAt w =
     (case GetRef db branch w of
        (Inl e, w1) \<Rightarrow> w1
      | (Inr (r, etag), w1) \<Rightarrow>
          if \<not> rDeleting r \<or> rDeletingAt r \<noteq> claimedAt then w1
          else
            (case PutRef db branch (r\<lparr>rDeleting := False, rDeletingAt := NoStamp\<rparr>) etag w1 of
               (Inl e, w2) \<Rightarrow> if errors_is e ErrCAS then unwindAttempts n db branch claimedAt w2 else w2
             | (Inr _, w2) \<Rightarrow> w2))"

definition unwindDeletingClaim :: "string \<Rightarrow> string \<Rightarrow> stamp \<Rightarrow> world \<Rightarrow> world" where
  "unwindDeletingClaim db branch claimedAt w =
     unwindAttempts destroyDeleteAttempts db branch claimedAt w"

text \<open>The settle reads of \<^verbatim>\<open>landedClaim\<close>: read, and read again while nothing has landed.\<close>

fun settleReads :: "nat \<Rightarrow> string \<Rightarrow> string \<Rightarrow> etag \<Rightarrow> world \<Rightarrow> (err + ref \<times> etag) \<times> world" where
  "settleReads 0 db branch sentEtag w = GetRef db branch w"
| "settleReads (Suc n) db branch sentEtag w =
     (case GetRef db branch w of
        (Inr (cur, etag), w1) \<Rightarrow>
          if etag = sentEtag then settleReads n db branch sentEtag w1 else (Inr (cur, etag), w1)
      | (Inl e, w1) \<Rightarrow> (Inl e, w1))"

definition landedClaim ::
  "string \<Rightarrow> string \<Rightarrow> ref \<Rightarrow> etag \<Rightarrow> bool \<Rightarrow> err \<Rightarrow> int \<Rightarrow> world \<Rightarrow> (err + etag) \<times> world" where
  "landedClaim db branch claimed sentEtag force werr now w =
     (let failed = (if errors_is werr ErrCAS then wrap_err ''ops: destroy lost a race (retry)'' werr else werr) in
      if wSettled w then (Inl failed, w)
      else case settleReads claimSettleReads db branch sentEtag w of
        (Inl e, w1) \<Rightarrow> (Inl failed, w1)
      | (Inr (cur, etag), w1) \<Rightarrow>
          if etag = sentEtag
          then (Inl (wrap_err ''ops: the claim write got no verdict and may still land'' failed), w1)
          else if \<not> rDeleting cur \<or> rDeletingAt cur \<noteq> rDeletingAt claimed then (Inl failed, w1)
          else if \<not> onlyRenewed claimed cur
          then (Inl (errCAS ''ops: destroy lost a race to another write of its ref (retry)''),
                unwindDeletingClaim db branch (rDeletingAt claimed) w1)
          else if \<not> force \<and> LeaseLive cur now
          then (Inl destroyLeaseRefusal, unwindDeletingClaim db branch (rDeletingAt claimed) w1)
          else (Inr etag, w1))"

text \<open>The attempts of \<^verbatim>\<open>deleteClaimedRef\<close> left, and the clock at each re-read.\<close>

fun deleteAttempts ::
  "nat \<Rightarrow> string \<Rightarrow> string \<Rightarrow> ref \<Rightarrow> etag \<Rightarrow> bool \<Rightarrow> (nat \<Rightarrow> int) \<Rightarrow> world \<Rightarrow> err option \<times> world" where
  "deleteAttempts left db branch claimed etag force clk w =
     (case DeleteRefIf db branch etag w of
        (None, w1) \<Rightarrow> (None, w1)
      | (Some e, w1) \<Rightarrow>
          if \<not> errors_is e ErrCAS then (Some e, w1)
          else
            let lost = wrap_err ''ops: destroy lost a race to another write of its ref (retry)'' e in
            (case left of
               0 \<Rightarrow> (Some lost, w1)
             | Suc n \<Rightarrow>
                 (case GetRef db branch w1 of
                    (Inl ge, w2) \<Rightarrow> (Some lost, w2)
                  | (Inr (cur, curEtag), w2) \<Rightarrow>
                      if \<not> onlyRenewed claimed cur then (Some lost, w2)
                      else if \<not> force \<and> LeaseLive cur (clk n) then (Some destroyLeaseRefusal, w2)
                      else deleteAttempts n db branch claimed curEtag force clk w2)))"

declare deleteAttempts.simps [simp del]

definition deleteClaimedRef ::
  "string \<Rightarrow> string \<Rightarrow> ref \<Rightarrow> etag \<Rightarrow> bool \<Rightarrow> (nat \<Rightarrow> int) \<Rightarrow> world \<Rightarrow> err option \<times> world" where
  "deleteClaimedRef db branch claimed etag force clk w =
     deleteAttempts (destroyDeleteAttempts - 1) db branch claimed etag force clk w"

text \<open>The clock readings of one \<^verbatim>\<open>Destroy\<close>, and its checkout: none, quiesced, or in use.\<close>

record destroyEnv =
  dLeaseNow :: int
  dClaimNow :: int
  dStamp :: int
  dLandedNow :: int
  dMarginNow :: int
  dDeleteNow :: "nat \<Rightarrow> int"
  dQuiesce :: "err option"

definition claimedRef :: "int \<Rightarrow> ref \<Rightarrow> ref" where
  "claimedRef stamp r = r\<lparr>rDeleting := True, rDeletingAt := At stamp\<rparr>"

definition destroyRefusal :: "destroyEnv \<Rightarrow> bool \<Rightarrow> ref \<Rightarrow> err option" where
  "destroyRefusal env force r =
     (if rProtected r \<and> \<not> force then Some (plain_err ''ops: protected; use --force'')
      else if rLeaseHolder r \<noteq> [] \<and> \<not> force \<and>
              (case parseStamp (rLeaseExpiry r) of None \<Rightarrow> False | Some exp \<Rightarrow> dLeaseNow env < exp)
      then Some destroyLeaseRefusal
      else if liveDeleteClaim r (dClaimNow env)
      then Some (Err ''ops: already being destroyed'' [ErrDeleting])
      else None)"

text \<open>What follows the claim: quiesce, the claim's remaining time, the delete.\<close>

definition destroyClaimed ::
  "destroyEnv \<Rightarrow> string \<Rightarrow> string \<Rightarrow> bool \<Rightarrow> ref \<Rightarrow> etag \<Rightarrow> world \<Rightarrow> err option \<times> world" where
  "destroyClaimed env db branch force claimed claimEtag w =
     (case dQuiesce env of
        Some e \<Rightarrow>
          (Some (wrap_err ''ops: checkout in use; close connections before destroy'' e),
           unwindDeletingClaim db branch (rDeletingAt claimed) w)
      | None \<Rightarrow>
          if \<not> liveDeleteClaim claimed (dMarginNow env + deleteClaimMargin)
          then (Some (errCAS ''ops: destroy was held up too long to delete under its claim (retry)''),
                unwindDeletingClaim db branch (rDeletingAt claimed) w)
          else
            (case deleteClaimedRef db branch claimed claimEtag force (dDeleteNow env) w of
               (Some e, w1) \<Rightarrow> (Some e, unwindDeletingClaim db branch (rDeletingAt claimed) w1)
             | (None, w1) \<Rightarrow> (None, w1)))"

definition Destroy :: "destroyEnv \<Rightarrow> string \<Rightarrow> string \<Rightarrow> bool \<Rightarrow> world \<Rightarrow> err option \<times> world" where
  "Destroy env db branch force w =
     (case ValidateName db of
        Some e \<Rightarrow> (Some e, w)
      | None \<Rightarrow>
     (case ValidateName branch of
        Some e \<Rightarrow> (Some e, w)
      | None \<Rightarrow>
     (case GetRef db branch w of
        (Inl e, w1) \<Rightarrow> (Some e, w1)
      | (Inr (r, etag), w1) \<Rightarrow>
          (case destroyRefusal env force r of
             Some e \<Rightarrow> (Some e, w1)
           | None \<Rightarrow>
               let claimed = claimedRef (dStamp env) r in
               (case PutRef db branch claimed etag w1 of
                  (Inr claimEtag, w2) \<Rightarrow> destroyClaimed env db branch force claimed claimEtag w2
                | (Inl e, w2) \<Rightarrow>
                    (case landedClaim db branch claimed etag force e (dLandedNow env) w2 of
                       (Inl e', w3) \<Rightarrow> (Some e', w3)
                     | (Inr claimEtag, w3) \<Rightarrow>
                         destroyClaimed env db branch force claimed claimEtag w3))))))"

section \<open>The janitor\<close>

text \<open>One branch of \<^verbatim>\<open>ClearStaleDeleteClaims\<close>: whether it was cleared, and an error.\<close>

definition clearStaleOne :: "int \<Rightarrow> string \<Rightarrow> string \<Rightarrow> world \<Rightarrow> (bool \<times> err option) \<times> world" where
  "clearStaleOne now db branch w =
     (case GetRef db branch w of
        (Inl e, w1) \<Rightarrow>
          if errors_is e ErrNotFound then ((False, None), w1)
          else ((False, Some (wrap_err ''clear stale delete claim'' e)), w1)
      | (Inr (r, etag), w1) \<Rightarrow>
          if \<not> rDeleting r then ((False, None), w1)
          else
            (case parseStamp (rDeletingAt r) of
               None \<Rightarrow> ((False, None), w1)
             | Some at \<Rightarrow>
                 if deleteClaimFresh at now then ((False, None), w1)
                 else
                   (case PutRef db branch (r\<lparr>rDeleting := False, rDeletingAt := NoStamp\<rparr>) etag w1 of
                      (Inl e, w2) \<Rightarrow>
                        if errors_is e ErrCAS then ((False, None), w2)
                        else ((False, Some (wrap_err ''clear stale delete claim'' e)), w2)
                    | (Inr _, w2) \<Rightarrow> ((True, None), w2))))"

text \<open>A pass over every branch in order, collecting names and the first error.\<close>

fun passOver ::
  "(string \<Rightarrow> string \<Rightarrow> world \<Rightarrow> (bool \<times> err option) \<times> world) \<Rightarrow> (string \<times> string) list \<Rightarrow>
   string list \<Rightarrow> err option \<Rightarrow> world \<Rightarrow> (string list \<times> err option) \<times> world" where
  "passOver one [] done firstErr w = ((done, firstErr), w)"
| "passOver one ((db, b) # rest) done firstErr w =
     (case one db b w of
        ((ok, e), w1) \<Rightarrow>
          passOver one rest (if ok then done @ [db @ ''@'' @ b] else done)
            (case firstErr of None \<Rightarrow> e | Some f \<Rightarrow> Some f) w1)"

definition branchesOf :: "string list byname \<Rightarrow> (string \<times> string) list" where
  "branchesOf m = concat (map (\<lambda>(db, bs). map (Pair db) (sort bs)) m)"

definition ClearStaleDeleteClaims :: "int \<Rightarrow> world \<Rightarrow> (string list \<times> err option) \<times> world" where
  "ClearStaleDeleteClaims now w =
     (case ListRefs w of
        (Inl e, w1) \<Rightarrow> (([], Some e), w1)
      | (Inr refs, w1) \<Rightarrow> passOver (clearStaleOne now) (branchesOf refs) [] None w1)"

section \<open>A destroy deletes only its own claim\<close>

text \<open>The content is the claim this call wrote, or that claim with only its lease renewed.\<close>

definition underClaim :: "ref \<Rightarrow> bool \<Rightarrow> int set \<Rightarrow> content \<Rightarrow> bool" where
  "underClaim claimed force nows c \<longleftrightarrow>
     c = marshalRef claimed \<or>
     (\<exists>cur now. decodeRef c = Inr cur \<and> onlyRenewed claimed cur \<and> now \<in> nows \<and>
        (force \<or> \<not> LeaseLive cur now))"

lemma underClaim_mono: "underClaim claimed force A c \<Longrightarrow> A \<subseteq> B \<Longrightarrow> underClaim claimed force B c"
  by (auto simp: underClaim_def)

lemma deleteAttempts_None:
  assumes "deleteAttempts left db b claimed t force clk w = (None, w')" "wCondDelete w"
    "\<And>c. t = ETagOf c \<Longrightarrow> underClaim claimed force nows c" "range clk \<subseteq> nows"
  shows "\<exists>s c. map_of s (RefKey db b) = Some c \<and> underClaim claimed force nows c \<and>
    wObjs w' = mdel (RefKey db b) s"
  using assms
proof (induction left arbitrary: t w)
  case 0
  then show ?case
    by (subst (asm) deleteAttempts.simps)
       (auto split: prod.splits option.splits if_splits dest!: DeleteRefIf_None)
next
  case (Suc n)
  show ?case
  proof (cases "DeleteRefIf db b t w")
    case (Pair x w1)
    show ?thesis
    proof (cases x)
      case None
      with Pair Suc.prems have "w' = w1" by (subst (asm) deleteAttempts.simps) simp
      then show ?thesis using DeleteRefIf_None Pair None Suc.prems by blast
    next
      case (Some e)
      then obtain cur t' w2 where g: "GetRef db b w1 = (Inr (cur, t'), w2)" "onlyRenewed claimed cur"
        "force \<or> \<not> LeaseLive cur (clk n)"
        "deleteAttempts n db b claimed t' force clk w2 = (None, w')"
        using Suc.prems(1) Pair
        by (subst (asm) deleteAttempts.simps) (auto simp: Let_def split: prod.splits sum.splits if_splits)
      have "wCondDelete w2"
        using caps_DeleteRefIf [OF Pair] caps_eqs(1) [OF g(1)] Suc.prems(2) by (simp add: caps_def)
      moreover have "underClaim claimed force nows c" if "t' = ETagOf c" for c
        using GetRef_Inr [OF g(1)] that g(2,3) Suc.prems(4) unfolding underClaim_def
        by (metis etag.inject(1) rangeI subsetD)
      ultimately show ?thesis using Suc.IH [OF g(4)] Suc.prems(4) by blast
    qed
  qed
qed

definition destroyTimes :: "destroyEnv \<Rightarrow> int set" where
  "destroyTimes env = insert (dLandedNow env) (range (dDeleteNow env))"

lemma destroyClaimed_None:
  assumes "destroyClaimed env db b force claimed t w = (None, w')" "wCondDelete w"
    "\<And>c. t = ETagOf c \<Longrightarrow> underClaim claimed force (destroyTimes env) c"
  shows "\<exists>s c. map_of s (RefKey db b) = Some c \<and> underClaim claimed force (destroyTimes env) c \<and>
    wObjs w' = mdel (RefKey db b) s"
  using assms
  by (auto simp: destroyClaimed_def deleteClaimedRef_def destroyTimes_def
      split: option.splits if_splits prod.splits intro!: deleteAttempts_None)

lemma settleReads_Inr:
  assumes "settleReads n db b sent w = (Inr (cur, t), w')"
  obtains w0 where "GetRef db b w0 = (Inr (cur, t), w')" "caps w' = caps w"
  using assms
proof (induction n arbitrary: w thesis)
  case 0
  then show ?case using caps_eqs(1) by fastforce
next
  case (Suc n)
  obtain x w1 where g: "GetRef db b w = (x, w1)" by (cases "GetRef db b w")
  have c: "caps w1 = caps w" using caps_eqs(1) [OF g] .
  show ?case
  proof (cases "settleReads n db b sent w1 = (Inr (cur, t), w') \<and> caps w' \<noteq> caps w")
    case True
    then show ?thesis using Suc.IH [of w1] c by metis
  next
    case False
    then show ?thesis
      using Suc g c by (auto split: sum.splits prod.splits if_splits)
  qed
qed

lemma landedClaim_Inr:
  assumes "landedClaim db b claimed sent force werr now w = (Inr t, w')"
  shows "caps w' = caps w" "t = ETagOf c \<Longrightarrow> now \<in> nows \<Longrightarrow> underClaim claimed force nows c"
proof -
  obtain cur where s: "settleReads claimSettleReads db b sent w = (Inr (cur, t), w')"
    "onlyRenewed claimed cur" "force \<or> \<not> LeaseLive cur now"
    using assms by (auto simp: landedClaim_def Let_def split: if_splits prod.splits sum.splits)
  then obtain w0 where g: "GetRef db b w0 = (Inr (cur, t), w')" "caps w' = caps w"
    using settleReads_Inr by blast
  show "caps w' = caps w" by (rule g(2))
  assume "t = ETagOf c" "now \<in> nows"
  then show "underClaim claimed force nows c"
    using GetRef_Inr [OF g(1)] s(2,3) unfolding underClaim_def by (metis etag.inject(1))
qed

lemma Destroy_None:
  assumes "Destroy env db b force w = (None, w')" "wCondDelete w"
  shows "\<exists>s c r. map_of s (RefKey db b) = Some c \<and> destroyRefusal env force r = None \<and>
    underClaim (claimedRef (dStamp env) r) force (destroyTimes env) c \<and> wObjs w' = mdel (RefKey db b) s"
proof -
  obtain r t w1 where g: "GetRef db b w = (Inr (r, t), w1)" "destroyRefusal env force r = None"
    using assms(1) by (auto simp: Destroy_def split: option.splits prod.splits sum.splits)
  define claimed where "claimed = claimedRef (dStamp env) r"
  have stamped: "stampRef claimed = claimed"
  proof -
    obtain c where "decodeRef c = Inr r" using GetRef_Inr [OF g(1)] by metis
    then have "stampRef r = r" by (auto simp: decodeRef_def dest: decodeWire_stamped split: content.splits)
    then show ?thesis
      unfolding claimed_def claimedRef_def stampRef_def Let_def
      by (cases r) (auto split: if_splits)
  qed
  obtain x w2 where p: "PutRef db b claimed t w1 = (x, w2)" by (cases "PutRef db b claimed t w1")
  have caps: "wCondDelete w2"
    using caps_eqs(1) [OF g(1)] caps_eqs(2) [OF p] assms(2) by (simp add: caps_def)
  have "\<exists>s c. map_of s (RefKey db b) = Some c \<and> underClaim claimed force (destroyTimes env) c \<and>
    wObjs w' = mdel (RefKey db b) s"
  proof (cases x)
    case (Inr ct)
    have "destroyClaimed env db b force claimed ct w2 = (None, w')"
      using assms(1) g p Inr by (simp add: Destroy_def Let_def claimed_def split: option.splits)
    moreover have "underClaim claimed force (destroyTimes env) c" if "ct = ETagOf c" for c
      using PutRef_Inr(3) [OF p [unfolded Inr]] that stamped by (simp add: underClaim_def)
    ultimately show ?thesis using destroyClaimed_None caps by blast
  next
    case (Inl e)
    then obtain ct w3 where l: "landedClaim db b claimed t force e (dLandedNow env) w2 = (Inr ct, w3)"
      "destroyClaimed env db b force claimed ct w3 = (None, w')"
      using assms(1) g p by (auto simp: Destroy_def Let_def claimed_def split: option.splits prod.splits sum.splits)
    have "wCondDelete w3" using landedClaim_Inr(1) [OF l(1)] caps by (simp add: caps_def)
    moreover have "underClaim claimed force (destroyTimes env) c" if "ct = ETagOf c" for c
      using landedClaim_Inr(2) [OF l(1) that] by (simp add: destroyTimes_def)
    ultimately show ?thesis using destroyClaimed_None l(2) by blast
  qed
  then show ?thesis using g(2) unfolding claimed_def by blast
qed

section \<open>Properties\<close>


definition sampleDestroy :: destroyEnv where
  "sampleDestroy = \<lparr>dLeaseNow = 1000, dClaimNow = 1000, dStamp = 1000, dLandedNow = 1000, dMarginNow = 1001,
     dDeleteNow = (\<lambda>_. 1002), dQuiesce = None\<rparr>"


text \<open>C38: An undisturbed destroy of a branch that nothing protects succeeds and removes exactly the
  branch's ref, provided the checkout can be quiesced and the claim is still fresh when the deletion
  starts. No claim is left behind and no other object changes.\<close>

theorem Destroy_succeeds:
  assumes "quiet w" "valid_name db" "valid_name b" "refAt (wObjs w) db b = Some r"
    "destroyRefusal env force r = None" "dQuiesce env = None"
    "liveDeleteClaim (claimedRef (dStamp env) r) (dMarginNow env + deleteClaimMargin)"
  shows "Destroy env db b force w = (None, w\<lparr>wObjs := mdel (RefKey db b) (wObjs w)\<rparr>)"
proof -
  let ?c = "claimedRef (dStamp env) r" and ?k = "RefKey db b"
  obtain c where g: "GetRef db b w = (Inr (r, ETagOf c), w)" and c: "map_of (wObjs w) ?k = Some c"
    using GetRef_found [OF assms(1-4)] by blast
  let ?m = "marshalRef (stampRef ?c)"
  let ?w = "w\<lparr>wObjs := mput ?k ?m (wObjs w)\<rparr>"
  have path: "localPath ?k = None" by (rule localPath_RefKey [OF assms(2,3)])
  have put: "PutRef db b ?c (ETagOf c) w = (Inr (ETagOf ?m), ?w)"
    using assms(1-3) path c by (simp add: PutRef_def quiet_calls localPutIf_def etagOf_def)
  have "DeleteRefIf db b (ETagOf ?m) ?w = (None, ?w\<lparr>wObjs := mdel ?k (wObjs ?w)\<rparr>)"
    using assms(1) path
    by (simp add: DeleteRefIf_def bDeleteIf_def bDelete_def localDeleteIf_def localDelete_def map_of_mput etagOf_def)
  then have "deleteClaimedRef db b ?c (ETagOf ?m) force clk ?w = (None, w\<lparr>wObjs := mdel ?k (wObjs w)\<rparr>)" for clk
    unfolding deleteClaimedRef_def deleteAttempts.simps [of "destroyDeleteAttempts - 1"]
    by (simp add: mdel_mput)
  then show ?thesis using assms(2,3,5-7) g put by (simp add: Destroy_def destroyClaimed_def)
qed

theorem Destroy_succeeds_witness:
  "Destroy sampleDestroy ''app'' ''work'' False sampleWorld =
     (None, sampleWorld\<lparr>wObjs := mdel (RefKey ''app'' ''work'') sampleStore\<rparr>)"
proof -
  have "valid_name ''app''" "valid_name ''work''" "refAt (wObjs sampleWorld) ''app'' ''work'' = Some sampleRef"
    "destroyRefusal sampleDestroy False sampleRef = None" "dQuiesce sampleDestroy = None"
    "liveDeleteClaim (claimedRef (dStamp sampleDestroy) sampleRef) (dMarginNow sampleDestroy + deleteClaimMargin)"
    by code_simp+
  from Destroy_succeeds [OF sampleWorld_quiet this] show ?thesis by (simp add: sampleWorld_def)
qed

end
