(* ===== verification/Resolution.thy ===== *)
theory Resolution
  imports Chain
begin

text \<open>
  Facts about chain resolution: a returned chain is complete and contiguous, its members are
  live objects of the lineage or its ancestors, and it does not change when a fenced writer's
  object appears, when objects above the target appear, or when objects outside it go away.
\<close>

section \<open>A returned chain has no hole\<close>

fun contiguousFrom :: "u64 \<Rightarrow> chainMember list \<Rightarrow> bool" where
  "contiguousFrom p [] \<longleftrightarrow> True"
| "contiguousFrom p (m # ms) \<longleftrightarrow> \<not> cmSnapshot m \<and> cmMin m = p + 1 \<and> contiguousFrom (cmMax m) ms"

text \<open>A snapshot, then segments each starting right after the one before, ending at the target.\<close>

definition chainOk :: "u64 \<Rightarrow> chainMember list \<Rightarrow> bool" where
  "chainOk target ms \<longleftrightarrow>
     (case ms of [] \<Rightarrow> False
      | b # segs \<Rightarrow> cmSnapshot b \<and> contiguousFrom (cmMax b) segs \<and> cmMax (last ms) = target)"

lemma contiguousFrom_append:
  "xs \<noteq> [] \<Longrightarrow> contiguousFrom p (xs @ ys) \<longleftrightarrow>
     contiguousFrom p xs \<and> contiguousFrom (cmMax (last xs)) ys"
  by (induction xs arbitrary: p) (auto simp: neq_Nil_conv)

lemma map_sum_Inr [simp]: "map_sum id f x = Inr y \<longleftrightarrow> (\<exists>z. x = Inr z \<and> y = f z)"
  by (cases x) auto

lemma map_sum_Inl [simp]: "map_sum id f x = Inl e \<longleftrightarrow> x = Inl e"
  by (cases x) auto

lemma selfWalk_sound:
  assumes "selfWalk t p segs = Inr r" "\<forall>s \<in> set segs. \<not> cmSnapshot s"
  shows "r \<noteq> [] \<and> contiguousFrom p r \<and> cmMax (last r) = t \<and> set r \<subseteq> set segs"
  using assms
  by (induction t p segs arbitrary: r rule: selfWalk.induct) (fastforce split: if_splits)+

lemma rangeWalk_sound:
  assumes "rangeWalk lo hi p segs = Inr r" "\<forall>s \<in> set segs. \<not> cmSnapshot s"
  shows "r \<noteq> [] \<and> contiguousFrom p r \<and> cmMax (last r) = hi \<and> set r \<subseteq> set segs"
  using assms
  by (induction lo hi p segs arbitrary: r rule: rangeWalk.induct) (fastforce split: if_splits)+

lemma find_rev_Some:
  "List.find P (rev xs) = Some x \<Longrightarrow> x \<in> set xs \<and> P x"
  by (auto simp: find_Some_iff) (metis nth_mem set_rev length_rev)

lemma resolveSelf_sound:
  assumes "resolveSelf t sn sg = Inr r" "\<forall>s \<in> set sn. cmSnapshot s" "\<forall>s \<in> set sg. \<not> cmSnapshot s"
  shows "chainOk t r" "set r \<subseteq> set sn \<union> set sg"
  using assms
  by (auto simp: resolveSelf_def chainOk_def split: option.splits if_splits
      dest!: find_rev_Some selfWalk_sound)

lemma splitMembers_kinds:
  "splitMembers ms = (sn, sg) \<Longrightarrow> (\<forall>s \<in> set sn. cmSnapshot s) \<and> (\<forall>s \<in> set sg. \<not> cmSnapshot s) \<and>
     set sn \<union> set sg = set ms"
  by (auto simp: splitMembers_def)

lemma listMembers_kinds:
  "listMembers v l = Inr (sn, sg) \<Longrightarrow> (\<forall>s \<in> set sn. cmSnapshot s) \<and> (\<forall>s \<in> set sg. \<not> cmSnapshot s)"
  using splitMembers_kinds by (fastforce simp: listMembers_def split: sum.splits)

lemma chainOk_append:
  assumes "chainOk b ps" "segs \<noteq> []" "contiguousFrom b segs" "cmMax (last segs) = t"
  shows "chainOk t (ps @ segs)"
proof (cases ps)
  case (Cons x xs)
  have "contiguousFrom (cmMax x) (xs @ segs)"
    using assms Cons by (cases "xs = []") (auto simp: chainOk_def contiguousFrom_append)
  then show ?thesis using assms Cons by (simp add: chainOk_def)
qed (use assms in \<open>simp add: chainOk_def\<close>)

section \<open>Resolution as a relation\<close>

text \<open>The ways \<^verbatim>\<open>chainFrom\<close> can return a chain: in a lineage with no base; wholly in the base,
  at or below the fork point; in the lineage's own objects above it; or across the seam.\<close>

inductive resolves :: "view \<Rightarrow> string \<Rightarrow> u64 \<Rightarrow> string list \<Rightarrow> chainMember list \<Rightarrow> bool"
  for v where
  Self: "resolves v l t seen ms"
    if "lineageBase v l = Inr None" "listMembers v l = Inr (sn, sg)" "resolveSelf t sn sg = Inr ms"
| Below: "resolves v l t seen ms"
    if "lineageBase v l = Inr (Some b)" "bpLineage b \<notin> set seen" "t \<le> bpTXID b"
      "resolves v (bpLineage b) t (bpLineage b # seen) ms"
| Own: "resolves v l t seen ms"
    if "lineageBase v l = Inr (Some b)" "bpLineage b \<notin> set seen" "t > bpTXID b"
      "listMembers v l = Inr (sn, sg)" "resolveSelf t sn sg = Inr ms"
| Seam: "resolves v l t seen (ps @ cs)"
    if "lineageBase v l = Inr (Some b)" "bpLineage b \<notin> set seen" "t > bpTXID b"
      "listMembers v l = Inr (sn, sg)" "resolveSelf t sn sg = Inl e"
      "errors_is e ErrNoSnapshotCoversTarget"
      "resolves v (bpLineage b) (bpTXID b) (bpLineage b # seen) ps"
      "resolveRange (bpTXID b) t sg = Inr cs" "ps \<noteq> []" "cmMax (last ps) = bpTXID b"

lemma chainFrom_resolves: "chainFrom v l t seen = Inr ms \<Longrightarrow> resolves v l t seen ms"
proof (induction v l t seen arbitrary: ms rule: chainFrom.induct)
  case (1 v l t seen)
  note eq = 1(3) [unfolded chainFrom.simps [of v l]]
  show ?case
  proof (cases "lineageBase v l")
    case (Inr ob)
    note base = Inr
    show ?thesis
    proof (cases ob)
      case None
      then show ?thesis
        using eq base by (auto simp: chainSelf_def split: sum.splits intro: Self)
    next
      case (Some b)
      note base = base [unfolded Some]
      have fresh: "bpLineage b \<notin> set seen" using eq base by (auto split: if_splits)
      show ?thesis
      proof (cases "t \<le> bpTXID b")
        case True
        then show ?thesis using eq base fresh 1(1) by (auto intro: Below)
      next
        case False
        then obtain sn sg where lm: "listMembers v l = Inr (sn, sg)"
          using eq base fresh by (auto split: sum.splits)
        show ?thesis
        proof (cases "resolveSelf t sn sg")
          case (Inr r)
          then show ?thesis using eq base fresh False lm by (auto intro: Own)
        next
          case (Inl e)
          then obtain ps cs where "chainFrom v (bpLineage b) (bpTXID b) (bpLineage b # seen) = Inr ps"
            "resolveRange (bpTXID b) t sg = Inr cs" "ms = ps @ cs" "ps \<noteq> []" "cmMax (last ps) = bpTXID b"
            "errors_is e ErrNoSnapshotCoversTarget"
            using eq base fresh False lm by (auto split: if_splits sum.splits)
          moreover from this have "resolves v (bpLineage b) (bpTXID b) (bpLineage b # seen) ps"
            using 1(2) base fresh False lm Inl by auto
          ultimately show ?thesis using base fresh False lm Inl by (auto intro: Seam)
        qed
      qed
    qed
  qed (use eq in simp)
qed

lemma resolves_chainFrom: "resolves v l t seen ms \<Longrightarrow> chainFrom v l t seen = Inr ms"
  by (induction rule: resolves.induct; subst chainFrom.simps)
     (simp_all add: chainSelf_def flip: not_le)

lemma Chain_iff: "Chain v l t = Inr ms \<longleftrightarrow> resolves v l t [l] ms"
  unfolding Chain_def using chainFrom_resolves resolves_chainFrom by blast

lemma resolves_sound: "resolves v l t seen ms \<Longrightarrow> chainOk t ms"
proof (induction rule: resolves.induct)
  case (Seam l b seen t sn sg e ps cs)
  then show ?case
    using listMembers_kinds [of v l sn sg] rangeWalk_sound [of "bpTXID b" t "bpTXID b" sg cs]
      chainOk_append [of "bpTXID b" ps cs t] by (simp add: resolveRange_def)
qed (auto dest: listMembers_kinds intro: resolveSelf_sound)

text \<open>The visited set matters only through lineages some base pointer names.\<close>

lemma resolves_seen:
  assumes "resolves v l t seen ms" "set seen' \<subseteq> set seen \<union> S"
    "\<And>x b. lineageBase v x = Inr (Some b) \<Longrightarrow> bpLineage b \<notin> S"
  shows "resolves v l t seen' ms"
  using assms
proof (induction arbitrary: seen' rule: resolves.induct)
  case (Below l b seen t ms)
  have "resolves v (bpLineage b) t (bpLineage b # seen') ms"
    using Below.prems by (intro Below.IH) auto
  with Below show ?case by (intro resolves.Below [OF Below(1)]) auto
next
  case (Own l b seen t sn sg ms)
  show ?case by (rule resolves.Own [OF Own(1)]) (use Own in auto)
next
  case (Seam l b seen t sn sg e ps cs)
  have "resolves v (bpLineage b) (bpTXID b) (bpLineage b # seen') ps"
    using Seam.prems by (intro Seam.IH) auto
  with Seam show ?case by (intro resolves.Seam [OF Seam(1)]) auto
qed (rule resolves.Self)

lemma resolves_seen_less: "resolves v l t seen ms \<Longrightarrow> set seen' \<subseteq> set seen \<Longrightarrow> resolves v l t seen' ms"
  by (rule resolves_seen [where S = "{}"]) auto

section \<open>Collapsing pass-through bases\<close>

lemma collapseFrom_resolves:
  assumes "collapseFrom v u l seen = Inr l'" "resolves v l t seen ms" "l \<in> set seen" "t \<le> u"
  shows "resolves v l' t [l'] ms"
  using assms
proof (induction v u l seen rule: collapseFrom.induct)
  case (1 v u l seen)
  show ?case
  proof (cases "l' = l")
    case True
    then show ?thesis using 1(3,4) by (auto intro: resolves_seen_less)
  next
    case False
    then obtain b where b: "lineageBase v l = Inr (Some b)" "u \<le> bpTXID b" "bpLineage b \<notin> set seen"
      "collapseFrom v u (bpLineage b) (bpLineage b # seen) = Inr l'"
      using 1(2) by (subst (asm) collapseFrom.simps) (auto split: sum.splits option.splits if_splits simp: not_less)
    have t: "t \<le> bpTXID b" using 1(5) b(2) by simp
    from 1(3) have "resolves v (bpLineage b) t (bpLineage b # seen) ms"
      using b(1) t by (cases rule: resolves.cases) (auto simp: not_le [symmetric])
    then show ?thesis using 1(1) 1(5) b by simp
  qed
qed

lemma Chain_CollapseBase_below:
  "Chain v l t = Inr ms \<Longrightarrow> CollapseBase v l u = Inr l' \<Longrightarrow> t \<le> u \<Longrightarrow> Chain v l' t = Inr ms"
  unfolding Chain_iff CollapseBase_def by (erule collapseFrom_resolves) auto

lemma Chain_CollapseBase:
  "Chain v l t = Inr ms \<Longrightarrow> CollapseBase v l t = Inr l' \<Longrightarrow> Chain v l' t = Inr ms"
  by (erule (1) Chain_CollapseBase_below) simp

text \<open>After collapsing, the lineage's own part begins below the transaction: no pure pass-through is left.\<close>

lemma collapseFrom_stops:
  "collapseFrom v t l seen = Inr l' \<Longrightarrow> lineageBase v l' = Inr (Some b) \<Longrightarrow> bpTXID b < t"
proof (induction v t l seen rule: collapseFrom.induct)
  case (1 v t l seen)
  show ?case
    using 1(2,3) 1(1) by (subst (asm) collapseFrom.simps) (auto split: sum.splits option.splits if_splits)
qed

section \<open>The base spine\<close>

fun spineOk :: "view \<Rightarrow> string \<Rightarrow> string list \<Rightarrow> bool" where
  "spineOk v l [] \<longleftrightarrow> lineageBase v l = Inr None"
| "spineOk v l (a # as) \<longleftrightarrow> (\<exists>b. lineageBase v l = Inr (Some b) \<and> bpLineage b = a) \<and> spineOk v a as"

lemma baseSpineFrom_ok:
  "baseSpineFrom v l seen = Inr as \<Longrightarrow> spineOk v l as \<and> distinct as \<and> set as \<inter> set seen = {}"
proof (induction v l seen arbitrary: as rule: baseSpineFrom.induct)
  case (1 v l seen)
  show ?case
    using 1(2) 1(1)
    by (subst (asm) baseSpineFrom.simps) (fastforce split: sum.splits option.splits if_splits)
qed

section \<open>Where the members of a chain come from\<close>

definition membersOf :: "view \<Rightarrow> string \<Rightarrow> chainMember list" where
  "membersOf v l = List.map_filter ParseMemberKey (localList (vObjs v) (LineagePrefix l))"

inductive ancestor :: "view \<Rightarrow> string \<Rightarrow> string \<Rightarrow> bool" for v where
  Refl: "ancestor v l l"
| Hop: "lineageBase v l = Inr (Some b) \<Longrightarrow> ancestor v (bpLineage b) a \<Longrightarrow> ancestor v l a"

definition liveIn :: "view \<Rightarrow> string \<Rightarrow> chainMember \<Rightarrow> bool" where
  "liveIn v l m \<longleftrightarrow> m \<in> set (keepHighestEpoch (membersOf v l))"

lemma listMembers_eq:
  "listMembers v l = Inr x \<Longrightarrow> x = splitMembers (keepHighestEpoch (membersOf v l))"
  by (auto simp: listMembers_def membersOf_def viewList_def split: sum.splits option.splits)

lemma listMembers_live:
  assumes "listMembers v l = Inr (sn, sg)"
  shows "set sn \<union> set sg = {m. liveIn v l m}"
  using splitMembers_kinds [OF listMembers_eq [OF assms, symmetric]] by (auto simp: liveIn_def)

lemma resolves_members:
  "resolves v l t seen ms \<Longrightarrow> m \<in> set ms \<Longrightarrow> \<exists>a. ancestor v l a \<and> liveIn v a m"
proof (induction rule: resolves.induct)
  case (Self l sn sg t ms seen)
  then have "set ms \<subseteq> set sn \<union> set sg"
    using resolveSelf_sound(2) listMembers_kinds by blast
  then show ?case using Self listMembers_live [of v l sn sg] by (auto intro: ancestor.Refl)
next
  case (Below l b seen t ms)
  then show ?case by (blast intro: ancestor.Hop)
next
  case (Own l b seen t sn sg ms)
  then have "set ms \<subseteq> set sn \<union> set sg"
    using resolveSelf_sound(2) listMembers_kinds by blast
  then show ?case using Own listMembers_live [of v l sn sg] by (auto intro: ancestor.Refl)
next
  case (Seam l b seen t sn sg e ps cs)
  have "set cs \<subseteq> set sn \<union> set sg"
    using Seam listMembers_kinds [of v l sn sg] rangeWalk_sound [of "bpTXID b" t "bpTXID b" sg cs]
    by (auto simp: resolveRange_def)
  then show ?case
    using Seam listMembers_live [of v l sn sg] by (auto intro: ancestor.intros)
qed

lemma membersOf_iff:
  "m \<in> set (membersOf v l) \<longleftrightarrow>
     cmKey m \<in> fst ` set (vObjs v) \<and> hasPrefix (cmKey m) (LineagePrefix l) \<and>
     \<not> listHidden (cmKey m) \<and> ParseMemberKey (cmKey m) = Some m"
proof -
  have "m \<in> set (membersOf v l) \<longleftrightarrow>
    (\<exists>k \<in> set (localList (vObjs v) (LineagePrefix l)). ParseMemberKey k = Some m)"
    by (force simp: membersOf_def List.map_filter_def)
  also have "\<dots> \<longleftrightarrow> cmKey m \<in> set (localList (vObjs v) (LineagePrefix l)) \<and> ParseMemberKey (cmKey m) = Some m"
    using ParseMemberKey_key by blast
  finally show ?thesis by (auto simp: localList_set)
qed

lemma liveIn_member: "liveIn v l m \<Longrightarrow> m \<in> set (membersOf v l)"
  unfolding liveIn_def by (rule khe_subset)

section \<open>A new lineage based on another\<close>

lemma resolves_local:
  assumes "resolves v l t seen ms"
    "\<And>a. ancestor v l a \<Longrightarrow> lineageBase v' a = lineageBase v a \<and> listMembers v' a = listMembers v a"
  shows "resolves v' l t seen ms"
  using assms
proof (induction rule: resolves.induct)
  case (Self l sn sg t ms seen)
  then show ?case using ancestor.Refl by (intro resolves.Self) auto
next
  case (Below l b seen t ms)
  have "resolves v' (bpLineage b) t (bpLineage b # seen) ms"
    using Below by (blast intro: ancestor.Hop)
  then show ?case using Below ancestor.Refl by (intro resolves.Below [of v' l b]) auto
next
  case (Own l b seen t sn sg ms)
  then show ?case using ancestor.Refl by (intro resolves.Own [of v' l b]) auto
next
  case (Seam l b seen t sn sg e ps cs)
  have "resolves v' (bpLineage b) (bpTXID b) (bpLineage b # seen) ps"
    using Seam by (blast intro: ancestor.Hop)
  then show ?case using Seam ancestor.Refl by (intro resolves.Seam [of v' l b]) auto
qed

lemma ancestor_target:
  "ancestor v l a \<Longrightarrow> a = l \<or> (\<exists>x b. lineageBase v x = Inr (Some b) \<and> bpLineage b = a)"
  by (induction rule: ancestor.induct) auto

section \<open>The worked store\<close>

lemma sampleStore_work: "Chain (viewOf sampleStore) ''l2'' 3 = Inr [snap1, seg2, seg3]"
  by code_simp

lemma sampleStore_main: "Chain (viewOf sampleStore) ''l2'' 2 = Inr [snap1, seg2]"
  by code_simp

section \<open>Properties\<close>

text \<open>C3: A resolved chain reconstructs exactly the target. It is one snapshot followed by segments, each
  starting at the transaction right after the one before it ended, and the last one ends at the
  target: no hole, no overlap, nothing beyond.\<close>

theorem Chain_sound:
  assumes "Chain v l t = Inr ms"
  shows "chainOk t ms"
  using assms resolves_sound by (simp add: Chain_iff)

theorem Chain_sound_witness: "chainOk 3 [snap1, seg2, seg3]"
  by (rule Chain_sound [OF sampleStore_work])


text \<open>C32: A fenced writer's objects are never read. Every member of a resolved chain is an object of the
  lineage or of one it is based on, and no member stored there for the same transactions was written
  under a higher epoch.\<close>

theorem Chain_reads_live:
  assumes "Chain v l t = Inr ms" "m \<in> set ms"
  shows "\<exists>a. ancestor v l a \<and> m \<in> set (membersOf v a) \<and>
    (\<forall>m' \<in> set (membersOf v a). sameBucket m m' \<longrightarrow> cmEpoch m' \<le> cmEpoch m)"
proof -
  obtain a where a: "ancestor v l a" "liveIn v a m"
    using assms resolves_members unfolding Chain_iff by blast
  have "cmEpoch m' \<le> cmEpoch m" if "m' \<in> set (membersOf v a)" "sameBucket m m'" for m'
    using khe_rank [of m "membersOf v a" m'] a(2) that by (auto simp: liveIn_def rank_def less_eq_prod_def)
  then show ?thesis using a liveIn_member by blast
qed

theorem Chain_reads_live_witness:
  "\<exists>a. ancestor (viewOf sampleStore) ''l2'' a \<and> seg2 \<in> set (membersOf (viewOf sampleStore) a)"
proof -
  have "seg2 \<in> set [snap1, seg2, seg3]" by simp
  then show ?thesis using Chain_reads_live [OF sampleStore_work] by blast
qed

text \<open>Collapsing a fork's base pointer loses nothing. Sharing the lineage \<^verbatim>\<open>CollapseBase\<close> answers,
  instead of the one the branch is on, resolves the same transaction to the same chain, and that
  lineage's own base, if it has one, is strictly below the shared transaction.\<close>

theorem CollapseBase_preserves:
  assumes "CollapseBase v l t = Inr l'" "Chain v l t = Inr ms"
  shows "Chain v l' t = Inr ms \<and> (\<forall>b. lineageBase v l' = Inr (Some b) \<longrightarrow> bpTXID b < t)"
  using assms Chain_CollapseBase collapseFrom_stops unfolding CollapseBase_def by blast

theorem CollapseBase_preserves_witness:
  "Chain (viewOf sampleStore) ''l1'' 2 = Inr [snap1, seg2]"
proof -
  have "CollapseBase (viewOf sampleStore) ''l2'' 2 = Inr ''l1''" by code_simp
  then show ?thesis using CollapseBase_preserves sampleStore_main by blast
qed

lemma spineOk_root: "spineOk v l as \<Longrightarrow> \<exists>a. ancestor v l a \<and> lineageBase v a = Inr None"
proof (induction as arbitrary: l)
  case (Cons a as)
  then obtain b where b: "lineageBase v l = Inr (Some b)" "bpLineage b = a" "spineOk v a as" by auto
  then obtain x where "ancestor v (bpLineage b) x" "lineageBase v x = Inr None" using Cons.IH by blast
  then show ?case using ancestor.Hop [OF b(1)] by blast
qed (auto intro: ancestor.Refl)

text \<open>C34: Walking base pointers ends, and a corrupt cycle is reported. When every lineage reached from
  \<^verbatim>\<open>l\<close> has a base in turn, so that the pointers can only run in a cycle, \<^verbatim>\<open>BaseSpine\<close> returns an error
  instead of walking forever.\<close>

theorem BaseSpine_reports_cycle:
  assumes "\<forall>a. ancestor v l a \<longrightarrow> (\<exists>b. lineageBase v a = Inr (Some b))"
  shows "\<exists>e. BaseSpine v l = Inl e"
proof (cases "BaseSpine v l")
  case (Inr as)
  then have "spineOk v l as" using baseSpineFrom_ok unfolding BaseSpine_def by blast
  then show ?thesis using spineOk_root assms by fastforce
qed simp

theorem BaseSpine_reports_cycle_witness:
  "\<exists>e. BaseSpine (viewOf [(''data/a/base.json'', CBase \<lparr>bpLineage = ''b'', bpTXID = 1\<rparr>),
                          (''data/b/base.json'', CBase \<lparr>bpLineage = ''a'', bpTXID = 1\<rparr>)]) ''a'' = Inl e"
    (is "\<exists>e. BaseSpine ?v _ = _")
proof -
  have a: "lineageBase ?v ''a'' = Inr (Some \<lparr>bpLineage = ''b'', bpTXID = 1\<rparr>)"
    and b: "lineageBase ?v ''b'' = Inr (Some \<lparr>bpLineage = ''a'', bpTXID = 1\<rparr>)"
    by code_simp+
  have "ancestor ?v l x \<Longrightarrow> l = ''a'' \<or> l = ''b'' \<Longrightarrow> x = ''a'' \<or> x = ''b''" for l x
    by (induction rule: ancestor.induct) (use a b in auto)
  then show ?thesis using BaseSpine_reports_cycle [of ?v "''a''"] a b by blast
qed

end
