(* ===== verification/Stability.thy ===== *)
theory Stability
  imports Resolution
begin

text \<open>
  A chain once resolvable stays the same chain: when objects above its target appear, when a
  fenced writer's object appears at a transaction the live writer already has, and when
  objects that are not members of it are deleted.  These are the facts the lease protocol,
  forks and the garbage collector rest on.
\<close>

section \<open>Sorted members are determined by their set\<close>

lemma sort_key_unique:
  assumes "distinct xs" "distinct ys" "set xs = set ys" "inj_on f (set xs)"
  shows "sort_key f xs = sort_key f ys"
proof (rule map_sorted_distinct_set_unique [of f])
  show "inj_on f (set (sort_key f xs) \<union> set (sort_key f ys))" using assms by simp
  show "distinct (map f (sort_key f xs))" "distinct (map f (sort_key f ys))"
    using assms by (simp_all add: distinct_map)
qed (use assms in auto)

lemma khe_inj_snapshots: "inj_on cmMax {m \<in> set (keepHighestEpoch ms). cmSnapshot m}"
  by (auto intro!: inj_onI khe_unique [of _ ms] simp: sameBucket_def collapsible_def)

lemma khe_inj_segments: "inj_on (\<lambda>m. (cmMax m, cmMin m)) {m \<in> set (keepHighestEpoch ms). \<not> cmSnapshot m}"
  by (auto intro!: inj_onI khe_unique [of _ ms] simp: sameBucket_def collapsible_def)

lemma splitMembers_agree:
  assumes "\<And>x. P x \<Longrightarrow> x \<in> set (keepHighestEpoch ms) \<longleftrightarrow> x \<in> set (keepHighestEpoch ms')"
    and "splitMembers (keepHighestEpoch ms) = (sn, sg)" "splitMembers (keepHighestEpoch ms') = (sn', sg')"
  shows "filter P sn = filter P sn' \<and> filter P sg = filter P sg'"
proof
  let ?A = "keepHighestEpoch ms" and ?B = "keepHighestEpoch ms'"
  have "sort_key cmMax (filter P (filter cmSnapshot ?A)) = sort_key cmMax (filter P (filter cmSnapshot ?B))"
  proof (rule sort_key_unique)
    show "inj_on cmMax (set (filter P (filter cmSnapshot ?A)))"
      by (rule inj_on_subset [OF khe_inj_snapshots [of ms]]) auto
  qed (use assms(1) khe_distinct in auto)
  then show "filter P sn = filter P sn'" using assms(2,3) by (auto simp: splitMembers_def filter_sort)
  have "sort_key (\<lambda>m. (cmMax m, cmMin m)) (filter P (filter (\<lambda>m. \<not> cmSnapshot m) ?A)) =
    sort_key (\<lambda>m. (cmMax m, cmMin m)) (filter P (filter (\<lambda>m. \<not> cmSnapshot m) ?B))"
  proof (rule sort_key_unique)
    show "inj_on (\<lambda>m. (cmMax m, cmMin m)) (set (filter P (filter (\<lambda>m. \<not> cmSnapshot m) ?A)))"
      by (rule inj_on_subset [OF khe_inj_segments [of ms]]) auto
  qed (use assms(1) khe_distinct in auto)
  then show "filter P sg = filter P sg'" using assms(2,3) by (auto simp: splitMembers_def filter_sort)
qed

lemma splitMembers_sorted:
  assumes "splitMembers ms = (sn, sg)"
  shows "sorted (map cmMax sn)" "sorted (map cmMax sg)"
proof -
  show "sorted (map cmMax sn)" using assms by (auto simp: splitMembers_def)
  have "sorted (map (\<lambda>m. (cmMax m, cmMin m)) sg)" using assms by (auto simp: splitMembers_def)
  then show "sorted (map cmMax sg)"
    unfolding sorted_map by (rule sorted_wrt_mono_rel [rotated]) (auto simp: less_eq_prod_def)
qed

section \<open>Resolution looks only at members up to the target\<close>

lemma sorted_filter_split:
  "sorted (map f xs) \<Longrightarrow> xs = filter (\<lambda>x. f x \<le> t) xs @ filter (\<lambda>x. \<not> f x \<le> t) xs"
proof (induction xs)
  case (Cons x xs)
  show ?case
  proof (cases "f x \<le> t")
    case False
    with Cons.prems have "\<forall>y \<in> set xs. \<not> f y \<le> t" by (auto dest: order_trans)
    then have "filter (\<lambda>x. f x \<le> t) xs = []" "filter (\<lambda>x. \<not> f x \<le> t) xs = xs"
      by (auto simp: filter_empty_conv filter_id_conv)
    with False show ?thesis by simp
  qed (use Cons in auto)
qed simp

lemma find_rev_filter: "List.find P (rev (filter P xs)) = List.find P (rev xs)"
  by (induction xs) (auto simp: find_append split: option.splits)

lemma selfWalk_all_above: "\<forall>y \<in> set ys. \<not> cmMax y \<le> t \<Longrightarrow> \<exists>e. selfWalk t p ys = Inl e"
  by (induction ys arbitrary: p) auto

lemma selfWalk_append_above:
  assumes "\<forall>y \<in> set ys. \<not> cmMax y \<le> t"
  shows "selfWalk t p (xs @ ys) = Inr r \<longleftrightarrow> selfWalk t p xs = Inr r"
proof (induction xs arbitrary: p r)
  case Nil
  show ?case using selfWalk_all_above [OF assms, of p] by auto
qed (use assms in auto)

lemma rangeWalk_all_above: "\<forall>y \<in> set ys. \<not> cmMax y \<le> hi \<Longrightarrow> \<exists>e. rangeWalk lo hi p ys = Inl e"
  by (induction ys arbitrary: p) auto

lemma rangeWalk_append_above:
  assumes "\<forall>y \<in> set ys. \<not> cmMax y \<le> hi"
  shows "rangeWalk lo hi p (xs @ ys) = Inr r \<longleftrightarrow> rangeWalk lo hi p xs = Inr r"
proof (induction xs arbitrary: p r)
  case Nil
  show ?case using rangeWalk_all_above [OF assms, of lo p] by auto
qed (use assms in auto)

lemma selfWalk_filter:
  assumes "sorted (map cmMax sg)"
  shows "selfWalk t p (filter (\<lambda>m. cmMax m \<le> t) sg) = Inr r \<longleftrightarrow> selfWalk t p sg = Inr r"
proof -
  let ?ys = "filter (\<lambda>m. \<not> cmMax m \<le> t) sg"
  have "selfWalk t p (filter (\<lambda>m. cmMax m \<le> t) sg @ ?ys) = Inr r \<longleftrightarrow>
    selfWalk t p (filter (\<lambda>m. cmMax m \<le> t) sg) = Inr r"
    by (rule selfWalk_append_above) simp
  then show ?thesis by (simp only: sorted_filter_split [OF assms, symmetric])
qed

lemma rangeWalk_filter:
  assumes "sorted (map cmMax sg)"
  shows "rangeWalk lo hi p (filter (\<lambda>m. cmMax m \<le> hi) sg) = Inr r \<longleftrightarrow> rangeWalk lo hi p sg = Inr r"
proof -
  let ?ys = "filter (\<lambda>m. \<not> cmMax m \<le> hi) sg"
  have "rangeWalk lo hi p (filter (\<lambda>m. cmMax m \<le> hi) sg @ ?ys) = Inr r \<longleftrightarrow>
    rangeWalk lo hi p (filter (\<lambda>m. cmMax m \<le> hi) sg) = Inr r"
    by (rule rangeWalk_append_above) simp
  then show ?thesis by (simp only: sorted_filter_split [OF assms, symmetric])
qed

lemma resolveSelf_filter:
  assumes "sorted (map cmMax sg)"
  shows "resolveSelf t (filter (\<lambda>m. cmMax m \<le> t) sn) (filter (\<lambda>m. cmMax m \<le> t) sg) = Inr r \<longleftrightarrow>
    resolveSelf t sn sg = Inr r"
  using selfWalk_filter [OF assms] by (auto simp: resolveSelf_def find_rev_filter split: option.splits)

lemma selfWalk_err_plain: "selfWalk t p sg = Inl e \<Longrightarrow> \<not> errors_is e s"
  by (induction t p sg rule: selfWalk.induct) (auto split: if_splits)

lemma resolveSelf_noSnapshot:
  "(\<exists>e. resolveSelf t sn sg = Inl e \<and> errors_is e ErrNoSnapshotCoversTarget) \<longleftrightarrow>
     filter (\<lambda>m. cmMax m \<le> t) sn = []"
proof -
  have "List.find (\<lambda>m. cmMax m \<le> t) (rev sn) = None \<longleftrightarrow> filter (\<lambda>m. cmMax m \<le> t) sn = []"
    by (auto simp: find_None_iff filter_empty_conv)
  then show ?thesis
    by (auto simp: resolveSelf_def dest!: selfWalk_err_plain split: option.splits if_splits)
qed

section \<open>Views that agree up to a transaction\<close>

definition agreeBelow :: "u64 \<Rightarrow> view \<Rightarrow> view \<Rightarrow> bool" where
  "agreeBelow t v v' \<longleftrightarrow>
     (\<forall>l. lineage_ok l \<longrightarrow> lineageBase v' l = lineageBase v l) \<and>
     (\<forall>p. vFail v' p = vFail v p) \<and>
     (\<forall>l m. lineage_ok l \<and> cmMax m \<le> t \<longrightarrow> liveIn v' l m = liveIn v l m)"

text \<open>Every base pointer names a lineage that can exist.\<close>

definition basesOk :: "view \<Rightarrow> bool" where
  "basesOk v \<longleftrightarrow> (\<forall>l b. lineageBase v l = Inr (Some b) \<longrightarrow> lineage_ok (bpLineage b))"

lemma listMembers_agree:
  assumes "agreeBelow t v v'" "lineage_ok l" "listMembers v l = Inr (sn, sg)" "t' \<le> t"
  obtains sn' sg' where "listMembers v' l = Inr (sn', sg')"
    "filter (\<lambda>m. cmMax m \<le> t') sn' = filter (\<lambda>m. cmMax m \<le> t') sn"
    "filter (\<lambda>m. cmMax m \<le> t') sg' = filter (\<lambda>m. cmMax m \<le> t') sg"
    "sorted (map cmMax sg)" "sorted (map cmMax sg')"
proof -
  obtain sn' sg' where spl: "splitMembers (keepHighestEpoch (membersOf v' l)) = (sn', sg')"
    by (cases "splitMembers (keepHighestEpoch (membersOf v' l))")
  have lm: "listMembers v' l = Inr (sn', sg')"
    using assms spl by (auto simp: listMembers_def viewList_def membersOf_def agreeBelow_def split: option.splits)
  have eq: "splitMembers (keepHighestEpoch (membersOf v l)) = (sn, sg)"
    using listMembers_eq [OF assms(3)] by simp
  have "x \<in> set (keepHighestEpoch (membersOf v' l)) \<longleftrightarrow> x \<in> set (keepHighestEpoch (membersOf v l))"
    if "cmMax x \<le> t'" for x
    using assms(1,2,4) that by (auto simp: agreeBelow_def liveIn_def)
  from splitMembers_agree [of "\<lambda>m. cmMax m \<le> t'", OF this spl eq]
  show thesis using that lm splitMembers_sorted spl eq by blast
qed

lemma resolves_agree:
  assumes "resolves v l t' seen ms" "agreeBelow t v v'" "basesOk v" "lineage_ok l" "t' \<le> t"
  shows "resolves v' l t' seen ms"
  using assms
proof (induction rule: resolves.induct)
  case (Self l sn sg t' ms seen)
  obtain sn' sg' where lm: "listMembers v' l = Inr (sn', sg')"
    "filter (\<lambda>m. cmMax m \<le> t') sn' = filter (\<lambda>m. cmMax m \<le> t') sn"
    "filter (\<lambda>m. cmMax m \<le> t') sg' = filter (\<lambda>m. cmMax m \<le> t') sg"
    "sorted (map cmMax sg)" "sorted (map cmMax sg')"
    using Self listMembers_agree by blast
  then have "resolveSelf t' sn' sg' = Inr ms"
    using Self(3) resolveSelf_filter [of sg t' sn ms] resolveSelf_filter [of sg' t' sn' ms] by simp
  then show ?case using Self lm(1) by (auto simp: agreeBelow_def intro: resolves.Self)
next
  case (Below l b seen t' ms)
  then have "resolves v' (bpLineage b) t' (bpLineage b # seen) ms"
    by (auto simp: basesOk_def)
  moreover have "lineageBase v' l = Inr (Some b)" using Below by (simp add: agreeBelow_def)
  ultimately show ?case using Below by (intro resolves.Below [of v' l b]) auto
next
  case (Own l b seen t' sn sg ms)
  obtain sn' sg' where lm: "listMembers v' l = Inr (sn', sg')"
    "filter (\<lambda>m. cmMax m \<le> t') sn' = filter (\<lambda>m. cmMax m \<le> t') sn"
    "filter (\<lambda>m. cmMax m \<le> t') sg' = filter (\<lambda>m. cmMax m \<le> t') sg"
    "sorted (map cmMax sg)" "sorted (map cmMax sg')"
    using Own listMembers_agree by blast
  then have "resolveSelf t' sn' sg' = Inr ms"
    using Own(5) resolveSelf_filter [of sg t' sn ms] resolveSelf_filter [of sg' t' sn' ms] by simp
  moreover have "lineageBase v' l = Inr (Some b)" using Own by (simp add: agreeBelow_def)
  ultimately show ?case using Own lm(1) by (auto intro: resolves.Own)
next
  case (Seam l b seen t' sn sg e ps cs)
  obtain sn' sg' where lm: "listMembers v' l = Inr (sn', sg')"
    "filter (\<lambda>m. cmMax m \<le> t') sn' = filter (\<lambda>m. cmMax m \<le> t') sn"
    "filter (\<lambda>m. cmMax m \<le> t') sg' = filter (\<lambda>m. cmMax m \<le> t') sg"
    "sorted (map cmMax sg)" "sorted (map cmMax sg')"
    using Seam listMembers_agree by blast
  obtain e' where "resolveSelf t' sn' sg' = Inl e'" "errors_is e' ErrNoSnapshotCoversTarget"
    using Seam(5,6) lm(2) resolveSelf_noSnapshot [of t' sn sg] resolveSelf_noSnapshot [of t' sn' sg'] by auto
  moreover have "resolveRange (bpTXID b) t' sg' = Inr cs"
    using Seam lm rangeWalk_filter [of sg "bpTXID b" t' "bpTXID b" cs]
      rangeWalk_filter [of sg' "bpTXID b" t' "bpTXID b" cs] by (simp add: resolveRange_def)
  moreover have "resolves v' (bpLineage b) (bpTXID b) (bpLineage b # seen) ps"
    using Seam by (intro Seam.IH) (auto simp: basesOk_def)
  moreover have "lineageBase v' l = Inr (Some b)" using Seam by (simp add: agreeBelow_def)
  ultimately show ?case using Seam lm(1) by (intro resolves.Seam [of v' l b]) auto
qed

section \<open>An object appears\<close>

definition addObj :: "key \<Rightarrow> content \<Rightarrow> view \<Rightarrow> view" where
  "addObj k c v = v\<lparr>vObjs := mput k c (vObjs v)\<rparr>"

lemma ParseMemberKey_file:
  assumes "ParseMemberKey k = Some m" "cutPrefix k ''data/'' = Some rest"
  shows "hasPrefix (last (splitOn CHR ''/'' rest)) ''s''"
proof -
  let ?parts = "splitOn CHR ''/'' rest"
  have len: "length ?parts = 3"
    and pre: "hasPrefix (?parts ! 2) ''snapshot-'' \<or> hasPrefix (?parts ! 2) ''segment-''"
    using assms by (auto simp: ParseMemberKey_def Let_def split: option.splits if_splits)
  have "hasPrefix (?parts ! 2) ''s''" using pre by (auto simp: hasPrefix_iff)
  moreover have "?parts ! 2 = last ?parts" using len by (subst last_conv_nth) auto
  ultimately show ?thesis by simp
qed

lemma ParseMemberKey_not_base:
  assumes "ParseMemberKey k = Some m"
  shows "k \<noteq> BaseKey l"
proof
  assume k: "k = BaseKey l"
  have "cutPrefix k ''data/'' = Some (l @ CHR ''/'' # ''base.json'')"
    unfolding k BaseKey_def using cutPrefix_append [of "''data/''" "l @ CHR ''/'' # ''base.json''"] by simp
  from ParseMemberKey_file [OF assms this] show False
    by (subst (asm) last_splitOn) (simp_all add: hasPrefix_Cons)
qed

lemma lineageBase_add: "ParseMemberKey k = Some m \<Longrightarrow> lineageBase (addObj k c v) l = lineageBase v l"
proof -
  assume "ParseMemberKey k = Some m"
  then have "viewGet (addObj k c v) (BaseKey l) = viewGet v (BaseKey l)"
    using ParseMemberKey_not_base [of k m l]
    by (auto simp: viewGet_def localGet_def addObj_def split: option.splits)
  then show ?thesis by (simp add: lineageBase_def)
qed

lemma mput_split: "k \<notin> fst ` set m \<Longrightarrow> \<exists>xs ys. m = xs @ ys \<and> mput k c m = xs @ (k, c) # ys"
proof (induction m)
  case (Cons p m)
  obtain a b where p: "p = (a, b)" by (cases p)
  show ?case
  proof (cases "k < a")
    case True
    then show ?thesis using p by (intro exI [of _ "[]"] exI [of _ "p # m"]) auto
  next
    case False
    obtain xs ys where "m = xs @ ys" "mput k c m = xs @ (k, c) # ys" using Cons by auto
    then show ?thesis using False Cons.prems p
      by (intro exI [of _ "(a, b) # xs"] exI [of _ ys]) auto
  qed
qed simp

lemma mput_keys_same: "msorted m \<Longrightarrow> k \<in> fst ` set m \<Longrightarrow> mkeys (mput k c m) = mkeys m"
proof (induction m)
  case (Cons p m)
  then show ?case by (cases p) auto
qed simp

lemma localList_filter:
  assumes "msorted s"
  shows "localList s p = filter (\<lambda>k. \<not> listHidden k \<and> hasPrefix k p) (mkeys s)"
  unfolding localList_def
  by (rule sorted_sort_id, rule sorted_wrt_filter, rule strict_sorted_imp_sorted, rule assms)

lemma membersOf_add:
  assumes "msorted (vObjs v)" "ParseMemberKey k = Some m"
  shows "membersOf (addObj k c v) l = membersOf v l \<or>
    (hasPrefix k (LineagePrefix l) \<and>
     (\<exists>xs ys. membersOf v l = xs @ ys \<and> membersOf (addObj k c v) l = xs @ m # ys))"
proof (cases "k \<in> fst ` set (vObjs v)")
  case True
  have "localList (mput k c (vObjs v)) (LineagePrefix l) = localList (vObjs v) (LineagePrefix l)"
    unfolding localList_def using mput_keys_same [OF assms(1) True, of c] by (simp only:)
  then show ?thesis by (simp add: membersOf_def addObj_def)
next
  case False
  let ?f = "\<lambda>ps. List.map_filter ParseMemberKey (filter (\<lambda>k. \<not> listHidden k \<and> hasPrefix k (LineagePrefix l)) (map fst ps))"
  obtain xs ys where xy: "vObjs v = xs @ ys" "mput k c (vObjs v) = xs @ (k, c) # ys"
    using mput_split [OF False, of c] by (elim exE conjE) (rule that)
  have eq: "membersOf v l = ?f (vObjs v)" "membersOf (addObj k c v) l = ?f (mput k c (vObjs v))"
    using assms(1) by (simp_all add: membersOf_def addObj_def localList_filter msorted_mput)
  have app: "?f (as @ bs) = ?f as @ ?f bs" for as bs :: objs
    by (simp add: List.map_filter_def)
  have one: "?f [(k, c)] = (if \<not> listHidden k \<and> hasPrefix k (LineagePrefix l) then [m] else [])"
    using assms(2) by (simp add: List.map_filter_def)
  have old: "membersOf v l = ?f xs @ ?f ys" unfolding eq(1) xy(1) by (rule app)
  have "?f (xs @ [(k, c)] @ ys) = ?f xs @ ?f [(k, c)] @ ?f ys" by (simp only: app)
  then have new: "membersOf (addObj k c v) l = ?f xs @ ?f [(k, c)] @ ?f ys"
    unfolding eq(2) xy(2) by (simp only: append_Cons append_Nil)
  show ?thesis
  proof (cases "\<not> listHidden k \<and> hasPrefix k (LineagePrefix l)")
    case True
    then have "membersOf (addObj k c v) l = ?f xs @ m # ?f ys" unfolding new one by (simp only: if_True) simp
    then show ?thesis using True old by blast
  next
    case False
    then have "membersOf (addObj k c v) l = membersOf v l" unfolding new one old by (simp only: if_False) simp
    then show ?thesis ..
  qed
qed

lemma liveIn_add:
  assumes "msorted (vObjs v)" "ParseMemberKey k = Some m" "hasPrefix k (LineagePrefix l) \<longrightarrow> \<not> sameBucket x m"
  shows "liveIn (addObj k c v) l x = liveIn v l x"
  using membersOf_add [OF assms(1,2), of c l] assms(3) by (auto simp: liveIn_def khe_iff)

lemma liveIn_add_dominated:
  assumes "msorted (vObjs v)" "ParseMemberKey k = Some m"
    "y \<in> set (membersOf v l)" "sameBucket m y" "rank m < rank y"
  shows "liveIn (addObj k c v) l x = liveIn v l x"
proof (cases "sameBucket x m")
  case True
  from membersOf_add [OF assms(1,2), of c l] show ?thesis
  proof (elim disjE conjE exE)
    fix xs ys
    assume m: "membersOf v l = xs @ ys" "membersOf (addObj k c v) l = xs @ m # ys"
    have "sameBucket x y" using True assms(4) by (auto simp: sameBucket_def)
    then have "firstMax rank (filter (sameBucket x) xs @ m # filter (sameBucket x) ys) =
      firstMax rank (filter (sameBucket x) xs @ filter (sameBucket x) ys)"
      using assms(3,5) m by (intro firstMax_insert_dominated [of y]) auto
    then show ?thesis using True m by (simp add: liveIn_def khe_iff)
  qed (simp add: liveIn_def)
next
  case False
  then show ?thesis using assms liveIn_add by blast
qed

lemma vFail_add [simp]: "vFail (addObj k c v) = vFail v"
  by (simp add: addObj_def)

lemma agreeBelow_add_above:
  assumes "msorted (vObjs v)" "ParseMemberKey k = Some m" "t < cmMax m"
  shows "agreeBelow t v (addObj k c v)"
proof -
  have "\<not> sameBucket x m" if "cmMax x \<le> t" for x
    using assms(3) that by (auto simp: sameBucket_def)
  then show ?thesis
    unfolding agreeBelow_def using lineageBase_add [OF assms(2)] liveIn_add [OF assms(1,2)] by simp
qed

lemma agreeBelow_add_dominated:
  assumes "msorted (vObjs v)" "ParseMemberKey k = Some m" "lineage_ok l" "hasPrefix k (LineagePrefix l)"
    "y \<in> set (membersOf v l)" "sameBucket m y" "rank m < rank y"
  shows "agreeBelow t v (addObj k c v)"
proof -
  have "liveIn (addObj k c v) l' x = liveIn v l' x" if ok: "lineage_ok l'" for l' x
  proof (cases "hasPrefix k (LineagePrefix l')")
    case True
    then have "l' = l"
      using lineageOfDataKey_hasPrefix [OF ok] lineageOfDataKey_hasPrefix [OF assms(3,4)] by simp
    then show ?thesis using liveIn_add_dominated assms by blast
  next
    case False
    then show ?thesis using liveIn_add [OF assms(1,2)] by blast
  qed
  then show ?thesis
    unfolding agreeBelow_def using lineageBase_add [OF assms(2)] by simp
qed

section \<open>Objects go away\<close>

definition keepView :: "(key \<Rightarrow> bool) \<Rightarrow> view \<Rightarrow> view" where
  "keepView P v = v\<lparr>vObjs := filter (\<lambda>p. P (fst p)) (vObjs v)\<rparr>"

lemma find_split:
  "List.find P xs = Some x \<Longrightarrow> \<exists>us vs. xs = us @ x # vs \<and> P x \<and> (\<forall>u \<in> set us. \<not> P u)"
proof (induction xs)
  case (Cons y ys)
  show ?case
  proof (cases "P y")
    case True
    with Cons.prems show ?thesis by (intro exI [of _ "[]"] exI [of _ ys]) auto
  next
    case False
    with Cons obtain us vs where "ys = us @ x # vs" "P x" "\<forall>u \<in> set us. \<not> P u" by auto
    with False show ?thesis by (intro exI [of _ "y # us"] exI [of _ vs]) auto
  qed
qed simp

lemma find_split_intro: "P x \<Longrightarrow> \<forall>u \<in> set us. \<not> P u \<Longrightarrow> List.find P (us @ x # vs) = Some x"
  by (induction us) auto

lemma firstMax_filter:
  assumes "firstMax f xs = Some x" "Q x"
  shows "firstMax f (filter Q xs) = Some x"
proof -
  obtain us vs where xs: "xs = us @ x # vs" "\<forall>y \<in> set xs. f y \<le> f x"
    and us: "\<forall>u \<in> set us. \<not> (\<forall>y \<in> set xs. f y \<le> f u)"
    using find_split [OF assms(1) [unfolded firstMax_def]] by blast
  have "f u < f x" if "u \<in> set us" for u
    using us that xs(2) by (meson not_le order_trans)
  then have "\<forall>u \<in> set (filter Q us). \<not> (\<forall>y \<in> set (filter Q xs). f y \<le> f u)"
    using assms(2) xs(1) by (auto simp: not_le)
  moreover have "filter Q xs = filter Q us @ x # filter Q vs" using xs(1) assms(2) by simp
  ultimately show ?thesis
    unfolding firstMax_def using xs(2) find_split_intro [of "\<lambda>x. \<forall>y \<in> set (filter Q xs). f y \<le> f x"]
    by (metis (mono_tags, lifting) filter_is_subset subsetD)
qed

lemma membersOf_keep:
  assumes "msorted (vObjs v)"
  shows "membersOf (keepView P v) l = filter (\<lambda>m. P (cmKey m)) (membersOf v l)"
proof -
  have "List.map_filter ParseMemberKey (filter Q (map fst (filter (\<lambda>p. P (fst p)) ps))) =
    filter (\<lambda>m. P (cmKey m)) (List.map_filter ParseMemberKey (filter Q (map fst ps)))" for Q and ps :: objs
    by (induction ps) (auto simp: List.map_filter_simps dest: ParseMemberKey_key split: option.splits)
  then show ?thesis
    using assms by (simp add: membersOf_def keepView_def localList_filter msorted_filter)
qed

lemma liveIn_keep:
  assumes "msorted (vObjs v)" "liveIn v l x" "P (cmKey x)"
  shows "liveIn (keepView P v) l x"
proof -
  have "filter (sameBucket x) (filter (\<lambda>m. P (cmKey m)) (membersOf v l)) =
    filter (\<lambda>m. P (cmKey m)) (filter (sameBucket x) (membersOf v l))"
    by (simp add: conj_commute)
  then show ?thesis
    using assms firstMax_filter [of rank "filter (sameBucket x) (membersOf v l)" x "\<lambda>m. P (cmKey m)"]
    unfolding liveIn_def khe_iff membersOf_keep [OF assms(1)] by (simp del: filter_filter)
qed

text \<open>A member that is live after the deletion was live before if the winner of its bucket stayed.\<close>

lemma liveIn_keep_back:
  assumes "msorted (vObjs v)" "liveIn (keepView P v) l x"
    "\<And>w. liveIn v l w \<Longrightarrow> sameBucket w x \<Longrightarrow> P (cmKey w)"
  shows "liveIn v l x"
proof -
  have "x \<in> set (membersOf v l)"
    using liveIn_member [OF assms(2)] by (simp add: membersOf_keep [OF assms(1)])
  then obtain w where w: "liveIn v l w" "sameBucket w x"
    unfolding liveIn_def using khe_exists by blast
  then have "liveIn (keepView P v) l w" using assms liveIn_keep by blast
  then have "w = x" using assms(2) w(2) khe_unique unfolding liveIn_def by blast
  then show ?thesis using w by simp
qed

section \<open>Walks over strictly sorted segments\<close>

lemma selfWalk_iff:
  assumes "sorted_wrt (<) (map cmMax sg)" "\<forall>s \<in> set sg. \<not> cmSnapshot s"
  shows "selfWalk t p sg = Inr r \<longleftrightarrow>
    r = filter (\<lambda>s. p < cmMax s \<and> cmMax s \<le> t) sg \<and> r \<noteq> [] \<and> contiguousFrom p r \<and> cmMax (last r) = t"
  using assms
proof (induction sg arbitrary: p r)
  case (Cons s sg)
  have above: "filter (\<lambda>s. p < cmMax s \<and> cmMax s \<le> t) sg = []" if "t \<le> cmMax s" for p
    using Cons.prems that by (auto simp: filter_empty_conv dest: order_trans)
  have next_eq: "filter (\<lambda>x. p < cmMax x \<and> cmMax x \<le> t) sg = filter (\<lambda>x. cmMax s < cmMax x \<and> cmMax x \<le> t) sg"
    if "p < cmMax s"
    using Cons.prems that by (intro filter_cong) (auto dest: less_trans)
  consider "cmMax s \<le> p" | "p < cmMax s" "t < cmMax s" | "p < cmMax s" "cmMax s = t" | "p < cmMax s" "cmMax s < t"
    by (meson linorder_cases not_le)
  then show ?case
  proof cases
    case 1
    with Cons show ?thesis by auto
  next
    case 2
    with above [of p] show ?thesis by auto
  next
    case 3
    with above [of p] Cons.prems show ?thesis by auto
  next
    case 4
    then have eq: "selfWalk t p (s # sg) = Inr r \<longleftrightarrow> cmMin s = p + 1 \<and> (\<exists>r'. selfWalk t (cmMax s) sg = Inr r' \<and> r = s # r')"
      by auto
    show ?thesis
      unfolding eq using Cons 4 next_eq by (auto simp: less_imp_le split: if_splits)
  qed
qed simp

lemma rangeWalk_iff:
  assumes "sorted_wrt (<) (map cmMax sg)" "\<forall>s \<in> set sg. \<not> cmSnapshot s"
  shows "rangeWalk lo hi p sg = Inr r \<longleftrightarrow>
    r = filter (\<lambda>s. lo < cmMax s \<and> cmMax s \<le> hi) sg \<and> r \<noteq> [] \<and> contiguousFrom p r \<and> cmMax (last r) = hi"
  using assms
proof (induction sg arbitrary: p r)
  case (Cons s sg)
  have above: "filter (\<lambda>s. lo < cmMax s \<and> cmMax s \<le> hi) sg = []" if "hi \<le> cmMax s"
    using Cons.prems that by (auto simp: filter_empty_conv dest: order_trans)
  consider "cmMax s \<le> lo" | "lo < cmMax s" "hi < cmMax s" | "lo < cmMax s" "cmMax s = hi" | "lo < cmMax s" "cmMax s < hi"
    by (meson linorder_cases not_le)
  then show ?case
  proof cases
    case 1
    with Cons show ?thesis by auto
  next
    case 2
    with above show ?thesis by auto
  next
    case 3
    with above Cons.prems show ?thesis by auto
  next
    case 4
    then have eq: "rangeWalk lo hi p (s # sg) = Inr r \<longleftrightarrow> cmMin s = p + 1 \<and> (\<exists>r'. rangeWalk lo hi (cmMax s) sg = Inr r' \<and> r = s # r')"
      by auto
    show ?thesis unfolding eq using Cons 4 by (auto simp: less_imp_le split: if_splits)
  qed
qed simp

section \<open>A chain survives the deletion of everything else\<close>

text \<open>The shape this program's writers give a lineage: snapshots and single-transaction
  segments, above the fork point when the lineage has a base.\<close>

definition cleanLineage :: "view \<Rightarrow> string \<Rightarrow> bool" where
  "cleanLineage v l \<longleftrightarrow> (\<forall>m \<in> set (membersOf v l). collapsible m \<and>
     (case lineageBase v l of Inr (Some b) \<Rightarrow> bpTXID b < cmMax m | _ \<Rightarrow> True))"

lemma splitMembers_distinct:
  "distinct ms \<Longrightarrow> splitMembers ms = (sn, sg) \<Longrightarrow> distinct sn \<and> distinct sg"
  by (auto simp: splitMembers_def)

lemma listMembers_facts:
  assumes "listMembers v l = Inr (sn, sg)"
  shows "sorted (map cmMax sn)" "inj_on cmMax (set sn)" "\<forall>s \<in> set sg. \<not> cmSnapshot s"
    "set sn = {m. liveIn v l m \<and> cmSnapshot m}" "set sg = {m. liveIn v l m \<and> \<not> cmSnapshot m}"
    "cleanLineage v l \<Longrightarrow> sorted_wrt (<) (map cmMax sg)"
proof -
  have eq: "splitMembers (keepHighestEpoch (membersOf v l)) = (sn, sg)"
    using listMembers_eq [OF assms] by simp
  show "sorted (map cmMax sn)" using splitMembers_sorted eq by blast
  show sn: "set sn = {m. liveIn v l m \<and> cmSnapshot m}" and sg: "set sg = {m. liveIn v l m \<and> \<not> cmSnapshot m}"
    using eq by (auto simp: splitMembers_def liveIn_def)
  show "inj_on cmMax (set sn)" using khe_inj_snapshots by (simp add: sn liveIn_def)
  show "\<forall>s \<in> set sg. \<not> cmSnapshot s" by (simp add: sg)
  assume clean: "cleanLineage v l"
  have "inj_on cmMax (set sg)"
  proof (rule inj_onI)
    fix x y assume "x \<in> set sg" "y \<in> set sg" "cmMax x = cmMax y"
    moreover from this have "collapsible x" "collapsible y"
      using clean sg liveIn_member unfolding cleanLineage_def by blast+
    ultimately show "x = y"
      using khe_unique [of x "membersOf v l" y] by (auto simp: sg liveIn_def sameBucket_def)
  qed
  moreover have "distinct sg" using splitMembers_distinct [OF khe_distinct eq] by blast
  ultimately have "distinct (map cmMax sg)" by (simp add: distinct_map)
  then show "sorted_wrt (<) (map cmMax sg)" using splitMembers_sorted(2) [OF eq] by (simp add: strict_sorted_iff)
qed

lemma find_rev_newest:
  assumes "sorted (map f xs)" "List.find (\<lambda>m. f m \<le> t) (rev xs) = Some b" "s \<in> set xs" "f s \<le> t"
  shows "f s \<le> f b"
proof -
  obtain us vs where "rev xs = us @ b # vs" "\<forall>u \<in> set us. \<not> f u \<le> t"
    using find_split [OF assms(2)] by blast
  moreover from this have "xs = rev vs @ b # rev us" by (metis append.assoc append_Cons append_Nil rev.simps(2) rev_append rev_rev_ident)
  ultimately show ?thesis using assms by (auto simp: sorted_append)
qed

lemma find_rev_intro:
  assumes "sorted (map f xs)" "inj_on f (set xs)" "b \<in> set xs" "f b \<le> t"
    "\<forall>s \<in> set xs. \<not> (f b < f s \<and> f s \<le> t)"
  shows "List.find (\<lambda>m. f m \<le> t) (rev xs) = Some b"
proof (cases "List.find (\<lambda>m. f m \<le> t) (rev xs)")
  case None
  then show ?thesis using assms(3,4) by (auto simp: find_None_iff)
next
  case (Some b')
  then have "b' \<in> set xs" "f b' \<le> t" using find_rev_Some by fastforce+
  moreover have "f b \<le> f b'" using find_rev_newest [OF assms(1) Some] assms(3,4) by blast
  ultimately have "f b' = f b" using assms(5) by (metis order_le_less)
  then show ?thesis using Some assms(2,3) \<open>b' \<in> set xs\<close> by (auto dest: inj_onD)
qed

lemma vFail_keep [simp]: "vFail (keepView P v) = vFail v"
  by (simp add: keepView_def)

lemma listMembers_keep:
  assumes "msorted (vObjs v)" "listMembers v l = Inr (sn, sg)"
    and "\<And>s. s \<in> set sn \<Longrightarrow> \<not> (lo < cmMax s \<and> cmMax s \<le> t)"
    and "\<And>s. s \<in> set sg \<Longrightarrow> lo < cmMax s \<Longrightarrow> cmMax s \<le> t \<Longrightarrow> P (cmKey s)"
  obtains sn' sg' where "listMembers (keepView P v) l = Inr (sn', sg')"
    "filter (\<lambda>s. lo < cmMax s \<and> cmMax s \<le> t) sn' = []"
    "filter (\<lambda>s. lo < cmMax s \<and> cmMax s \<le> t) sg' = filter (\<lambda>s. lo < cmMax s \<and> cmMax s \<le> t) sg"
proof -
  let ?Q = "\<lambda>s. lo < cmMax s \<and> cmMax s \<le> t"
  obtain sn' sg' where spl: "splitMembers (keepHighestEpoch (membersOf (keepView P v) l)) = (sn', sg')"
    by (cases "splitMembers (keepHighestEpoch (membersOf (keepView P v) l))")
  have lm: "listMembers (keepView P v) l = Inr (sn', sg')"
    using assms(2) spl by (auto simp: listMembers_def viewList_def membersOf_def split: option.splits)
  have eq: "splitMembers (keepHighestEpoch (membersOf v l)) = (sn, sg)"
    using listMembers_eq [OF assms(2)] by simp
  have kept: "P (cmKey w)" if "liveIn v l w" "?Q w" for w
    using that assms(3,4) listMembers_facts(4,5) [OF assms(2)] by (cases "cmSnapshot w") auto
  have "liveIn (keepView P v) l x \<longleftrightarrow> liveIn v l x" if "?Q x" for x
  proof
    assume "liveIn (keepView P v) l x"
    from liveIn_keep_back [OF assms(1) this] show "liveIn v l x"
      using that kept by (auto simp: sameBucket_def)
  qed (use that kept liveIn_keep assms(1) in blast)
  then have "filter ?Q sn' = filter ?Q sn \<and> filter ?Q sg' = filter ?Q sg"
    using splitMembers_agree [OF _ spl eq, of ?Q] unfolding liveIn_def by blast
  moreover have "filter ?Q sn = []" using assms(3) by (simp add: filter_empty_conv)
  ultimately show thesis using that lm by simp
qed

lemma resolveSelf_keep:
  assumes "msorted (vObjs v)" "cleanLineage v l" "listMembers v l = Inr (sn, sg)"
    "resolveSelf t sn sg = Inr ms" "\<forall>m \<in> set ms. P (cmKey m)"
    "lineageBase (keepView P v) l = lineageBase v l"
  shows "\<exists>sn' sg'. listMembers (keepView P v) l = Inr (sn', sg') \<and> resolveSelf t sn' sg' = Inr ms"
proof -
  note facts = listMembers_facts [OF assms(3)]
  obtain base where base: "List.find (\<lambda>m. cmMax m \<le> t) (rev sn) = Some base"
    using assms(4) by (auto simp: resolveSelf_def split: option.splits)
  then have b: "base \<in> set sn" "cmMax base \<le> t" "base \<in> set ms"
    using find_rev_Some [OF base] assms(4) by (auto simp: resolveSelf_def split: if_splits)
  let ?Q = "\<lambda>s. cmMax base < cmMax s \<and> cmMax s \<le> t"
  have none: "\<not> ?Q s" if "s \<in> set sn" for s
    using find_rev_newest [OF facts(1) base that] by auto
  have walk: "cmMax base \<noteq> t \<Longrightarrow> selfWalk t (cmMax base) sg = Inr (filter ?Q sg) \<and> ms = base # filter ?Q sg"
    using assms(4) base selfWalk_iff [OF facts(6) [OF assms(2)] facts(3), of t "cmMax base"]
    by (auto simp: resolveSelf_def)
  have kept: "P (cmKey s)" if "s \<in> set sg" "cmMax base < cmMax s" "cmMax s \<le> t" for s
    using that walk assms(5) by (cases "cmMax base = t") auto
  obtain sn' sg' where new: "listMembers (keepView P v) l = Inr (sn', sg')"
    "filter ?Q sn' = []" "filter ?Q sg' = filter ?Q sg"
    using listMembers_keep [OF assms(1,3), of "cmMax base" t P] none kept by blast
  note facts' = listMembers_facts [OF new(1)]
  have "base \<in> set sn'"
    using b assms(1,5) facts(4) facts'(4) liveIn_keep by auto
  then have find': "List.find (\<lambda>m. cmMax m \<le> t) (rev sn') = Some base"
    using b(2) new(2) facts'(1,2) by (intro find_rev_intro) (auto simp: filter_empty_conv)
  have "cleanLineage (keepView P v) l"
    using assms(2,6) by (auto simp: cleanLineage_def membersOf_keep [OF assms(1)])
  then have "cmMax base \<noteq> t \<Longrightarrow> selfWalk t (cmMax base) sg' = Inr (filter ?Q sg)"
    using walk selfWalk_iff [OF facts(6) [OF assms(2)] facts(3), of t "cmMax base" "filter ?Q sg"]
      selfWalk_iff [OF facts'(6) facts'(3), of t "cmMax base" "filter ?Q sg"] new(3) by simp
  then have "resolveSelf t sn' sg' = Inr ms"
    using find' walk assms(4) base by (auto simp: resolveSelf_def)
  then show ?thesis using new(1) by blast
qed

lemma resolves_keep:
  assumes "resolves v l t seen ms" "msorted (vObjs v)" "\<forall>m \<in> set ms. P (cmKey m)"
    "\<And>a. ancestor v l a \<Longrightarrow> cleanLineage v a \<and> lineageBase (keepView P v) a = lineageBase v a"
  shows "resolves (keepView P v) l t seen ms"
  using assms
proof (induction rule: resolves.induct)
  case (Self l sn sg t ms seen)
  then have "cleanLineage v l \<and> lineageBase (keepView P v) l = lineageBase v l" by (blast intro: ancestor.Refl)
  then show ?case
    using Self resolveSelf_keep [of v l sn sg t ms P] by (auto intro: resolves.Self)
next
  case (Below l b seen t ms)
  then have "lineageBase (keepView P v) l = lineageBase v l" by (blast intro: ancestor.Refl)
  moreover have "resolves (keepView P v) (bpLineage b) t (bpLineage b # seen) ms"
    using Below.IH Below.prems Below.hyps(1) by (blast intro: ancestor.Hop)
  ultimately show ?case using Below by (auto intro: resolves.Below)
next
  case (Own l b seen t sn sg ms)
  then have *: "cleanLineage v l \<and> lineageBase (keepView P v) l = lineageBase v l" by (blast intro: ancestor.Refl)
  then obtain sn' sg' where "listMembers (keepView P v) l = Inr (sn', sg')" "resolveSelf t sn' sg' = Inr ms"
    using Own resolveSelf_keep [of v l sn sg t ms P] by auto
  then show ?case using Own * by (auto intro: resolves.Own)
next
  case (Seam l b seen t sn sg e ps cs)
  then have *: "cleanLineage v l \<and> lineageBase (keepView P v) l = lineageBase v l" by (blast intro: ancestor.Refl)
  note facts = listMembers_facts [OF Seam(4)]
  let ?Q = "\<lambda>s. bpTXID b < cmMax s \<and> cmMax s \<le> t"
  have cs: "cs = filter ?Q sg" "cs \<noteq> []" "contiguousFrom (bpTXID b) cs" "cmMax (last cs) = t"
    using Seam(8) rangeWalk_iff [OF facts(6) facts(3), of "bpTXID b" t "bpTXID b" cs] *
    by (auto simp: resolveRange_def)
  have noSnap: "filter (\<lambda>m. cmMax m \<le> t) sn = []"
    using Seam(5,6) resolveSelf_noSnapshot [of t sn sg] by blast
  obtain sn' sg' where new: "listMembers (keepView P v) l = Inr (sn', sg')"
    "filter ?Q sn' = []" "filter ?Q sg' = filter ?Q sg"
    using listMembers_keep [OF \<open>msorted (vObjs v)\<close> Seam(4), of "bpTXID b" t P] noSnap Seam.prems(2) cs(1)
    by (auto simp: filter_empty_conv)
  note facts' = listMembers_facts [OF new(1)]
  have clean': "cleanLineage (keepView P v) l"
    using * by (auto simp: cleanLineage_def membersOf_keep [OF \<open>msorted (vObjs v)\<close>])
  have "bpTXID b < cmMax s" if "s \<in> set sn'" for s
    using that clean' * Seam(1) facts'(4) liveIn_member by (fastforce simp: cleanLineage_def)
  then have "filter (\<lambda>m. cmMax m \<le> t) sn' = []" using new(2) by (auto simp: filter_empty_conv)
  then obtain e' where e': "resolveSelf t sn' sg' = Inl e'" "errors_is e' ErrNoSnapshotCoversTarget"
    using resolveSelf_noSnapshot [of t sn' sg'] by blast
  have range: "resolveRange (bpTXID b) t sg' = Inr cs"
    unfolding resolveRange_def rangeWalk_iff [OF facts'(6) [OF clean'] facts'(3)] using cs new(3) by simp
  have "resolves (keepView P v) (bpLineage b) (bpTXID b) (bpLineage b # seen) ps"
    using Seam.IH Seam.prems Seam.hyps(1) by (auto intro: ancestor.Hop)
  then show ?case
    using Seam * by (intro resolves.Seam [OF _ _ _ new(1) e' _ range]) auto
qed

section \<open>Properties\<close>

lemma basesOk_store:
  assumes "list_all (\<lambda>(k, c). case c of CBase b \<Rightarrow> lineage_ok (bpLineage b) | _ \<Rightarrow> True) s"
  shows "basesOk (viewOf s)"
proof -
  have "lineage_ok (bpLineage b)" if "map_of s k = Some (CBase b)" for k b
    using assms map_of_SomeD [OF that] by (fastforce simp: list_all_iff)
  then show ?thesis
    by (auto simp: basesOk_def lineageBase_def viewGet_def viewOf_def localGet_def
        split: option.splits content.splits if_splits sum.splits)
qed

lemma sampleStore_bases: "basesOk (viewOf sampleStore)"
  by (rule basesOk_store) code_simp

text \<open>Readers are stable under later writes. A member written above the transaction a reader
  resolves, by any branch of any lineage, leaves the reader's chain as it was.\<close>

theorem Chain_stable_above:
  assumes "Chain v l t = Inr ms" "msorted (vObjs v)" "basesOk v" "lineage_ok l"
    "ParseMemberKey k = Some m" "t < cmMax m"
  shows "Chain (addObj k c v) l t = Inr ms"
  using resolves_agree [OF _ agreeBelow_add_above [OF assms(2,5,6)] assms(3,4) order_refl] assms(1)
  by (simp add: Chain_iff)

theorem Chain_stable_above_witness:
  "Chain (addObj ''data/l2/3/segment-0000000000000004-0000000000000004.ltx'' (CRaw ''D'') (viewOf sampleStore)) ''l2'' 3 =
     Inr [snap1, seg2, seg3]"
proof -
  let ?m = "\<lparr>cmKey = ''data/l2/3/segment-0000000000000004-0000000000000004.ltx'', cmSnapshot = False,
             cmMin = 4, cmMax = 4, cmEpoch = 3\<rparr>"
  have p: "ParseMemberKey ''data/l2/3/segment-0000000000000004-0000000000000004.ltx'' = Some ?m" by code_simp
  have s: "msorted (vObjs (viewOf sampleStore))" using sampleStore_sorted by (simp add: viewOf_def)
  show ?thesis
    by (rule Chain_stable_above [OF sampleStore_work s sampleStore_bases _ p]) (simp_all add: lineage_ok_def)
qed

text \<open>C23: Fencing holds for stragglers. An object a fenced writer lands late, for a transaction a live
  member of the lineage already establishes under a higher epoch, changes no chain of any lineage at any
  transaction.\<close>

theorem Chain_ignores_straggler:
  assumes "Chain v l t = Inr ms" "msorted (vObjs v)" "basesOk v" "lineage_ok l"
    "ParseMemberKey k = Some m" "lineage_ok a" "hasPrefix k (LineagePrefix a)"
    "y \<in> set (membersOf v a)" "sameBucket m y" "cmEpoch m < cmEpoch y"
  shows "Chain (addObj k c v) l t = Inr ms"
proof -
  have "rank m < rank y" using assms(10) by (simp add: rank_def less_prod_def)
  then have "agreeBelow t v (addObj k c v)"
    by (rule agreeBelow_add_dominated [OF assms(2,5,6,7,8,9)])
  then show ?thesis using resolves_agree [OF _ _ assms(3,4) order_refl] assms(1) by (simp add: Chain_iff)
qed

theorem Chain_ignores_straggler_witness:
  "Chain (addObj ''data/l2/2/snapshot-0000000000000003.ltx'' (CRaw ''stale'') (viewOf sampleStore)) ''l2'' 3 =
     Inr [snap1, seg2, seg3]"
proof -
  let ?m = "\<lparr>cmKey = ''data/l2/2/snapshot-0000000000000003.ltx'', cmSnapshot = True,
             cmMin = 0, cmMax = 3, cmEpoch = 2\<rparr>"
  have p: "ParseMemberKey ''data/l2/2/snapshot-0000000000000003.ltx'' = Some ?m" by code_simp
  have s: "msorted (vObjs (viewOf sampleStore))" using sampleStore_sorted by (simp add: viewOf_def)
  have x: "hasPrefix ''data/l2/2/snapshot-0000000000000003.ltx'' (LineagePrefix ''l2'')" by code_simp
  have y: "seg3 \<in> set (membersOf (viewOf sampleStore) ''l2'')" by code_simp
  have b: "sameBucket ?m seg3" "cmEpoch ?m < cmEpoch seg3" by code_simp+
  show ?thesis
    by (rule Chain_ignores_straggler [OF sampleStore_work s sampleStore_bases _ p _ x y b])
       (simp_all add: lineage_ok_def)
qed

end
