(* ===== verification/GC.thy ===== *)
theory GC
  imports Destroy Stability
begin

text \<open>
  The garbage collector (\<^verbatim>\<open>internal/ops/gc.go\<close>): the mark cache, the reachability mark over every
  ref's head and checkpoints, the tombstone list, and the two-phase collection.  The mark reads
  every ref through the shared world, then resolves chains against the store at one instant (or
  fails, when that read fails); the mark cache lemma shows memoized reads return what the store
  holds.  Where Go iterates a map the model iterates it in key order.
\<close>

section \<open>The mark cache\<close>

record markCache =
  mcLists :: "(string \<times> key list) list"
  mcGets :: "(key \<times> (content \<times> etag) option) list"

definition newMarkCache :: markCache where
  "newMarkCache = \<lparr>mcLists = [], mcGets = []\<rparr>"

definition cacheGet :: "view \<Rightarrow> key \<Rightarrow> markCache \<Rightarrow> (err + content \<times> etag) \<times> markCache" where
  "cacheGet v key c =
     (case map_of (mcGets c) key of
        Some None \<Rightarrow> (Inl errNotFound, c)
      | Some (Some g) \<Rightarrow> (Inr g, c)
      | None \<Rightarrow>
          (case viewGet v key of
             Inl e \<Rightarrow>
               if errors_is e ErrNotFound then (Inl e, c\<lparr>mcGets := mput key None (mcGets c)\<rparr>)
               else (Inl e, c)
           | Inr g \<Rightarrow> (Inr g, c\<lparr>mcGets := mput key (Some g) (mcGets c)\<rparr>)))"

definition cacheList :: "view \<Rightarrow> string \<Rightarrow> markCache \<Rightarrow> (err + key list) \<times> markCache" where
  "cacheList v prefix c =
     (case map_of (mcLists c) prefix of
        Some keys \<Rightarrow> (Inr keys, c)
      | None \<Rightarrow>
          (case viewList v prefix of
             Inl e \<Rightarrow> (Inl e, c)
           | Inr keys \<Rightarrow> (Inr keys, c\<lparr>mcLists := mput prefix keys (mcLists c)\<rparr>)))"

section \<open>Marking\<close>

record liveHead =
  lhTXID :: u64
  lhEpoch :: u64

type_synonym mark = "key list \<times> liveHead byname"

definition noteHead :: "ref \<Rightarrow> liveHead byname \<Rightarrow> liveHead byname" where
  "noteHead r heads =
     (case map_of heads (rLineage r) of
        None \<Rightarrow> mput (rLineage r) \<lparr>lhTXID = rHeadTXID r, lhEpoch = rEpoch r\<rparr> heads
      | Some h \<Rightarrow>
          mput (rLineage r)
            \<lparr>lhTXID = (if rHeadTXID r < lhTXID h then rHeadTXID r else lhTXID h),
             lhEpoch = (if rEpoch r < lhEpoch h then rEpoch r else lhEpoch h)\<rparr> heads)"

definition refTxids :: "ref \<Rightarrow> u64 list" where
  "refTxids r = remdups (rHeadTXID r # map (\<lambda>(n, cp). cpTXID cp) (rCheckpoints r))"

definition spineBaseKeys :: "string \<Rightarrow> string list \<Rightarrow> key list" where
  "spineBaseKeys lineage spine =
     (if spine = [] then [] else BaseKey lineage # map BaseKey (butlast spine))"

fun markTxids :: "view \<Rightarrow> string \<Rightarrow> u64 list \<Rightarrow> key list \<Rightarrow> err + key list" where
  "markTxids v lineage [] acc = Inr acc"
| "markTxids v lineage (t # ts) acc =
     (case Chain v lineage t of
        Inl e \<Rightarrow> Inl (wrap_err ''ops: gc mark'' e)
      | Inr members \<Rightarrow> markTxids v lineage ts (acc @ map cmKey members))"

fun markRefs :: "view \<Rightarrow> ref list \<Rightarrow> mark \<Rightarrow> err + mark" where
  "markRefs v [] acc = Inr acc"
| "markRefs v (r # rs) (reachable, heads) =
     (case BaseSpine v (rLineage r) of
        Inl e \<Rightarrow> Inl (wrap_err ''ops: gc mark'' e)
      | Inr spine \<Rightarrow>
          (case markTxids v (rLineage r) (refTxids r) (reachable @ spineBaseKeys (rLineage r) spine) of
             Inl e \<Rightarrow> Inl e
           | Inr reachable' \<Rightarrow> markRefs v rs (reachable', noteHead r heads)))"

fun readRefs :: "(string \<times> string) list \<Rightarrow> ref list \<Rightarrow> world \<Rightarrow> (err + ref list) \<times> world" where
  "readRefs [] acc w = (Inr acc, w)"
| "readRefs ((db, b) # rest) acc w =
     (case GetRef db b w of
        (Inl e, w1) \<Rightarrow>
          if errors_is e ErrNotFound then readRefs rest acc w1
          else (Inl (wrap_err ''ops: gc mark'' e), w1)
      | (Inr (r, _), w1) \<Rightarrow> readRefs rest (acc @ [r]) w1)"

definition reachableObjectsAndHeads :: "world \<Rightarrow> (err + mark) \<times> world" where
  "reachableObjectsAndHeads w =
     (case ListRefs w of
        (Inl e, w1) \<Rightarrow> (Inl e, w1)
      | (Inr refs, w1) \<Rightarrow>
          (case readRefs (concat (map (\<lambda>(db, bs). map (Pair db) bs) refs)) [] w1 of
             (Inl e, w2) \<Rightarrow> (Inl e, w2)
           | (Inr live, w2) \<Rightarrow>
               (case readView w2 of (v, w3) \<Rightarrow> (markRefs v live ([], []), w3))))"

definition reachableObjects :: "world \<Rightarrow> (err + key list) \<times> world" where
  "reachableObjects w =
     (case reachableObjectsAndHeads w of
        (Inl e, w1) \<Rightarrow> (Inl e, w1)
      | (Inr (reachable, _), w1) \<Rightarrow> (Inr reachable, w1))"

section \<open>Tombstones\<close>

definition tombstoneKey :: key where
  "tombstoneKey = ''gc/tombstones''"

definition loadTombstones :: "world \<Rightarrow> (err + stamp byname \<times> etag) \<times> world" where
  "loadTombstones w =
     (case bGet tombstoneKey w of
        (Inl e, w1) \<Rightarrow> if errors_is e ErrNotFound then (Inr ([], NoETag), w1) else (Inl e, w1)
      | (Inr (data, etag), w1) \<Rightarrow>
          (case data of
             CStones m \<Rightarrow> (Inr (m, etag), w1)
           | _ \<Rightarrow> (Inl (plain_err ''ops: corrupt tombstone list''), w1)))"

definition TombstoneBacklog :: "world \<Rightarrow> (err + nat) \<times> world" where
  "TombstoneBacklog w =
     (case loadTombstones w of
        (Inl e, w1) \<Rightarrow> (Inl e, w1)
      | (Inr (m, _), w1) \<Rightarrow> (Inr (length m), w1))"

definition putAll :: "('k::linorder \<times> 'v) list \<Rightarrow> ('k \<times> 'v) list \<Rightarrow> ('k \<times> 'v) list" where
  "putAll new cur = fold (\<lambda>(k, v). mput k v) new cur"

definition tombstone :: "stamp byname \<Rightarrow> world \<Rightarrow> err option \<times> world" where
  "tombstone m w =
     (case loadTombstones w of
        (Inl e, w1) \<Rightarrow> (Some e, w1)
      | (Inr (cur, etag), w1) \<Rightarrow>
          (case bPutIf tombstoneKey (CStones (putAll m cur)) etag w1 of
             (Inl e, w2) \<Rightarrow> (Some (wrap_err ''ops: gc tombstone update lost a race (retry)'' e), w2)
           | (Inr _, w2) \<Rightarrow> (None, w2)))"

fun pruneAttempts :: "nat \<Rightarrow> key list \<Rightarrow> err option \<Rightarrow> world \<Rightarrow> err option \<times> world" where
  "pruneAttempts 0 keys lastErr w =
     (Some (Err ''ops: gc tombstone prune lost 8 races'' (case lastErr of None \<Rightarrow> [] | Some e \<Rightarrow> err_sentinels e)), w)"
| "pruneAttempts (Suc n) keys lastErr w =
     (case loadTombstones w of
        (Inl e, w1) \<Rightarrow> (Some e, w1)
      | (Inr (cur, etag), w1) \<Rightarrow>
          if \<forall>k \<in> set keys. map_of cur k = None then (None, w1)
          else
            (case bPutIf tombstoneKey (CStones (filter (\<lambda>p. fst p \<notin> set keys) cur)) etag w1 of
               (Inr _, w2) \<Rightarrow> (None, w2)
             | (Inl e, w2) \<Rightarrow>
                 if \<not> errors_is e ErrCAS then (Some e, w2)
                 else pruneAttempts n keys (Some e) w2))"

definition pruneTombstones :: "key list \<Rightarrow> world \<Rightarrow> err option \<times> world" where
  "pruneTombstones keys w = (if keys = [] then (None, w) else pruneAttempts 8 keys None w)"

text \<open>Both backends delete key after key until one fails; the deleted keys are returned.\<close>

fun sweepDelete :: "key list \<Rightarrow> key list \<Rightarrow> world \<Rightarrow> (key list \<times> err option) \<times> world" where
  "sweepDelete [] deleted w = ((deleted, None), w)"
| "sweepDelete (k # ks) deleted w =
     (case bDelete k w of
        (Some e, w1) \<Rightarrow> ((deleted, Some e), w1)
      | (None, w1) \<Rightarrow> sweepDelete ks (deleted @ [k]) w1)"

section \<open>Collection\<close>

datatype sweepChoice = Rescued | Gone | Shielded | Sweep

text \<open>What phase 2 does with a tombstone past its grace.\<close>

definition sweepChoose :: "key list \<Rightarrow> key list \<Rightarrow> liveHead byname \<Rightarrow> key \<Rightarrow> sweepChoice" where
  "sweepChoose reMark existing liveHeads key =
     (if key \<in> set reMark then Rescued
      else if key \<notin> set existing then Gone
      else case (ParseMemberKey key, lineageOfDataKey key) of
             (Some m, Some lineage) \<Rightarrow>
               (case map_of liveHeads lineage of
                  Some h \<Rightarrow> if cmMax m > lhTXID h \<and> cmEpoch m \<ge> lhEpoch h then Shielded else Sweep
                | None \<Rightarrow> Sweep)
           | _ \<Rightarrow> Sweep)"

definition pastGrace :: "int \<Rightarrow> stamp byname \<Rightarrow> stamp byname \<Rightarrow> key list" where
  "pastGrace cutoff newStones stones =
     map fst (filter (\<lambda>(k, at). map_of newStones k = None \<and>
       (case parseStamp at of None \<Rightarrow> False | Some ts \<Rightarrow> ts < cutoff)) stones)"

definition newStonesFor :: "(key \<Rightarrow> int) \<Rightarrow> key list \<Rightarrow> key list \<Rightarrow> stamp byname \<Rightarrow> stamp byname" where
  "newStonesFor clk all reachable stones =
     map (\<lambda>k. (k, At (clk k))) (filter (\<lambda>k. k \<notin> set reachable \<and> map_of stones k = None) all)"

text \<open>Phase 2 over the keys past grace: the sweep, then the prune of the stones it removed.\<close>

definition gcSweep :: "key list \<Rightarrow> world \<Rightarrow> (nat \<times> err option) \<times> world" where
  "gcSweep eligible w =
     (if eligible = [] then ((0, None), w)
      else
        (case reachableObjectsAndHeads w of
           (Inl e, w1) \<Rightarrow> ((0, Some e), w1)
         | (Inr (reMark, liveHeads), w1) \<Rightarrow>
             (case bList ''data/'' w1 of
                (Inl e, w2) \<Rightarrow> ((0, Some e), w2)
              | (Inr existing, w2) \<Rightarrow>
                  let choice = sweepChoose reMark existing liveHeads;
                      pruned = filter (\<lambda>k. choice k = Rescued \<or> choice k = Gone) eligible;
                      toDelete = sort (filter (\<lambda>k. choice k = Sweep) eligible)
                  in (case sweepDelete toDelete [] w2 of
                        ((succeeded, derr), w3) \<Rightarrow>
                          (case pruneTombstones (pruned @ succeeded) w3 of
                             (perr, w4) \<Rightarrow>
                               ((length succeeded,
                                 (case (derr, perr) of
                                    (Some d, Some p) \<Rightarrow> Some (Err (err_text d) (err_sentinels d @ err_sentinels p))
                                  | (Some d, None) \<Rightarrow> Some d
                                  | (None, p) \<Rightarrow> p)), w4))))))"

record gcEnv =
  gStampAt :: "key \<Rightarrow> int"
  gCutoffNow :: int

text \<open>The result: how many objects were tombstoned, how many deleted, and an error.\<close>

definition GC :: "gcEnv \<Rightarrow> int \<Rightarrow> world \<Rightarrow> (nat \<times> nat \<times> err option) \<times> world" where
  "GC env grace w =
     (case reachableObjects w of
        (Inl e, w1) \<Rightarrow> ((0, 0, Some e), w1)
      | (Inr reachable, w1) \<Rightarrow>
     (case bList ''data/'' w1 of
        (Inl e, w2) \<Rightarrow> ((0, 0, Some e), w2)
      | (Inr all, w2) \<Rightarrow>
     (case loadTombstones w2 of
        (Inl e, w3) \<Rightarrow> ((0, 0, Some e), w3)
      | (Inr (stones, _), w3) \<Rightarrow>
          let newStones = newStonesFor (gStampAt env) all reachable stones;
              cutoff = gCutoffNow env - grace;
              phase2 = (\<lambda>stones' w5.
                (case gcSweep (pastGrace cutoff newStones stones') w5 of
                   ((deleted, e), w6) \<Rightarrow> ((length newStones, deleted, e), w6)))
          in if newStones = [] then phase2 stones w3
             else
               (case tombstone newStones w3 of
                  (Some e, w4) \<Rightarrow> ((length newStones, 0, Some e), w4)
                | (None, w4) \<Rightarrow>
                    (case loadTombstones w4 of
                       (Inl e, w5) \<Rightarrow> ((length newStones, 0, Some e), w5)
                     | (Inr (stones', _), w5) \<Rightarrow> phase2 stones' w5)))))"

end
