(* ===== verification/GC_Safety.thy ===== *)
theory GC_Safety
  imports GC
begin

text \<open>
  What the garbage collector can and cannot delete: it never touches a reachable object, an
  object with no tombstone past its grace, or an object a current writer may still commit, and
  it deletes nothing when marking fails.
\<close>

section \<open>Resolution reads only the data objects\<close>

definition dataPart :: "objs \<Rightarrow> objs" where
  "dataPart s = filter (\<lambda>p. hasPrefix (fst p) ''data/'') s"

lemma hasPrefix_trans: "hasPrefix s p \<Longrightarrow> hasPrefix p q \<Longrightarrow> hasPrefix s q"
  by (auto simp: hasPrefix_iff)

lemma hasPrefix_LineagePrefix: "hasPrefix k (LineagePrefix l) \<Longrightarrow> hasPrefix k ''data/''"
  by (erule hasPrefix_trans) (simp add: LineagePrefix_def hasPrefix_def)

lemma hasPrefix_BaseKey: "hasPrefix (BaseKey l) ''data/''"
  by (simp add: BaseKey_def hasPrefix_def)

lemma dataPart_mput: "\<not> hasPrefix k ''data/'' \<Longrightarrow> dataPart (mput k c s) = dataPart s"
  unfolding dataPart_def by (rule filter_mput_other)

lemma dataPart_mdel: "dataPart (mdel k s) = filter (\<lambda>p. fst p \<noteq> k) (dataPart s)"
  by (simp add: dataPart_def mdel_def conj_commute)

lemma localList_dataPart:
  "msorted s \<Longrightarrow> localList (dataPart s) (LineagePrefix l) = localList s (LineagePrefix l)"
proof -
  assume s: "msorted s"
  have "filter (\<lambda>k. \<not> listHidden k \<and> hasPrefix k (LineagePrefix l)) (map fst (dataPart s)) =
    filter (\<lambda>k. \<not> listHidden k \<and> hasPrefix k (LineagePrefix l)) (map fst s)"
    unfolding dataPart_def using hasPrefix_LineagePrefix [of _ l]
    by (induction s) auto
  moreover have "msorted (dataPart s)" using s unfolding dataPart_def by (rule msorted_filter)
  ultimately show ?thesis using s by (simp add: localList_filter)
qed

lemma localGet_dataPart: "hasPrefix k ''data/'' \<Longrightarrow> localGet (dataPart s) k = localGet s k"
  unfolding localGet_def dataPart_def
  by (simp add: map_of_filter_key [of "\<lambda>k. hasPrefix k ''data/''"] cong: option.case_cong)

lemma localPath_plain: "localPath k = Some e \<Longrightarrow> \<not> errors_is e x"
  by (auto simp: localPath_def split: if_splits)

lemma lineageBase_dataPart: "lineageBase (viewOf (dataPart s)) l = lineageBase (viewOf s) l"
  by (simp add: lineageBase_def viewGet_def viewOf_def localGet_dataPart hasPrefix_BaseKey)

lemma listMembers_dataPart: "msorted s \<Longrightarrow> listMembers (viewOf (dataPart s)) l = listMembers (viewOf s) l"
  by (simp add: listMembers_def viewList_def viewOf_def localList_dataPart)

lemma membersOf_dataPart: "msorted s \<Longrightarrow> membersOf (viewOf (dataPart s)) l = membersOf (viewOf s) l"
  by (simp add: membersOf_def viewOf_def localList_dataPart)

lemma ancestor_cong:
  "ancestor v l a \<Longrightarrow> (\<And>x. lineageBase v' x = lineageBase v x) \<Longrightarrow> ancestor v' l a"
  by (induction rule: ancestor.induct) (auto intro: ancestor.intros)

lemma resolves_dataPart:
  assumes "msorted s"
  shows "resolves (viewOf (dataPart s)) l t seen ms \<longleftrightarrow> resolves (viewOf s) l t seen ms"
  using resolves_local [of _ l t seen ms] lineageBase_dataPart listMembers_dataPart [OF assms] by metis

text \<open>Stores with the same data objects resolve the same chains.\<close>

lemma Chain_dataPart:
  "msorted s \<Longrightarrow> msorted s' \<Longrightarrow> dataPart s = dataPart s' \<Longrightarrow>
     Chain (viewOf s) l t = Inr ms \<Longrightarrow> Chain (viewOf s') l t = Inr ms"
  unfolding Chain_iff using resolves_dataPart by metis

section \<open>Deleting what the mark left out\<close>

lemma spine_ancestors:
  assumes "ancestor v l a" "spineOk v l as"
  shows "lineageBase v a = Inr (Some b) \<Longrightarrow> BaseKey a \<in> set (spineBaseKeys l as)"
  using assms
proof (induction arbitrary: as rule: ancestor.induct)
  case (Refl l)
  then show ?case by (cases as) (auto simp: spineBaseKeys_def)
next
  case (Hop l b' a)
  then obtain as' where as: "as = bpLineage b' # as'" "spineOk v (bpLineage b') as'"
    by (cases as) auto
  then have "BaseKey a \<in> set (spineBaseKeys (bpLineage b') as')" using Hop by blast
  then show ?case using as by (auto simp: spineBaseKeys_def split: if_splits)
qed

lemma spine_no_error: "ancestor v l a \<Longrightarrow> spineOk v l as \<Longrightarrow> lineageBase v a \<noteq> Inl e"
proof (induction arbitrary: as rule: ancestor.induct)
  case (Refl l)
  then show ?case by (cases as) auto
next
  case (Hop l b a)
  then show ?case by (cases as) auto
qed

text \<open>Every member stored under the lineage or one it is based on is a snapshot or the segment of a single
  transaction, above that lineage's base, as the writers leave them.\<close>

definition tidy :: "objs \<Rightarrow> string \<Rightarrow> bool" where
  "tidy s l \<longleftrightarrow> (\<forall>a. ancestor (viewOf s) l a \<longrightarrow> cleanLineage (viewOf s) a)"

lemma Chain_after_sweep:
  assumes "msorted s" "msorted s'" "dataPart s' = filter (\<lambda>p. fst p \<notin> D) (dataPart s)"
    "tidy s l"
    "Chain (viewOf s) l t = Inr ms" "cmKey ` set ms \<inter> D = {}"
    "BaseSpine (viewOf s) l = Inr spine" "set (spineBaseKeys l spine) \<inter> D = {}"
  shows "Chain (viewOf s') l t = Inr ms"
proof -
  let ?v = "viewOf (dataPart s)" and ?P = "\<lambda>k. k \<notin> D"
  have srt: "msorted (vObjs ?v)"
    using assms(1) unfolding dataPart_def viewOf_def by (simp add: msorted_filter)
  have keep: "keepView ?P ?v = viewOf (dataPart s')"
    by (simp add: keepView_def viewOf_def assms(3))
  have res: "resolves ?v l t [l] ms"
    using assms(5) resolves_dataPart [OF assms(1)] by (simp add: Chain_iff)
  have sp: "spineOk ?v l spine"
  proof -
    have "spineOk (viewOf s) l spine"
      using assms(7) baseSpineFrom_ok unfolding BaseSpine_def by blast
    moreover have "spineOk ?v x as = spineOk (viewOf s) x as" for x as
      by (induction as arbitrary: x) (auto simp: lineageBase_dataPart)
    ultimately show ?thesis by simp
  qed
  have "cleanLineage ?v a \<and> lineageBase (keepView ?P ?v) a = lineageBase ?v a" if anc: "ancestor ?v l a" for a
  proof
    have anc': "ancestor (viewOf s) l a"
      using ancestor_cong [OF anc] lineageBase_dataPart by metis
    show "cleanLineage ?v a"
      using assms(4) anc' by (simp add: tidy_def cleanLineage_def lineageBase_dataPart membersOf_dataPart [OF assms(1)])
    have kept: "BaseKey a \<notin> D" if "map_of (vObjs ?v) (BaseKey a) \<noteq> None"
    proof (cases "lineageBase ?v a")
      case (Inr ob)
      show ?thesis
      proof (cases ob)
        case (Some b)
        then show ?thesis using spine_ancestors [OF anc sp, of b] Inr assms(8) by blast
      qed (use that Inr in \<open>auto simp: lineageBase_def viewGet_def viewOf_def localGet_def
          dest: localPath_plain split: option.splits content.splits if_splits\<close>)
    next
      case (Inl e)
      then show ?thesis using spine_no_error [OF anc sp] by blast
    qed
    then have "map_of (filter (\<lambda>p. fst p \<notin> D) (dataPart s)) (BaseKey a) = map_of (dataPart s) (BaseKey a)"
      by (cases "map_of (dataPart s) (BaseKey a)") (auto simp: map_of_filter_key [of "\<lambda>k. k \<notin> D"] viewOf_def)
    then have "localGet (filter (\<lambda>p. fst p \<notin> D) (dataPart s)) (BaseKey a) = localGet (dataPart s) (BaseKey a)"
      unfolding localGet_def by (cases "localPath (BaseKey a)") simp_all
    then show "lineageBase (keepView ?P ?v) a = lineageBase ?v a"
      by (simp add: lineageBase_def viewGet_def keepView_def viewOf_def)
  qed
  moreover have "\<forall>m \<in> set ms. ?P (cmKey m)" using assms(6) by blast
  ultimately have "resolves (keepView ?P ?v) l t [l] ms"
    by (intro resolves_keep [OF res srt])
  then show ?thesis
    unfolding keep Chain_iff using resolves_dataPart [OF assms(2)] by blast
qed

section \<open>What the mark covers\<close>

definition refsOf :: "objs \<Rightarrow> ref set" where
  "refsOf s = {r. \<exists>db b. valid_name db \<and> valid_name b \<and> refAt s db b = Some r}"

definition marked :: "view \<Rightarrow> ref \<Rightarrow> key set \<Rightarrow> bool" where
  "marked v r reach \<longleftrightarrow>
     (\<exists>spine. BaseSpine v (rLineage r) = Inr spine \<and> set (spineBaseKeys (rLineage r) spine) \<subseteq> reach) \<and>
     (\<forall>t \<in> set (refTxids r). \<exists>ms. Chain v (rLineage r) t = Inr ms \<and> cmKey ` set ms \<subseteq> reach)"

definition headBelow :: "ref \<Rightarrow> liveHead byname \<Rightarrow> bool" where
  "headBelow r heads \<longleftrightarrow>
     (\<exists>h. map_of heads (rLineage r) = Some h \<and> lhTXID h \<le> rHeadTXID r \<and> lhEpoch h \<le> rEpoch r)"

lemma headBelow_note: "headBelow r heads \<Longrightarrow> headBelow r (noteHead r' heads)"
  by (auto simp: headBelow_def noteHead_def split: option.splits)

lemma headBelow_self: "headBelow r (noteHead r heads)"
  by (auto simp: headBelow_def noteHead_def split: option.splits)

lemma markTxids_Inr:
  "markTxids v l ts acc = Inr reach \<Longrightarrow> set acc \<subseteq> set reach \<and>
     (\<forall>t \<in> set ts. \<exists>ms. Chain v l t = Inr ms \<and> cmKey ` set ms \<subseteq> set reach)"
proof (induction ts arbitrary: acc)
  case (Cons t ts)
  then obtain ms where c: "Chain v l t = Inr ms" "markTxids v l ts (acc @ map cmKey ms) = Inr reach"
    by (auto split: sum.splits)
  from Cons.IH [OF c(2)] have "set acc \<subseteq> set reach" "cmKey ` set ms \<subseteq> set reach" by auto
  then show ?case using Cons.IH [OF c(2)] c(1) by auto
qed simp

lemma marked_mono: "marked v r A \<Longrightarrow> A \<subseteq> B \<Longrightarrow> marked v r B"
  unfolding marked_def by (meson order_trans)

lemma markRefs_Inr:
  "markRefs v rs (reach0, heads0) = Inr (reach, heads) \<Longrightarrow>
     set reach0 \<subseteq> set reach \<and> (\<forall>r. headBelow r heads0 \<longrightarrow> headBelow r heads) \<and>
     (\<forall>r \<in> set rs. marked v r (set reach) \<and> headBelow r heads)"
proof (induction rs arbitrary: reach0 heads0)
  case (Cons r rs)
  then obtain spine reach1 where s: "BaseSpine v (rLineage r) = Inr spine"
    "markTxids v (rLineage r) (refTxids r) (reach0 @ spineBaseKeys (rLineage r) spine) = Inr reach1"
    "markRefs v rs (reach1, noteHead r heads0) = Inr (reach, heads)"
    by (auto split: sum.splits)
  note m = markTxids_Inr [OF s(2)] and ih = Cons.IH [OF s(3)]
  have "marked v r (set reach1)" using s(1) m by (simp add: marked_def)
  then have "marked v r (set reach)" using ih marked_mono by blast
  moreover have "headBelow r heads" using headBelow_self ih by blast
  moreover have "set reach0 \<subseteq> set reach" using m ih by auto
  moreover have "\<forall>r. headBelow r heads0 \<longrightarrow> headBelow r heads"
    using headBelow_note ih by blast
  ultimately show ?case using ih by simp
qed simp

lemma readRefs_quiet:
  assumes "quiet w"
  shows "readRefs ps acc w = (x, w') \<Longrightarrow> w' = w \<and> (\<forall>rs. x = Inr rs \<longrightarrow> set acc \<subseteq> set rs \<and>
    (\<forall>(db, b) \<in> set ps. \<forall>r. valid_name db \<and> valid_name b \<and> refAt (wObjs w) db b = Some r \<longrightarrow> r \<in> set rs))"
proof (induction ps arbitrary: acc)
  case (Cons p ps)
  obtain db b where p: "p = (db, b)" by (cases p)
  obtain y w1 where g: "GetRef db b w = (y, w1)" by (cases "GetRef db b w")
  then have w1: "w1 = w" using GetRef_same [OF assms, of db b] by simp
  have found: "\<exists>t. y = Inr (r, t)" if "valid_name db" "valid_name b" "refAt (wObjs w) db b = Some r" for r
    using GetRef_found [OF assms that] g by auto
  show ?case
  proof (cases y)
    case (Inl e)
    show ?thesis
    proof (cases "errors_is e ErrNotFound")
      case True
      then have "readRefs ps acc w = (x, w')" using Cons.prems p g Inl w1 by simp
      from Cons.IH [OF this] show ?thesis using found Inl p by auto
    next
      case False
      then show ?thesis using Cons.prems p g Inl w1 by auto
    qed
  next
    case (Inr q)
    obtain r t where q: "q = (r, t)" by (cases q)
    then have "readRefs ps (acc @ [r]) w = (x, w')" using Cons.prems p g Inr w1 by simp
    from Cons.IH [OF this] show ?thesis using found Inr q p by auto
  qed
qed auto

lemma mark_same:
  assumes "quiet w"
  shows "snd (reachableObjectsAndHeads w) = w"
proof -
  obtain x w1 where l: "ListRefs w = (x, w1)" by (cases "ListRefs w")
  then have w1: "w1 = w" using ListRefs_same [OF assms] by simp
  show ?thesis
  proof (cases x)
    case (Inr refs)
    obtain y w2 where rd: "readRefs (concat (map (\<lambda>(db, bs). map (Pair db) bs) refs)) [] w = (y, w2)"
      by (cases "readRefs (concat (map (\<lambda>(db, bs). map (Pair db) bs) refs)) [] w")
    then have "w2 = w" using readRefs_quiet [OF assms] by blast
    then show ?thesis
      using l w1 Inr rd by (cases y) (simp_all add: reachableObjectsAndHeads_def readView_quiet [OF assms])
  qed (use l w1 in \<open>simp add: reachableObjectsAndHeads_def\<close>)
qed

lemma refsOf_key: "refAt s db b = Some r \<Longrightarrow> RefKey db b \<in> fst ` set s"
  by (auto simp: refAt_def split: option.splits dest!: map_of_SomeD intro: rev_image_eqI)

lemma mark_covers:
  assumes "quiet w" "reachableObjectsAndHeads w = (Inr (reach, heads), w')" "r \<in> refsOf (wObjs w)"
  shows "marked (viewOf (wObjs w)) r (set reach)" "headBelow r heads"
proof -
  obtain refs w1 where l: "ListRefs w = (Inr refs, w1)"
    using assms(2) by (auto simp: reachableObjectsAndHeads_def split: prod.splits sum.splits)
  then have w1: "w1 = w" using ListRefs_same [OF assms(1)] by simp
  let ?ps = "concat (map (\<lambda>(db, bs). map (Pair db) bs) refs)"
  obtain live w2 where rd: "readRefs ?ps [] w = (Inr live, w2)"
    using assms(2) l w1 by (auto simp: reachableObjectsAndHeads_def split: prod.splits sum.splits)
  note rq = readRefs_quiet [OF assms(1) rd]
  have mr: "markRefs (viewOf (wObjs w)) live ([], []) = Inr (reach, heads)"
    using assms(2) l w1 rd rq by (auto simp: reachableObjectsAndHeads_def readView_quiet [OF assms(1)])
  obtain db b where r: "valid_name db" "valid_name b" "refAt (wObjs w) db b = Some r"
    using assms(3) by (auto simp: refsOf_def)
  then have "groupHas refs db b" using ListRefs_exact [OF assms(1) l] refsOf_key by blast
  then have "(db, b) \<in> set ?ps" by (fastforce simp: groupHas_def dest: map_of_SomeD)
  then have "r \<in> set live" using rq r by fastforce
  then show "marked (viewOf (wObjs w)) r (set reach)" "headBelow r heads"
    using markRefs_Inr [OF mr] by auto
qed

section \<open>What a pass changes\<close>

text \<open>The data objects in \<^verbatim>\<open>D\<close> are gone, every other data object and every ref is as before.\<close>

definition swept :: "objs \<Rightarrow> objs \<Rightarrow> key set \<Rightarrow> bool" where
  "swept s s' D \<longleftrightarrow>
     dataPart s' = filter (\<lambda>p. fst p \<notin> D) (dataPart s) \<and>
     (\<forall>db b. refAt s' db b = refAt s db b) \<and> (msorted s \<longrightarrow> msorted s')"

lemma swept_refl [simp]: "swept s s {}"
  by (simp add: swept_def)

lemma swept_trans: "swept s s1 D \<Longrightarrow> swept s1 s2 E \<Longrightarrow> swept s s2 (D \<union> E)"
  by (simp add: swept_def conj_commute)

lemma RefKey_prefix: "\<not> hasPrefix (RefKey db b) ''data/''" "RefKey db b \<noteq> tombstoneKey"
  by (simp_all add: RefKey_def tombstoneKey_def hasPrefix_def)

lemma swept_stones: "swept s (mput tombstoneKey c s) {}"
proof -
  have "\<not> hasPrefix tombstoneKey ''data/''" by (simp add: tombstoneKey_def hasPrefix_def)
  then show ?thesis
    using RefKey_prefix(2) by (simp add: swept_def dataPart_mput refAt_def msorted_mput)
qed

lemma swept_mdel: "hasPrefix k ''data/'' \<Longrightarrow> swept s (mdel k s) {k}"
  using RefKey_prefix(1) by (auto simp: swept_def dataPart_mdel refAt_def msorted_mdel)

lemma localPath_stones: "localPath tombstoneKey = None"
  by (simp add: localPath_def tombstoneKey_def hasPrefix_def)

lemma stones_put_quiet:
  assumes "quiet w" "bPutIf tombstoneKey c m w = (x, w')"
  shows "quiet w'" "swept (wObjs w) (wObjs w') {}"
  using assms swept_stones by (auto simp: quiet_calls localPutIf_def split: option.splits if_splits)

lemma loadTombstones_quiet: "quiet w \<Longrightarrow> snd (loadTombstones w) = w"
  by (simp add: loadTombstones_def quiet_calls split: sum.splits content.splits)

definition stonesIn :: "objs \<Rightarrow> stamp byname" where
  "stonesIn s = (case map_of s tombstoneKey of Some (CStones m) \<Rightarrow> m | _ \<Rightarrow> [])"

lemma loadTombstones_Inr:
  "quiet w \<Longrightarrow> loadTombstones w = (Inr (m, t), w') \<Longrightarrow> w' = w \<and> m = stonesIn (wObjs w)"
  by (auto simp: loadTombstones_def quiet_calls localGet_def localPath_stones stonesIn_def
      split: option.splits content.splits if_splits)

lemma pruneAttempts_quiet:
  "quiet w \<Longrightarrow> pruneAttempts n keys le w = (x, w') \<Longrightarrow> quiet w' \<and> swept (wObjs w) (wObjs w') {}"
proof (induction n arbitrary: le w)
  case (Suc n)
  obtain y w1 where l: "loadTombstones w = (y, w1)" by (cases "loadTombstones w")
  then have w1: "w1 = w" using loadTombstones_quiet [OF Suc.prems(1)] by simp
  show ?case
  proof (cases y)
    case (Inr q)
    obtain cur t where q: "q = (cur, t)" by (cases q)
    show ?thesis
    proof (cases "\<forall>k \<in> set keys. map_of cur k = None")
      case True
      then show ?thesis using Suc.prems l w1 Inr q by auto
    next
      case False
      let ?c = "CStones (filter (\<lambda>p. fst p \<notin> set keys) cur)"
      obtain z w2 where put: "bPutIf tombstoneKey ?c t w = (z, w2)" by (cases "bPutIf tombstoneKey ?c t w")
      note pq = stones_put_quiet [OF Suc.prems(1) put]
      show ?thesis
      proof (cases "\<exists>e. z = Inl e \<and> errors_is e ErrCAS")
        case True
        then obtain e where "pruneAttempts n keys (Some e) w2 = (x, w')"
          using Suc.prems(2) l w1 Inr q False put by auto
        from Suc.IH [OF pq(1) this] show ?thesis using pq(2) swept_trans by fastforce
      next
        case no: False
        then have "w' = w2" using Suc.prems(2) l w1 Inr q False put by (auto split: sum.splits)
        then show ?thesis using pq by simp
      qed
    qed
  qed (use Suc.prems l w1 in auto)
qed simp

lemma sweepDelete_quiet:
  "quiet w \<Longrightarrow> sweepDelete ks acc w = ((dn, e), w') \<Longrightarrow> \<forall>k \<in> set ks. hasPrefix k ''data/'' \<Longrightarrow>
   quiet w' \<and> (\<exists>D. D \<subseteq> set ks \<and> swept (wObjs w) (wObjs w') D)"
proof (induction ks arbitrary: acc w)
  case Nil
  then have "w' = w" by simp
  then show ?case using Nil(1) swept_refl [of "wObjs w"] by blast
next
  case (Cons k ks)
  show ?case
  proof (cases "localPath k")
    case None
    let ?w = "w\<lparr>wObjs := mdel k (wObjs w)\<rparr>"
    have "bDelete k w = (None, ?w)"
      using Cons.prems(1) None by (simp add: quiet_calls localDelete_def)
    then have "sweepDelete ks (acc @ [k]) ?w = ((dn, e), w')" using Cons.prems(2) by simp
    moreover have "quiet ?w" using Cons.prems(1) by (simp add: quiet_def)
    ultimately obtain D where D: "quiet w'" "D \<subseteq> set ks" "swept (mdel k (wObjs w)) (wObjs w') D"
      using Cons.IH [of ?w "acc @ [k]"] Cons.prems(3) by auto
    have "swept (wObjs w) (wObjs w') ({k} \<union> D)"
      using swept_trans [OF swept_mdel D(3)] Cons.prems(3) by simp
    then show ?thesis using D(1,2) by (intro conjI exI [of _ "{k} \<union> D"]) auto
  next
    case (Some e')
    then have "bDelete k w = (Some e', w)"
      using Cons.prems(1) by (simp add: quiet_calls localDelete_def)
    then have "w' = w" using Cons.prems(2) by simp
    then show ?thesis using Cons.prems(1) swept_refl [of "wObjs w"] by blast
  qed
qed

definition sweepable :: "world \<Rightarrow> key \<Rightarrow> bool" where
  "sweepable w k \<longleftrightarrow> (\<exists>reMark heads. reachableObjectsAndHeads w = (Inr (reMark, heads), w) \<and>
     sweepChoose reMark (localList (wObjs w) ''data/'') heads k = Sweep)"

lemma gcSweep_quiet:
  assumes "quiet w" "gcSweep el w = ((n, e), w')"
  shows "\<exists>D. swept (wObjs w) (wObjs w') D \<and> (\<forall>k \<in> D. k \<in> set el \<and> sweepable w k)"
proof (cases "el = []")
  case True
  then have "w' = w" using assms(2) by (simp add: gcSweep_def)
  then show ?thesis by (intro exI [of _ "{}"]) simp
next
  case False
  obtain x w1 where m: "reachableObjectsAndHeads w = (x, w1)" by (cases "reachableObjectsAndHeads w")
  then have w1: "w1 = w" using mark_same [OF assms(1)] by simp
  show ?thesis
  proof (cases x)
    case (Inl e')
    then have "w' = w" using assms(2) m w1 False by (simp add: gcSweep_def)
    then show ?thesis by (intro exI [of _ "{}"]) simp
  next
    case (Inr mk)
    obtain reMark heads where mk: "mk = (reMark, heads)" by (cases mk)
    let ?ch = "sweepChoose reMark (localList (wObjs w) ''data/'') heads"
    define del where "del = sort (filter (\<lambda>k. ?ch k = Sweep) el)"
    obtain dn derr w3 where sd: "sweepDelete del [] w = ((dn, derr), w3)"
      by (metis prod.collapse)
    have data: "\<forall>k \<in> set del. hasPrefix k ''data/''"
      by (auto simp: del_def sweepChoose_def localList_set split: if_splits)
    from sweepDelete_quiet [OF assms(1) sd data] obtain D where
      D: "quiet w3" "D \<subseteq> set del" "swept (wObjs w) (wObjs w3) D" by blast
    obtain keys y where prune: "pruneTombstones keys w3 = (y, w')"
      using assms(2) False m w1 Inr mk sd
      by (auto simp: gcSweep_def quiet_calls [OF assms(1)] Let_def del_def [symmetric] split: prod.splits)
    have "swept (wObjs w3) (wObjs w') {}"
    proof (cases "keys = []")
      case False
      then show ?thesis using prune pruneAttempts_quiet [OF D(1)] by (simp add: pruneTombstones_def)
    qed (use prune in \<open>simp add: pruneTombstones_def\<close>)
    then have "swept (wObjs w) (wObjs w') D" using swept_trans [OF D(3)] by fastforce
    moreover have "\<forall>k \<in> D. k \<in> set el \<and> ?ch k = Sweep" using D(2) by (auto simp: del_def)
    ultimately show ?thesis using m w1 Inr mk unfolding sweepable_def by blast
  qed
qed

lemma tombstone_quiet:
  assumes "quiet w" "tombstone m w = (x, w')"
  shows "quiet w' \<and> swept (wObjs w) (wObjs w') {} \<and>
    (x = None \<longrightarrow> stonesIn (wObjs w') = putAll m (stonesIn (wObjs w)))"
proof -
  obtain y w1 where l: "loadTombstones w = (y, w1)" by (cases "loadTombstones w")
  then have w1: "w1 = w" using loadTombstones_quiet [OF assms(1)] by simp
  show ?thesis
  proof (cases y)
    case (Inr q)
    obtain cur t where q: "q = (cur, t)" by (cases q)
    then have cur: "cur = stonesIn (wObjs w)" using loadTombstones_Inr [OF assms(1)] l Inr by blast
    obtain z w2 where put: "bPutIf tombstoneKey (CStones (putAll m cur)) t w = (z, w2)"
      by (cases "bPutIf tombstoneKey (CStones (putAll m cur)) t w")
    then have w2: "w' = w2" "x = None \<longleftrightarrow> (\<exists>r. z = Inr r)"
      using assms(2) l w1 Inr q by (auto simp: tombstone_def split: sum.splits)
    have "stonesIn (wObjs w2) = putAll m cur" if "z = Inr r" for r
      using put that by (auto simp: quiet_calls [OF assms(1)] localPutIf_def stonesIn_def
          split: option.splits if_splits)
    then show ?thesis using stones_put_quiet [OF assms(1) put] w2 cur by auto
  qed (use assms l w1 in \<open>auto simp: tombstone_def\<close>)
qed

lemma mput_other: "(k, v) \<in> set (mput k' v' m) \<Longrightarrow> k \<noteq> k' \<Longrightarrow> (k, v) \<in> set m"
  by (induction m) (auto split: if_splits)

lemma putAll_other: "(k, v) \<in> set (putAll new cur) \<Longrightarrow> k \<notin> fst ` set new \<Longrightarrow> (k, v) \<in> set cur"
  unfolding putAll_def
proof (induction new arbitrary: cur)
  case (Cons p new)
  then have "(k, v) \<in> set (mput (fst p) (snd p) cur)" by (simp add: case_prod_unfold)
  then show ?case using mput_other Cons.prems(2) by fastforce
qed simp

text \<open>The keys phase 2 looks at carry a stone from before the run, older than the cutoff.\<close>

definition agedStone :: "int \<Rightarrow> objs \<Rightarrow> key \<Rightarrow> bool" where
  "agedStone cutoff s k \<longleftrightarrow>
     (\<exists>at ts. (k, at) \<in> set (stonesIn s) \<and> parseStamp at = Some ts \<and> ts < cutoff)"

lemma pastGrace_aged:
  "k \<in> set (pastGrace cutoff [] (stonesIn s)) \<Longrightarrow> agedStone cutoff s k"
  "k \<in> set (pastGrace cutoff new (putAll new (stonesIn s))) \<Longrightarrow> agedStone cutoff s k"
  by (auto simp: pastGrace_def agedStone_def map_of_eq_None_iff dest!: putAll_other split: option.splits)

lemma GC_quiet:
  assumes "quiet w" "GC env grace w = (r, w')"
  shows "\<exists>wm D. quiet wm \<and> swept (wObjs w) (wObjs wm) {} \<and> swept (wObjs wm) (wObjs w') D \<and>
    (\<forall>k \<in> D. agedStone (gCutoffNow env - grace) (wObjs w) k \<and> sweepable wm k)"
proof -
  have none: ?thesis if "quiet w'" "swept (wObjs w) (wObjs w') {}"
    by (rule exI [of _ w'], rule exI [of _ "{}"]) (simp add: that)
  have two: ?thesis if "quiet wm" "swept (wObjs w) (wObjs wm) {}" "gcSweep el wm = (ne, w')"
    "\<And>k. k \<in> set el \<Longrightarrow> agedStone (gCutoffNow env - grace) (wObjs w) k" for el wm ne
    using gcSweep_quiet [OF that(1), of el "fst ne" "snd ne"] that by (metis prod.collapse)
  obtain x w1 where mk: "reachableObjects w = (x, w1)" by (cases "reachableObjects w")
  then have w1: "w1 = w"
    using mark_same [OF assms(1)] by (auto simp: reachableObjects_def split: prod.splits sum.splits)
  show ?thesis
  proof (cases x)
    case (Inl e)
    then show ?thesis using assms mk w1 none by (simp add: GC_def)
  next
    case reach: (Inr reach)
    obtain y w2 where l: "loadTombstones w = (y, w2)" by (cases "loadTombstones w")
    then have w2: "w2 = w" using loadTombstones_quiet [OF assms(1)] by simp
    let ?new = "newStonesFor (gStampAt env) (localList (wObjs w) ''data/'') reach (stonesIn (wObjs w))"
    show ?thesis
    proof (cases y)
      case (Inl e)
      then show ?thesis using assms mk w1 reach l w2 none by (simp add: GC_def quiet_calls)
    next
      case (Inr q)
      then obtain t where q: "q = (stonesIn (wObjs w), t)"
        using loadTombstones_Inr [OF assms(1)] l by (cases q) blast
      show ?thesis
      proof (cases "?new = []")
        case True
        then have "\<exists>ne. gcSweep (pastGrace (gCutoffNow env - grace) [] (stonesIn (wObjs w))) w = (ne, w')"
          using assms mk w1 reach l w2 Inr q by (auto simp: GC_def quiet_calls split: prod.splits)
        then show ?thesis using two [OF assms(1) swept_refl] pastGrace_aged(1) by blast
      next
        case False
        obtain z w4 where tb: "tombstone ?new w = (z, w4)" by (cases "tombstone ?new w")
        note tq = tombstone_quiet [OF assms(1) tb]
        obtain y5 w5 where l5: "loadTombstones w4 = (y5, w5)" by (cases "loadTombstones w4")
        then have w5: "w5 = w4" using loadTombstones_quiet [of w4] tq by simp
        show ?thesis
        proof (cases "z = None \<and> (\<exists>q. y5 = Inr q)")
          case True
          then obtain t5 where y5: "y5 = Inr (putAll ?new (stonesIn (wObjs w)), t5)"
            using loadTombstones_Inr [of w4] l5 tq by fastforce
          have "\<exists>ne. gcSweep (pastGrace (gCutoffNow env - grace) ?new (putAll ?new (stonesIn (wObjs w)))) w4 = (ne, w')"
            using assms mk w1 reach l w2 Inr q False tb True l5 w5 y5
            by (auto simp: GC_def quiet_calls Let_def split: prod.splits)
          then show ?thesis using two [of w4] tq pastGrace_aged(2) by blast
        next
          case no: False
          then have "w' = w4"
            using assms mk w1 reach l w2 Inr q False tb l5 w5
            by (cases y5; cases z) (auto simp: GC_def quiet_calls Let_def split: prod.splits)
          then show ?thesis using none tq by blast
        qed
      qed
    qed
  qed
qed

section \<open>Safety of a pass\<close>

lemma swept_refsOf: "swept s s' D \<Longrightarrow> refsOf s' = refsOf s"
  by (simp add: swept_def refsOf_def)

lemma sweepable_unmarked:
  assumes "quiet w" "sweepable w k" "r \<in> refsOf (wObjs w)"
  shows "marked (viewOf (wObjs w)) r (- {k})"
    "ParseMemberKey k = Some m \<Longrightarrow> lineageOfDataKey k = Some (rLineage r) \<Longrightarrow>
       rHeadTXID r < cmMax m \<Longrightarrow> cmEpoch m < rEpoch r"
proof -
  obtain reMark heads where m: "reachableObjectsAndHeads w = (Inr (reMark, heads), w)"
    and c: "sweepChoose reMark (localList (wObjs w) ''data/'') heads k = Sweep"
    using assms(2) by (auto simp: sweepable_def)
  note cov = mark_covers [OF assms(1) m assms(3)]
  have "k \<notin> set reMark" using c by (auto simp: sweepChoose_def)
  then show "marked (viewOf (wObjs w)) r (- {k})"
    by (intro marked_mono [OF cov(1)]) auto
  show "cmEpoch m < rEpoch r"
    if "ParseMemberKey k = Some m" "lineageOfDataKey k = Some (rLineage r)" "rHeadTXID r < cmMax m"
    using cov(2) c that by (auto simp: headBelow_def sweepChoose_def split: if_splits)
qed

lemma tidy_dataPart:
  assumes "msorted s" "msorted s'" "dataPart s' = dataPart s" "tidy s l"
  shows "tidy s' l"
proof -
  have base: "lineageBase (viewOf s') x = lineageBase (viewOf s) x" for x
    by (metis assms(3) lineageBase_dataPart)
  moreover have "membersOf (viewOf s') x = membersOf (viewOf s) x" for x
    by (metis assms(1-3) membersOf_dataPart)
  ultimately show ?thesis
    using assms(4) ancestor_cong [of "viewOf s'" l _ "viewOf s"] unfolding tidy_def cleanLineage_def by simp blast
qed

text \<open>C1: A collection pass, on a store nobody else is writing, leaves every branch readable at its
  head and at each of its checkpoints: the chain of members that resolved before the pass resolves to
  the same members after it, and no ref changed. Whatever the grace period and whatever is swept.\<close>

theorem GC_keeps_branches:
  assumes "quiet w" "msorted (wObjs w)" "GC env grace w = (res, w')"
    "r \<in> refsOf (wObjs w)" "t \<in> set (refTxids r)" "tidy (wObjs w) (rLineage r)"
    "Chain (viewOf (wObjs w)) (rLineage r) t = Inr ms"
  shows "Chain (viewOf (wObjs w')) (rLineage r) t = Inr ms \<and> r \<in> refsOf (wObjs w')"
proof -
  obtain wm D where g: "quiet wm" "swept (wObjs w) (wObjs wm) {}" "swept (wObjs wm) (wObjs w') D"
    and D: "\<forall>k \<in> D. sweepable wm k"
    using GC_quiet [OF assms(1,3)] by blast
  have same: "msorted (wObjs wm)" "dataPart (wObjs wm) = dataPart (wObjs w)"
    using g(2) assms(2) by (simp_all add: swept_def)
  have r: "r \<in> refsOf (wObjs wm)" "r \<in> refsOf (wObjs w')"
    using swept_refsOf g(2,3) assms(4) by simp_all
  have c: "Chain (viewOf (wObjs wm)) (rLineage r) t = Inr ms"
    using Chain_dataPart [OF assms(2) same(1) _ assms(7)] same(2) by simp
  have after: "dataPart (wObjs w') = filter (\<lambda>p. fst p \<notin> D) (dataPart (wObjs wm))" "msorted (wObjs w')"
    using g(3) same(1) by (simp_all add: swept_def)
  have "Chain (viewOf (wObjs w')) (rLineage r) t = Inr ms"
  proof (cases "D = {}")
    case True
    then show ?thesis using Chain_dataPart [OF same(1) after(2) _ c] after(1) by simp
  next
    case False
    have mk: "marked (viewOf (wObjs wm)) r (- {k})" if "k \<in> D" for k
      using sweepable_unmarked(1) [OF g(1) _ r(1)] D that by blast
    from False obtain spine where sp: "BaseSpine (viewOf (wObjs wm)) (rLineage r) = Inr spine"
      using mk unfolding marked_def by blast
    have "set (spineBaseKeys (rLineage r) spine) \<inter> D = {}"
      using mk sp unfolding marked_def by fastforce
    moreover have "cmKey ` set ms \<inter> D = {}"
      using mk assms(5) c unfolding marked_def by fastforce
    ultimately show ?thesis
      using Chain_after_sweep [OF same(1) after(2,1) tidy_dataPart [OF assms(2) same assms(6)] c _ sp] by blast
  qed
  then show ?thesis using r by simp
qed

definition sampleGC :: gcEnv where
  "sampleGC = \<lparr>gStampAt = (\<lambda>_. 5000), gCutoffNow = 5000\<rparr>"

lemma sampleStore_tidy: "tidy sampleStore ''l2''"
proof -
  have base: "lineageBase (viewOf sampleStore) ''l2'' = Inr (Some \<lparr>bpLineage = ''l1'', bpTXID = 2\<rparr>)"
    "lineageBase (viewOf sampleStore) ''l1'' = Inr None" by code_simp+
  have "ancestor (viewOf sampleStore) l a \<Longrightarrow> l = ''l1'' \<or> l = ''l2'' \<Longrightarrow> a = ''l1'' \<or> a = ''l2''" for l a
    by (induction rule: ancestor.induct) (use base in auto)
  moreover have "cleanLineage (viewOf sampleStore) ''l1''" "cleanLineage (viewOf sampleStore) ''l2''" by code_simp+
  ultimately show ?thesis unfolding tidy_def by blast
qed

lemma sampleRef_listed: "sampleRef \<in> refsOf sampleStore"
proof -
  have "valid_name ''app''" "valid_name ''work''" "refAt sampleStore ''app'' ''work'' = Some sampleRef" by code_simp+
  then show ?thesis unfolding refsOf_def by blast
qed

theorem GC_keeps_branches_witness:
  "Chain (viewOf (wObjs (snd (GC sampleGC 60 sampleWorld)))) ''l2'' 3 = Inr [snap1, seg2, seg3]"
proof -
  obtain res w' where g: "GC sampleGC 60 sampleWorld = (res, w')" by (cases "GC sampleGC 60 sampleWorld")
  have s: "wObjs sampleWorld = sampleStore" "rLineage sampleRef = ''l2''" by (simp_all add: sampleWorld_def sampleRef_def)
  have t: "3 \<in> set (refTxids sampleRef)" by code_simp
  show ?thesis
    using GC_keeps_branches [OF sampleWorld_quiet _ g, of sampleRef 3 "[snap1, seg2, seg3]"]
      sampleStore_sorted sampleRef_listed t sampleStore_tidy sampleStore_work g s by simp
qed

lemma GC_removed:
  assumes "quiet w" "GC env grace w = (res, w')" "hasPrefix k ''data/''"
    "map_of (wObjs w) k = Some c" "map_of (wObjs w') k \<noteq> Some c"
  shows "agedStone (gCutoffNow env - grace) (wObjs w) k \<and>
    (\<exists>wm. quiet wm \<and> refsOf (wObjs wm) = refsOf (wObjs w) \<and> sweepable wm k)"
proof -
  obtain wm D where g: "quiet wm" "swept (wObjs w) (wObjs wm) {}" "swept (wObjs wm) (wObjs w') D"
    and D: "\<forall>k \<in> D. agedStone (gCutoffNow env - grace) (wObjs w) k \<and> sweepable wm k"
    using GC_quiet [OF assms(1,2)] by (elim exE conjE)
  have "map_of (dataPart (wObjs w')) k = (if k \<in> D then None else map_of (dataPart (wObjs w)) k)"
    using g by (simp add: swept_def map_of_filter_key [of "\<lambda>k. k \<notin> D"])
  then have "k \<in> D" using assms(3-5)
    by (auto simp: dataPart_def map_of_filter_key [of "\<lambda>k. hasPrefix k ''data/''"] split: if_splits)
  then show ?thesis using D g(1) swept_refsOf [OF g(2)] by blast
qed

text \<open>C28: Deletion takes two phases. An object a pass removed carried, before that pass began, a
  tombstone whose stamp is older than the pass's cutoff; nothing is deleted in the pass that first
  finds it unreachable.\<close>

theorem GC_two_phase:
  assumes "quiet w" "GC env grace w = (res, w')" "hasPrefix k ''data/''"
    "map_of (wObjs w) k = Some c" "map_of (wObjs w') k \<noteq> Some c"
  shows "agedStone (gCutoffNow env - grace) (wObjs w) k"
  using GC_removed [OF assms] by blast

text \<open>The sample store with an object of an abandoned lineage, and a tombstone for it from an earlier pass.\<close>

definition garbageKey :: key where
  "garbageKey = ''data/l9/1/snapshot-0000000000000001.ltx''"

definition garbageWorld :: world where
  "garbageWorld = sampleWorld\<lparr>wObjs := mput tombstoneKey (CStones [(garbageKey, At 100)]) (mput garbageKey (CRaw ''old'') sampleStore)\<rparr>"

lemma garbageWorld_quiet: "quiet garbageWorld"
  by (simp add: garbageWorld_def sampleWorld_quiet)

theorem GC_two_phase_witness:
  "agedStone 4940 (wObjs garbageWorld) garbageKey"
proof -
  obtain res w' where g: "GC sampleGC 60 garbageWorld = (res, w')" by (cases "GC sampleGC 60 garbageWorld")
  have "map_of (wObjs (snd (GC sampleGC 60 garbageWorld))) garbageKey = None" by code_simp
  then have a: "map_of (wObjs w') garbageKey \<noteq> Some (CRaw ''old'')" using g by simp
  have "hasPrefix garbageKey ''data/''" "map_of (wObjs garbageWorld) garbageKey = Some (CRaw ''old'')" by code_simp+
  from GC_two_phase [OF garbageWorld_quiet g this a] show ?thesis by (simp add: sampleGC_def)
qed

text \<open>C29: The compensating rule. A member written above the head of a live branch of its lineage, at
  the branch's lease epoch or a newer one, is a flush in progress: a pass never deletes it, however old
  its tombstone is.\<close>

theorem GC_keeps_inflight:
  assumes "quiet w" "GC env grace w = (res, w')" "r \<in> refsOf (wObjs w)"
    "map_of (wObjs w) k = Some c" "ParseMemberKey k = Some m" "lineageOfDataKey k = Some (rLineage r)"
    "rHeadTXID r < cmMax m" "rEpoch r \<le> cmEpoch m"
  shows "map_of (wObjs w') k = Some c"
proof (rule ccontr)
  assume "map_of (wObjs w') k \<noteq> Some c"
  moreover have "hasPrefix k ''data/''" using assms(6) lineageOfDataKey_SomeD hasPrefix_LineagePrefix by blast
  ultimately obtain wm where "quiet wm" "refsOf (wObjs wm) = refsOf (wObjs w)" "sweepable wm k"
    using GC_removed [OF assms(1,2) _ assms(4)] by blast
  then have "cmEpoch m < rEpoch r" using sweepable_unmarked(2) [of wm k r m] assms by simp
  then show False using assms(8) by simp
qed

theorem GC_keeps_inflight_witness:
  "map_of (wObjs (snd (GC sampleGC 60 (sampleWorld\<lparr>wObjs := mput ''data/l2/4/segment-0000000000000004-0000000000000004.ltx'' (CRaw ''D'') sampleStore\<rparr>))))
     ''data/l2/4/segment-0000000000000004-0000000000000004.ltx'' = Some (CRaw ''D'')"
    (is "map_of (wObjs (snd (GC _ _ ?w))) ?k = _")
proof -
  obtain res w' where g: "GC sampleGC 60 ?w = (res, w')" by (cases "GC sampleGC 60 ?w")
  have q: "quiet ?w" using sampleWorld_quiet by simp
  have "valid_name ''app''" "valid_name ''work''" "refAt (wObjs ?w) ''app'' ''work'' = Some sampleRef" by code_simp+
  then have r: "sampleRef \<in> refsOf (wObjs ?w)" unfolding refsOf_def by blast
  let ?m = "\<lparr>cmKey = ?k, cmSnapshot = False, cmMin = 4, cmMax = 4, cmEpoch = 4\<rparr>"
  have k: "map_of (wObjs ?w) ?k = Some (CRaw ''D'')" "ParseMemberKey ?k = Some ?m"
    "lineageOfDataKey ?k = Some (rLineage sampleRef)" "rHeadTXID sampleRef < cmMax ?m" "rEpoch sampleRef \<le> cmEpoch ?m"
    by code_simp+
  from GC_keeps_inflight [OF q g r k] g show ?thesis by simp
qed

text \<open>C30: The mark fails closed. When the chain of some branch's head or checkpoint cannot be resolved,
  the pass reports an error and leaves every object of the store as it found it.\<close>

theorem GC_fails_closed:
  assumes "quiet w" "r \<in> refsOf (wObjs w)" "t \<in> set (refTxids r)"
    "Chain (viewOf (wObjs w)) (rLineage r) t = Inl e" "GC env grace w = ((tombed, swp, oe), w')"
  shows "oe \<noteq> None \<and> tombed = 0 \<and> swp = 0 \<and> w' = w"
proof -
  obtain x w1 where m: "reachableObjectsAndHeads w = (x, w1)" by (cases "reachableObjectsAndHeads w")
  then have w1: "w1 = w" using mark_same [OF assms(1)] by simp
  have "\<not> marked (viewOf (wObjs w)) r (set reach)" for reach
    using assms(3,4) unfolding marked_def by fastforce
  then obtain e' where "x = Inl e'" using mark_covers [OF assms(1) _ assms(2)] m w1 by (cases x) auto
  then show ?thesis using assms(5) m w1 by (auto simp: GC_def reachableObjects_def)
qed

theorem GC_fails_closed_witness:
  "snd (GC sampleGC 60 (sampleWorld\<lparr>wObjs := mdel (cmKey seg2) sampleStore\<rparr>)) = sampleWorld\<lparr>wObjs := mdel (cmKey seg2) sampleStore\<rparr>"
    (is "snd (GC _ _ ?w) = _")
proof -
  obtain tombed swp oe w' where g: "GC sampleGC 60 ?w = ((tombed, swp, oe), w')" by (metis prod.collapse)
  have q: "quiet ?w" using sampleWorld_quiet by simp
  have "valid_name ''app''" "valid_name ''work''" "refAt (wObjs ?w) ''app'' ''work'' = Some sampleRef" by code_simp+
  then have r: "sampleRef \<in> refsOf (wObjs ?w)" unfolding refsOf_def by blast
  have t: "3 \<in> set (refTxids sampleRef)" by code_simp
  have "isl (Chain (viewOf (wObjs ?w)) (rLineage sampleRef) 3)" by code_simp
  then obtain e where "Chain (viewOf (wObjs ?w)) (rLineage sampleRef) 3 = Inl e" by (auto simp: isl_def)
  from GC_fails_closed [OF q r t this g] g show ?thesis by simp
qed

end
