(* ===== verification/Branches.thy ===== *)
theory Branches
  imports Destroy
begin

text \<open>
  Read-modify-write operations on a branch's ref: \<^verbatim>\<open>Touch\<close> (\<^verbatim>\<open>internal/ops/touch.go\<close>),
  \<^verbatim>\<open>SetProtected\<close> (\<^verbatim>\<open>internal/ops/protect.go\<close>), \<^verbatim>\<open>PruneCheckpoints\<close>
  (\<^verbatim>\<open>internal/ops/prune.go\<close>), and the reaper (\<^verbatim>\<open>internal/ops/reap.go\<close> with \<^verbatim>\<open>ReapDeadline\<close>
  of \<^verbatim>\<open>internal/ops/status.go\<close>).  The first three share one loop: read the ref, decide from it,
  write it back under its etag, start over when another write came first.
\<close>

section \<open>The shared loop\<close>

datatype 'r decision = Refuse err | Leave 'r | Write ref 'r

definition rmwBody ::
  "string \<Rightarrow> string \<Rightarrow> (ref \<Rightarrow> 'r decision) \<Rightarrow> world \<Rightarrow> (err + 'r) step \<times> world" where
  "rmwBody db branch decide w =
     (case GetRef db branch w of
        (Inl e, w1) \<Rightarrow> (Done (Inl e), w1)
      | (Inr (r, etag), w1) \<Rightarrow>
          (case decide r of
             Refuse e \<Rightarrow> (Done (Inl e), w1)
           | Leave x \<Rightarrow> (Done (Inr x), w1)
           | Write r' x \<Rightarrow>
               (case PutRef db branch r' etag w1 of
                  (Inl e, w2) \<Rightarrow> if errors_is e ErrCAS then (Retry, w2) else (Done (Inl e), w2)
                | (Inr _, w2) \<Rightarrow> (Done (Inr x), w2))))"

definition rmwLoop ::
  "nat \<Rightarrow> string \<Rightarrow> string \<Rightarrow> (ref \<Rightarrow> 'r decision) \<Rightarrow> world \<Rightarrow> ((err + 'r) \<times> world) option" where
  "rmwLoop fuel db branch decide w =
     (case ValidateName db of
        Some e \<Rightarrow> Some (Inl e, w)
      | None \<Rightarrow>
          (case ValidateName branch of
             Some e \<Rightarrow> Some (Inl e, w)
           | None \<Rightarrow> retryLoop fuel (rmwBody db branch decide) w))"

section \<open>Touch and protect\<close>

definition touchDecide :: "int option \<Rightarrow> int \<Rightarrow> ref \<Rightarrow> ref decision" where
  "touchDecide ttl now r =
     (if rReaping r then Refuse (plain_err ''ops: being reaped; too late to touch'')
      else
        let r1 = (case ttl of
                    None \<Rightarrow> r
                  | Some d \<Rightarrow> r\<lparr>rTTL := (if d > 0 then TTL d else NoTTL)\<rparr>);
            r2 = refTouch now r1
        in Write r2 r2)"

definition Touch ::
  "nat \<Rightarrow> string \<Rightarrow> string \<Rightarrow> int option \<Rightarrow> int \<Rightarrow> world \<Rightarrow> ((err + ref) \<times> world) option" where
  "Touch fuel db branch ttl now w = rmwLoop fuel db branch (touchDecide ttl now) w"

definition protectDecide :: "bool \<Rightarrow> ref \<Rightarrow> ref decision" where
  "protectDecide protected r =
     (if rReaping r \<or> rDeleting r
      then Refuse (plain_err ''ops: being removed; too late to change its protection'')
      else if rProtected r = protected then Leave r
      else let r1 = r\<lparr>rProtected := protected\<rparr> in Write r1 r1)"

definition SetProtected ::
  "nat \<Rightarrow> string \<Rightarrow> string \<Rightarrow> bool \<Rightarrow> world \<Rightarrow> ((err + ref) \<times> world) option" where
  "SetProtected fuel db branch protected w = rmwLoop fuel db branch (protectDecide protected) w"

section \<open>Pruning checkpoints\<close>

record pruneOptions =
  poNames :: "string list"
  poKeep :: int
  poKeepSet :: bool
  poForce :: bool

definition newerThan :: "checkpoint byname \<Rightarrow> string \<Rightarrow> string \<Rightarrow> bool" where
  "newerThan cps x y =
     (case (map_of cps x, map_of cps y) of
        (Some a, Some b) \<Rightarrow>
          if cpTXID a \<noteq> cpTXID b then cpTXID a > cpTXID b
          else if cpCreatedAt a \<noteq> cpCreatedAt b then cpCreatedAt a > cpCreatedAt b
          else x < y
      | _ \<Rightarrow> False)"

text \<open>\<^verbatim>\<open>sort.Slice\<close> with a strict order, as insertion.\<close>

fun insertBy :: "('a \<Rightarrow> 'a \<Rightarrow> bool) \<Rightarrow> 'a \<Rightarrow> 'a list \<Rightarrow> 'a list" where
  "insertBy lt x [] = [x]"
| "insertBy lt x (y # ys) = (if lt y x then y # insertBy lt x ys else x # y # ys)"

definition sortBy :: "('a \<Rightarrow> 'a \<Rightarrow> bool) \<Rightarrow> 'a list \<Rightarrow> 'a list" where
  "sortBy lt xs = foldr (insertBy lt) xs []"

definition newestFirst :: "checkpoint byname \<Rightarrow> string list" where
  "newestFirst cps = sortBy (newerThan cps) (mkeys cps)"

definition pruneDrop :: "pruneOptions \<Rightarrow> ref \<Rightarrow> string list option" where
  "pruneDrop opts r =
     (if poKeepSet opts then
        Some (drop (min (nat (poKeep opts)) (length (rCheckpoints r))) (newestFirst (rCheckpoints r)))
      else if list_all (\<lambda>n. map_of (rCheckpoints r) n \<noteq> None) (poNames opts)
      then Some (remdups (poNames opts))
      else None)"

definition pruneDecide :: "pruneOptions \<Rightarrow> ref \<Rightarrow> (string list \<times> nat) decision" where
  "pruneDecide opts r =
     (if rReaping r \<or> rDeleting r
      then Refuse (plain_err ''ops: being removed; too late to prune its checkpoints'')
      else if rProtected r \<and> \<not> poForce opts then Refuse (plain_err ''ops: protected; use --force'')
      else case pruneDrop opts r of
             None \<Rightarrow> Refuse (plain_err ''ops: no such checkpoint'')
           | Some d \<Rightarrow>
               let res = (sort d, length (rCheckpoints r) - length d)
               in if d = [] then Leave res
                  else Write (r\<lparr>rCheckpoints := filter (\<lambda>p. fst p \<notin> set d) (rCheckpoints r)\<rparr>) res)"

definition firstInvalid :: "string list \<Rightarrow> err option" where
  "firstInvalid ns = foldr (\<lambda>n rest. case ValidateName n of Some e \<Rightarrow> Some e | None \<Rightarrow> rest) ns None"

definition PruneCheckpoints ::
  "nat \<Rightarrow> string \<Rightarrow> string \<Rightarrow> pruneOptions \<Rightarrow> world \<Rightarrow> ((err + string list \<times> nat) \<times> world) option" where
  "PruneCheckpoints fuel db branch opts w =
     (case ValidateName db of
        Some e \<Rightarrow> Some (Inl e, w)
      | None \<Rightarrow>
          (case ValidateName branch of
             Some e \<Rightarrow> Some (Inl e, w)
           | None \<Rightarrow>
               if poKeepSet opts \<and> poNames opts \<noteq> []
               then Some (Inl (plain_err ''ops: prune takes checkpoint names or a keep count, not both''), w)
               else if \<not> poKeepSet opts \<and> poNames opts = []
               then Some (Inl (plain_err ''ops: prune needs checkpoint names or a keep count''), w)
               else if poKeepSet opts \<and> poKeep opts < 0
               then Some (Inl (plain_err ''ops: prune keep count must be 0 or more''), w)
               else case firstInvalid (poNames opts) of
                      Some e \<Rightarrow> Some (Inl e, w)
                    | None \<Rightarrow> rmwLoop fuel db branch (pruneDecide opts) w))"

section \<open>Reaping\<close>

definition parseRefTime :: "stamp \<Rightarrow> int option" where
  "parseRefTime s = parseStamp s"

definition ReapDeadline :: "ref \<Rightarrow> int option" where
  "ReapDeadline r =
     (case rTTL r of
        NoTTL \<Rightarrow> None
      | BadTTL _ \<Rightarrow> None
      | TTL d \<Rightarrow>
          if d \<le> 0 then None
          else case parseRefTime (rTouchedAt r) of
                 None \<Rightarrow> None
               | Some base \<Rightarrow>
                   Some ((case parseRefTime (rLeaseExpiry r) of
                            Some lease \<Rightarrow> if lease > base then lease else base
                          | None \<Rightarrow> base) + d))"

definition clearStaleReapingClaim ::
  "string \<Rightarrow> string \<Rightarrow> ref \<Rightarrow> etag \<Rightarrow> world \<Rightarrow> (bool \<times> err option) \<times> world" where
  "clearStaleReapingClaim db branch r etag w =
     (case PutRef db branch (r\<lparr>rReaping := False\<rparr>) etag w of
        (Inl e, w1) \<Rightarrow> if errors_is e ErrCAS then ((False, None), w1) else ((False, Some e), w1)
      | (Inr _, w1) \<Rightarrow> ((False, None), w1))"

text \<open>The best-effort unwinding of the reaping claim after a failed destroy.\<close>

definition unwindReaping :: "int \<Rightarrow> string \<Rightarrow> string \<Rightarrow> world \<Rightarrow> world" where
  "unwindReaping now db branch w =
     (case GetRef db branch w of
        (Inl e, w1) \<Rightarrow> w1
      | (Inr (r2, etag2), w1) \<Rightarrow>
          if rReaping r2 \<and> \<not> liveDeleteClaim r2 now
          then snd (PutRef db branch (r2\<lparr>rReaping := False\<rparr>) etag2 w1)
          else w1)"

text \<open>What \<^verbatim>\<open>reapOne\<close> decides from the ref: leave it, clear a stale claim, or claim and destroy.\<close>

datatype reapChoice = ReapLeave | ReapClear | ReapClaim

definition reapChoose :: "int \<Rightarrow> ref \<Rightarrow> reapChoice" where
  "reapChoose now r =
     (if rTTL r = NoTTL \<or> rProtected r then ReapLeave
      else if liveDeleteClaim r now then ReapLeave
      else case ReapDeadline r of
             None \<Rightarrow> if rReaping r then ReapClear else ReapLeave
           | Some deadline \<Rightarrow>
               if now < deadline then (if rReaping r then ReapClear else ReapLeave)
               else ReapClaim)"

definition reapOne ::
  "destroyEnv \<Rightarrow> int \<Rightarrow> int \<Rightarrow> string \<Rightarrow> string \<Rightarrow> world \<Rightarrow> (bool \<times> err option) \<times> world" where
  "reapOne env unwindNow now db branch w =
     (case GetRef db branch w of
        (Inl e, w1) \<Rightarrow> if errors_is e ErrNotFound then ((False, None), w1) else ((False, Some e), w1)
      | (Inr (r, etag), w1) \<Rightarrow>
          (case reapChoose now r of
             ReapLeave \<Rightarrow> ((False, None), w1)
           | ReapClear \<Rightarrow> clearStaleReapingClaim db branch r etag w1
           | ReapClaim \<Rightarrow>
               (case PutRef db branch (r\<lparr>rReaping := True\<rparr>) etag w1 of
                  (Inl e, w2) \<Rightarrow>
                    if errors_is e ErrCAS then ((False, None), w2) else ((False, Some e), w2)
                | (Inr _, w2) \<Rightarrow>
                    (case Destroy env db branch False w2 of
                       (None, w3) \<Rightarrow> ((True, None), w3)
                     | (Some e, w3) \<Rightarrow>
                         let w4 = unwindReaping unwindNow db branch w3 in
                         if errors_is e ErrDeleting then ((False, None), w4)
                         else ((False, Some e), w4)))))"

definition Reap ::
  "(string \<Rightarrow> string \<Rightarrow> destroyEnv \<times> int) \<Rightarrow> int \<Rightarrow> world \<Rightarrow> (string list \<times> err option) \<times> world" where
  "Reap envs now w =
     (case ListRefs w of
        (Inl e, w1) \<Rightarrow> (([], Some e), w1)
      | (Inr refs, w1) \<Rightarrow>
          passOver (\<lambda>db b. reapOne (fst (envs db b)) (snd (envs db b)) now db b)
            (branchesOf refs) [] None w1)"

section \<open>The loop ends and is atomic\<close>

lemma ValidateName_plain: "ValidateName n = Some e \<Longrightarrow> \<not> errors_is e s"
  unfolding ValidateName_def by (auto split: if_split_asm)

lemma PutRef_bad_name: "PutRef db b r m w = (Inl e, w') \<Longrightarrow> errors_is e ErrCAS \<Longrightarrow> valid_name db \<and> valid_name b"
  by (auto simp: PutRef_def dest: ValidateName_plain split: option.splits)

interpretation rmw: retry_body "rmwBody db b decide" for db b decide
proof (unfold_locales, goal_cases)
  case (1 w)
  obtain x w1 where g: "GetRef db b w = (x, w1)" by (cases "GetRef db b w")
  show ?case
  proof (cases x)
    case (Inr p)
    obtain r t where p: "p = (r, t)" by (cases p)
    obtain c where c: "map_of (wObjs w1) (RefKey db b) = Some c" "t = ETagOf c"
      using GetRef_Inr g Inr p by metis
    have q: "quiet w1" using GetRef_quiet [OF 1, of db b] g by simp
    show ?thesis
    proof (cases "decide r")
      case (Write r' y)
      obtain z w2 where put: "PutRef db b r' t w1 = (z, w2)" by (cases "PutRef db b r' t w1")
      have "\<not> errors_is e ErrCAS" if "z = Inl e" for e
        using PutRef_bad_name put that PutRef_quiet [OF q _ _ c(1), of r'] c(2) by fastforce
      then show ?thesis using g Inr p Write put by (cases z) (auto simp: rmwBody_def)
    qed (use g Inr p in \<open>auto simp: rmwBody_def\<close>)
  qed (use g in \<open>simp add: rmwBody_def\<close>)
next
  case (2 w w')
  then obtain r t w1 r' y e where g: "GetRef db b w = (Inr (r, t), w1)"
    "PutRef db b r' t w1 = (Inl e, w')" "errors_is e ErrCAS"
    by (auto simp: rmwBody_def split: prod.splits sum.splits decision.splits if_splits)
  then show ?case using PutRef_retry_consumes [OF g] PutRef_bad_name [OF g(2,3)] by simp
qed

text \<open>When the loop reports success, the ref it decided on was the stored one, and if it wrote,
  its write replaced exactly that ref.\<close>

lemma rmwLoop_Inr:
  assumes "rmwLoop n db b decide w = Some (Inr x, w')"
  shows "\<exists>r. (decide r = Leave x \<and> refAt (wObjs w') db b = Some r) \<or>
    (\<exists>r' s. decide r = Write r' x \<and> replaced db b r (stampRef r') s (wObjs w'))"
proof -
  have "retryLoop n (rmwBody db b decide) w = Some (Inr x, w')"
    using assms by (auto simp: rmwLoop_def split: option.splits)
  then obtain w0 where body: "rmwBody db b decide w0 = (Done (Inr x), w')"
    by (rule rmw.last_round)
  then obtain r t w1 where g: "GetRef db b w0 = (Inr (r, t), w1)"
    by (auto simp: rmwBody_def split: prod.splits sum.splits)
  show ?thesis
  proof (cases "decide r")
    case (Write r' y)
    then obtain t' where "PutRef db b r' t w1 = (Inr t', w')" "y = x"
      using body g by (auto simp: rmwBody_def split: prod.splits sum.splits if_splits)
    then show ?thesis using PutRef_replaced [OF g] Write by blast
  qed (use body g GetRef_refAt [OF g] in \<open>auto simp: rmwBody_def\<close>)
qed

lemma rmwLoop_enough:
  "length (wScript w) < n \<Longrightarrow> \<exists>r w'. rmwLoop n db b decide w = Some (r, w')"
  using rmw.enough_fuel by (auto simp: rmwLoop_def split: option.splits)

section \<open>Sorting by a strict order\<close>

lemma set_insertBy [simp]: "set (insertBy lt x ys) = insert x (set ys)"
  by (induction ys) auto

lemma set_sortBy [simp]: "set (sortBy lt xs) = set xs"
  by (induction xs) (auto simp: sortBy_def)

lemma length_insertBy [simp]: "length (insertBy lt x ys) = Suc (length ys)"
  by (induction ys) auto

lemma length_sortBy [simp]: "length (sortBy lt xs) = length xs"
  by (induction xs) (auto simp: sortBy_def)

lemma distinct_insertBy: "distinct (insertBy lt x ys) \<longleftrightarrow> x \<notin> set ys \<and> distinct ys"
  by (induction ys) auto

lemma distinct_sortBy [simp]: "distinct (sortBy lt xs) \<longleftrightarrow> distinct xs"
proof (induction xs)
  case (Cons x xs)
  then show ?case
    using set_sortBy [of lt xs] unfolding sortBy_def by (simp add: distinct_insertBy)
qed (simp add: sortBy_def)

lemma sorted_insertBy:
  assumes "sorted_wrt (\<lambda>a b. \<not> lt b a) ys"
    "\<And>a b. lt a b \<Longrightarrow> \<not> lt b a" "\<And>a b c. \<not> lt b a \<Longrightarrow> \<not> lt c b \<Longrightarrow> \<not> lt c a"
  shows "sorted_wrt (\<lambda>a b. \<not> lt b a) (insertBy lt x ys)"
  using assms(1)
proof (induction ys)
  case (Cons y ys)
  show ?case
  proof (cases "lt y x")
    case True
    with Cons assms(2) show ?thesis by auto
  next
    case False
    with Cons.prems assms(3) show ?thesis by auto
  qed
qed simp

lemma sorted_sortBy:
  assumes "\<And>a b. lt a b \<Longrightarrow> \<not> lt b a" "\<And>a b c. \<not> lt b a \<Longrightarrow> \<not> lt c b \<Longrightarrow> \<not> lt c a"
  shows "sorted_wrt (\<lambda>a b. \<not> lt b a) (sortBy lt xs)"
proof (induction xs)
  case (Cons x xs)
  then show ?case
    unfolding sortBy_def foldr.simps comp_def by (rule sorted_insertBy [OF _ assms])
qed (simp add: sortBy_def)

section \<open>What a prune keeps\<close>

text \<open>\<^verbatim>\<open>newerThan\<close> compares checkpoints that exist; extended to all names it is a strict order.\<close>

definition newerKey :: "checkpoint byname \<Rightarrow> string \<Rightarrow> string \<Rightarrow> bool" where
  "newerKey cps x y \<longleftrightarrow>
     (let a = the (map_of cps x); b = the (map_of cps y) in
      if cpTXID a \<noteq> cpTXID b then cpTXID a > cpTXID b
      else if cpCreatedAt a \<noteq> cpCreatedAt b then cpCreatedAt a > cpCreatedAt b
      else x < y)"

lemma newerKey_asym: "newerKey cps a b \<Longrightarrow> \<not> newerKey cps b a"
  by (auto simp: newerKey_def Let_def split: if_splits)

lemma not_newerKey:
  "\<not> newerKey cps y x \<longleftrightarrow>
     (let a = the (map_of cps x); b = the (map_of cps y) in
      cpTXID b < cpTXID a \<or> (cpTXID b = cpTXID a \<and>
        (cpCreatedAt b < cpCreatedAt a \<or> (cpCreatedAt b = cpCreatedAt a \<and> x \<le> y))))"
  by (auto simp: newerKey_def Let_def not_less order_le_less)

lemma lex3_trans:
  fixes a b c :: "'a::linorder" and p q r :: "'b::linorder" and x y z :: "'c::linorder"
  assumes "b < a \<or> (b = a \<and> (q < p \<or> (q = p \<and> x \<le> y)))"
    "c < b \<or> (c = b \<and> (r < q \<or> (r = q \<and> y \<le> z)))"
  shows "c < a \<or> (c = a \<and> (r < p \<or> (r = p \<and> x \<le> z)))"
  using assms by (elim disjE conjE) (auto intro: less_trans order_trans)

lemma newerKey_trans: "\<not> newerKey cps b a \<Longrightarrow> \<not> newerKey cps c b \<Longrightarrow> \<not> newerKey cps c a"
  unfolding not_newerKey Let_def by (rule lex3_trans)

lemma newerThan_newerKey:
  "x \<in> set (mkeys cps) \<Longrightarrow> y \<in> set (mkeys cps) \<Longrightarrow> newerThan cps x y = newerKey cps x y"
  by (auto simp: newerThan_def newerKey_def Let_def dest!: weak_map_of_SomeI split: option.splits)

lemma insertBy_cong:
  "(\<And>a b. a \<in> insert x (set ys) \<Longrightarrow> b \<in> insert x (set ys) \<Longrightarrow> lt a b = lt' a b) \<Longrightarrow>
    insertBy lt x ys = insertBy lt' x ys"
  by (induction ys) auto

lemma sortBy_cong:
  "(\<And>a b. a \<in> set xs \<Longrightarrow> b \<in> set xs \<Longrightarrow> lt a b = lt' a b) \<Longrightarrow> sortBy lt xs = sortBy lt' xs"
proof (induction xs)
  case (Cons x xs)
  then have "sortBy lt xs = sortBy lt' xs" by auto
  moreover have "insertBy lt x (sortBy lt' xs) = insertBy lt' x (sortBy lt' xs)"
    using Cons.prems by (intro insertBy_cong) auto
  ultimately show ?case by (simp add: sortBy_def)
qed (simp add: sortBy_def)

lemma newestFirst_sorted: "sorted_wrt (\<lambda>a b. \<not> newerKey cps b a) (newestFirst cps)"
proof -
  have "newestFirst cps = sortBy (newerKey cps) (mkeys cps)"
    unfolding newestFirst_def using newerThan_newerKey by (intro sortBy_cong) auto
  then show ?thesis
    using sorted_sortBy [of "newerKey cps"] newerKey_asym newerKey_trans by metis
qed

lemma sorted_wrt_take_drop: "sorted_wrt R xs \<Longrightarrow> x \<in> set (take n xs) \<Longrightarrow> y \<in> set (drop n xs) \<Longrightarrow> R x y"
  by (metis append_take_drop_id sorted_wrt_append)

lemma prune_keeps_newest:
  assumes "pruneDecide opts r = Write r' res" "poKeepSet opts" "msorted (rCheckpoints r)"
    "x \<in> set (mkeys (rCheckpoints r'))" "y \<in> set (mkeys (rCheckpoints r)) - set (mkeys (rCheckpoints r'))"
  shows "newerThan (rCheckpoints r) x y"
proof -
  let ?cps = "rCheckpoints r" and ?n = "min (nat (poKeep opts)) (length (rCheckpoints r))"
  let ?d = "drop ?n (newestFirst ?cps)"
  have r': "r' = r\<lparr>rCheckpoints := filter (\<lambda>p. fst p \<notin> set ?d) ?cps\<rparr>"
    using assms(1,2) by (auto simp: pruneDecide_def pruneDrop_def Let_def split: if_splits)
  have all: "set (newestFirst ?cps) = set (mkeys ?cps)" by (simp add: newestFirst_def)
  have y: "y \<in> set ?d" "y \<in> set (mkeys ?cps)" and x: "x \<in> set (mkeys ?cps)" "x \<notin> set ?d"
    using assms(4,5) r' by auto
  then have "x \<in> set (take ?n (newestFirst ?cps))"
    using all by (metis UnE append_take_drop_id set_append)
  then have "\<not> newerKey ?cps y x"
    using sorted_wrt_take_drop [OF newestFirst_sorted] y(1) by blast
  moreover have "x \<noteq> y" using x y by auto
  ultimately have "newerKey ?cps x y" by (auto simp: newerKey_def Let_def split: if_splits)
  then show ?thesis using newerThan_newerKey x y by blast
qed

section \<open>What the reaper may take\<close>

lemma ReapDeadline_live: "LeaseLive r now \<Longrightarrow> ReapDeadline r = Some d \<Longrightarrow> now < d"
  by (auto simp: LeaseLive_def ReapDeadline_def parseRefTime_def parseExpiry_def
      split: duration.splits option.splits if_splits)

lemma reapChoose_claim:
  "reapChoose now r = ReapClaim \<Longrightarrow>
     \<not> rProtected r \<and> \<not> LeaseLive r now \<and> \<not> liveDeleteClaim r now \<and> (\<exists>d. ReapDeadline r = Some d \<and> d \<le> now)"
  by (auto simp: reapChoose_def split: if_splits option.splits dest: ReapDeadline_live)

lemma destroyRefusal_unforced:
  "destroyRefusal env False r = None \<Longrightarrow>
     \<not> rProtected r \<and> \<not> LeaseLive r (dLeaseNow env) \<and> \<not> liveDeleteClaim r (dClaimNow env)"
  by (auto simp: destroyRefusal_def LeaseLive_def parseExpiry_def split: if_splits option.splits)

lemma reapOne_True:
  assumes "reapOne env un now db b w = ((True, e), w')" "wCondDelete w"
  shows "\<exists>r d. ReapDeadline r = Some d \<and> d \<le> now \<and> \<not> rProtected r \<and> \<not> LeaseLive r now"
    "\<exists>s c r. map_of s (RefKey db b) = Some c \<and> \<not> rProtected r \<and> \<not> LeaseLive r (dLeaseNow env) \<and>
       underClaim (claimedRef (dStamp env) r) False (destroyTimes env) c \<and> wObjs w' = mdel (RefKey db b) s"
proof -
  obtain r t w1 t' w2 where g: "GetRef db b w = (Inr (r, t), w1)" "reapChoose now r = ReapClaim"
    "PutRef db b (r\<lparr>rReaping := True\<rparr>) t w1 = (Inr t', w2)" "Destroy env db b False w2 = (None, w')"
    using assms(1)
    by (auto simp: reapOne_def clearStaleReapingClaim_def Let_def
        split: prod.splits sum.splits reapChoice.splits if_splits option.splits)
  show "\<exists>r d. ReapDeadline r = Some d \<and> d \<le> now \<and> \<not> rProtected r \<and> \<not> LeaseLive r now"
    using reapChoose_claim [OF g(2)] by blast
  have "wCondDelete w2"
    using caps_eqs(1) [OF g(1)] caps_eqs(2) [OF g(3)] assms(2) by (simp add: caps_def)
  from Destroy_None [OF g(4) this]
  show "\<exists>s c r. map_of s (RefKey db b) = Some c \<and> \<not> rProtected r \<and> \<not> LeaseLive r (dLeaseNow env) \<and>
       underClaim (claimedRef (dStamp env) r) False (destroyTimes env) c \<and> wObjs w' = mdel (RefKey db b) s"
    using destroyRefusal_unforced by blast
qed

section \<open>Properties\<close>

lemma decodeCheckpoints_sorted:
  assumes "decodeCheckpoints e ws r = Inr r'" "msorted (rCheckpoints r)"
  shows "msorted (rCheckpoints r')"
  using assms
  by (induction e ws r rule: decodeCheckpoints.induct)
     (auto simp: SetCheckpoint_def split: cpRaw.splits if_splits)

lemma refAt_sorted: "refAt s db b = Some r \<Longrightarrow> msorted (rCheckpoints r)"
  using decodeCheckpoints_sorted
  by (fastforce simp: refAt_def decodeRef_def decodeWire_def split: option.splits sum.splits content.splits if_splits)

lemma length_filter_keys:
  assumes "distinct (map fst m)" "distinct d" "set d \<subseteq> fst ` set m"
  shows "length (filter (\<lambda>p. fst p \<notin> set d) m) = length m - length d"
proof -
  have "length (filter (\<lambda>p. fst p \<notin> set d) m) = card (fst ` set m - set d)"
  proof -
    have "distinct (map fst (filter (\<lambda>p. fst p \<notin> set d) m))" using assms(1) by (simp add: distinct_map_filter)
    then have "length (filter (\<lambda>p. fst p \<notin> set d) m) = card (set (map fst (filter (\<lambda>p. fst p \<notin> set d) m)))"
      by (metis distinct_card length_map)
    also have "set (map fst (filter (\<lambda>p. fst p \<notin> set d) m)) = fst ` set m - set d" by auto
    finally show ?thesis .
  qed
  also have "\<dots> = card (fst ` set m) - card (set d)" using assms(3) by (simp add: card_Diff_subset)
  also have "card (fst ` set m) = length m" using assms(1) distinct_card [of "map fst m"] by simp
  also have "card (set d) = length d" using assms(2) by (rule distinct_card)
  finally show ?thesis .
qed

text \<open>Touching a branch ends and is atomic. Whatever other writers do to the ref, the loop returns
  within one more round than they make changes; when it succeeds, the ref it replaced in one
  compare-and-swap was not being reaped, and the new ref differs from it only in the touch time and, if a
  time to live was given, in that.\<close>

theorem Touch_returns:
  assumes "length (wScript w) < fuel"
  shows "\<exists>res w'. Touch fuel db b ttl now w = Some (res, w') \<and>
    (\<forall>r'. res = Inr r' \<longrightarrow> (\<exists>r s. replaced db b r (stampRef r') s (wObjs w') \<and> \<not> rReaping r \<and>
       r' = r\<lparr>rTouchedAt := At now, rTTL := (case ttl of None \<Rightarrow> rTTL r | Some d \<Rightarrow> if d > 0 then TTL d else NoTTL)\<rparr>))"
proof -
  obtain res w' where t: "Touch fuel db b ttl now w = Some (res, w')"
    using rmwLoop_enough [OF assms] unfolding Touch_def by blast
  have "\<exists>r s. replaced db b r (stampRef r') s (wObjs w') \<and> \<not> rReaping r \<and>
      r' = r\<lparr>rTouchedAt := At now, rTTL := (case ttl of None \<Rightarrow> rTTL r | Some d \<Rightarrow> if d > 0 then TTL d else NoTTL)\<rparr>"
    if "res = Inr r'" for r'
    using rmwLoop_Inr [of fuel db b "touchDecide ttl now" w r' w'] t that
    by (cases ttl) (auto simp: Touch_def touchDecide_def refTouch_def Let_def split: if_splits)
  then show ?thesis using t by blast
qed

theorem Touch_returns_witness:
  "\<exists>res w'. Touch 1 ''app'' ''work'' (Some 30) 2000 sampleWorld = Some (res, w')"
proof -
  have "length (wScript sampleWorld) < 1" by (simp add: sampleWorld_def)
  from Touch_returns [OF this] show ?thesis by blast
qed





end
