(* ===== verification/Pages.thy ===== *)
theory Pages
  imports Prelude
begin

text \<open>
  Databases as pages (\<^verbatim>\<open>internal/ltxio\<close>, \<^verbatim>\<open>internal/ops/checkpoint_delta.go\<close>): the file header,
  the rolling checksum computed by a full scan and kept incrementally, the checks on a segment before
  it is encoded, the application of segments to a database file, and the page diff a checkpoint
  encodes.  A file is its bytes; \<^verbatim>\<open>ReadAt\<close>, \<^verbatim>\<open>WriteAt\<close> and \<^verbatim>\<open>Truncate\<close> are modelled on them.  The LTX
  library is an argument \<^verbatim>\<open>ltxLib\<close>: its page checksum, checksum flag and lock page number.  A segment
  is given decoded; temporary files, renames and fsync are not modelled: a failed application
  leaves the destination untouched because it works on a copy.
\<close>

unbundle bit_operations_syntax

section \<open>Files\<close>

definition readAt :: "bytes \<Rightarrow> nat \<Rightarrow> nat \<Rightarrow> bytes option" where
  "readAt f off n = (if off + n \<le> length f then Some (take n (drop off f)) else None)"

definition writeAt :: "bytes \<Rightarrow> nat \<Rightarrow> bytes \<Rightarrow> bytes" where
  "writeAt f off d = take off (f @ replicate (off - length f) 0) @ d @ drop (off + length d) f"

definition truncateTo :: "bytes \<Rightarrow> nat \<Rightarrow> bytes" where
  "truncateTo f n = take n (f @ replicate (n - length f) 0)"

text \<open>The offset of a page, with the subtraction at 32 bits as in the source.\<close>

definition pageOff :: "u32 \<Rightarrow> u32 \<Rightarrow> nat" where
  "pageOff ps pgno = unat (pgno - 1) * unat ps"

definition be :: "bytes \<Rightarrow> nat" where
  "be bs = fold (\<lambda>b n. n * 256 + unat b) bs 0"

section \<open>The database header\<close>

definition dbHeaderSize :: nat where "dbHeaderSize = 100"

text \<open>The text SQLite begins a database with, and a zero byte.\<close>

definition dbHeaderMagic :: bytes where
  "dbHeaderMagic = map (\<lambda>c. of_nat (of_char c)) ''SQLite format 3'' @ [0]"

definition validPageSize :: "u32 \<Rightarrow> bool" where
  "validPageSize ps \<longleftrightarrow> \<not> (ps < 512 \<or> ps > 65536 \<or> ps AND (ps - 1) \<noteq> 0)"

definition checkDBHeader :: "bytes \<Rightarrow> u32 \<Rightarrow> err option" where
  "checkDBHeader hdr ps =
     (if take (length dbHeaderMagic) hdr \<noteq> dbHeaderMagic then Some (plain_err ''header: missing the magic'')
      else if \<not> validPageSize ps then Some (plain_err ''header: page size is not a power of two in [512, 65536]'')
      else None)"

definition readDBHeader :: "bytes \<Rightarrow> err + u32 \<times> u32" where
  "readDBHeader f =
     (case readAt f 0 dbHeaderSize of
        None \<Rightarrow> Inl (plain_err ''ltxio: read db header'')
      | Some hdr \<Rightarrow>
          let raw = of_nat (be (take 2 (drop 16 hdr))) :: u32;
              ps = (if raw = 1 then 65536 else raw)
          in (case checkDBHeader hdr ps of
                Some e \<Rightarrow> Inl (wrap_err ''ltxio'' e)
              | None \<Rightarrow> Inr (ps, of_nat (be (take 4 (drop 28 hdr))))))"

section \<open>The rolling checksum\<close>

record ltxLib =
  lxFlag :: u64
  lxChecksumPage :: "u32 \<Rightarrow> bytes \<Rightarrow> u64"
  lxLockPgno :: "u32 \<Rightarrow> u32"

definition UpdateChecksum :: "ltxLib \<Rightarrow> u64 \<Rightarrow> u32 \<Rightarrow> bytes \<Rightarrow> bytes \<Rightarrow> u64" where
  "UpdateChecksum lib running pgno oldData newData =
     (let c0 = running;
          c1 = (if oldData \<noteq> [] then c0 XOR lxChecksumPage lib pgno oldData else c0);
          c2 = (if newData \<noteq> [] then c1 XOR lxChecksumPage lib pgno newData else c1)
      in lxFlag lib OR c2)"

text \<open>The scan of \<^verbatim>\<open>checksumPages\<close> over the page numbers left.\<close>

fun checksumScan :: "ltxLib \<Rightarrow> bytes \<Rightarrow> u32 \<Rightarrow> u32 list \<Rightarrow> u64 \<Rightarrow> err + u64" where
  "checksumScan lib f ps [] chksum = Inr chksum"
| "checksumScan lib f ps (pgno # pgnos) chksum =
     (if pgno = lxLockPgno lib ps then checksumScan lib f ps pgnos chksum
      else case readAt f (pageOff ps pgno) (unat ps) of
             None \<Rightarrow> Inl (plain_err ''ltxio: read page'')
           | Some buf \<Rightarrow>
               checksumScan lib f ps pgnos (lxFlag lib OR (chksum XOR lxChecksumPage lib pgno buf)))"

definition pgnosTo :: "u32 \<Rightarrow> u32 list" where
  "pgnosTo n = map of_nat [1..<Suc (unat n)]"

definition checksumPages :: "ltxLib \<Rightarrow> bytes \<Rightarrow> u32 \<Rightarrow> u32 \<Rightarrow> err + u64" where
  "checksumPages lib f ps n = checksumScan lib f ps (pgnosTo n) (lxFlag lib)"

text \<open>\<^verbatim>\<open>wal\<close> is the size of the file's write-ahead log, 0 when there is none.\<close>

definition ChecksumDatabase :: "ltxLib \<Rightarrow> nat \<Rightarrow> bytes \<Rightarrow> err + u64" where
  "ChecksumDatabase lib wal f =
     (if wal > 0 then Inl (plain_err ''ltxio: non-empty WAL; checkpoint(TRUNCATE) first'')
      else case readDBHeader f of
             Inl e \<Rightarrow> Inl e
           | Inr (ps, n) \<Rightarrow> checksumPages lib f ps n)"

section \<open>Segments\<close>

type_synonym pages = "(u32 \<times> bytes) list"

record segment =
  sgPageSize :: u32
  sgCommit :: u32
  sgMin :: u64
  sgMax :: u64
  sgPre :: u64
  sgPages :: pages
  sgPost :: u64

text \<open>The loop of \<^verbatim>\<open>EncodeSegment\<close> over the pages, with the page before.\<close>

fun pagesRefusal :: "u32 \<Rightarrow> u32 option \<Rightarrow> pages \<Rightarrow> err option" where
  "pagesRefusal ps prev [] = None"
| "pagesRefusal ps prev ((pgno, d) # rest) =
     (if length d \<noteq> unat ps then Some (plain_err ''ltxio: page has the wrong size'')
      else if (case prev of None \<Rightarrow> False | Some p \<Rightarrow> pgno \<le> p)
      then Some (plain_err ''ltxio: pages must be sorted and unique'')
      else pagesRefusal ps (Some pgno) rest)"

text \<open>\<^verbatim>\<open>EncodeSegment\<close>: what it refuses, and the segment it hands the encoder, without the lock page.\<close>

definition EncodeSegment ::
  "ltxLib \<Rightarrow> u32 \<Rightarrow> u32 \<Rightarrow> u64 \<Rightarrow> u64 \<Rightarrow> u64 \<Rightarrow> u64 \<Rightarrow> pages \<Rightarrow> err + segment" where
  "EncodeSegment lib ps commit minTXID maxTXID pre post pages =
     (if minTXID = 0 \<or> maxTXID < minTXID then Inl (plain_err ''ltxio: bad segment range'')
      else if minTXID = 1 then Inl (plain_err ''ltxio: a segment cannot start at TXID 1'')
      else case pagesRefusal ps None pages of
        Some e \<Rightarrow> Inl e
      | None \<Rightarrow>
          if pre = 0 then Inl (plain_err ''ltxio: preApplyChecksum is required for a segment'')
          else if post = 0 then Inl (plain_err ''ltxio: postApplyChecksum is required for a segment'')
          else Inr \<lparr>sgPageSize = ps, sgCommit = commit, sgMin = minTXID, sgMax = maxTXID, sgPre = pre,
                    sgPages = filter (\<lambda>(pgno, _). pgno \<noteq> lxLockPgno lib ps) pages, sgPost = post\<rparr>)"

definition checkGrowth :: "u32 \<Rightarrow> u32 \<Rightarrow> u32 \<Rightarrow> u32 list \<Rightarrow> err option" where
  "checkGrowth commit prevCommit lock carried =
     (if commit \<le> prevCommit then None
      else
        let need0 = commit - prevCommit;
            need = (if lock > prevCommit \<and> lock \<le> commit then need0 - 1 else need0);
            have' = of_nat (length (filter (\<lambda>p. p > prevCommit \<and> p \<le> commit \<and> p \<noteq> lock) carried))
        in if have' \<noteq> need
           then Some (Err ''commit grows the database beyond the pages it carries'' [ErrUncarriedGrowth])
           else None)"

text \<open>The state of one segment's application: the file, the running checksum, the pages touched.\<close>

type_synonym applyState = "bytes \<times> u64 \<times> u32 list"

fun applyPages ::
  "ltxLib \<Rightarrow> u32 \<Rightarrow> u32 \<Rightarrow> u32 \<Rightarrow> pages \<Rightarrow> applyState \<Rightarrow> err + applyState" where
  "applyPages lib ps prevCommit commit [] st = Inr st"
| "applyPages lib ps prevCommit commit ((pgno, buf) # rest) (f, running, touched) =
     (let lock = lxLockPgno lib ps;
          newData = (if pgno \<le> commit \<and> pgno \<noteq> lock then buf else []);
          step = (\<lambda>oldData. applyPages lib ps prevCommit commit rest
                    (writeAt f (pageOff ps pgno) buf, UpdateChecksum lib running pgno oldData newData,
                     List.insert pgno touched))
      in if pgno \<le> prevCommit \<and> pgno \<noteq> lock
         then (case readAt f (pageOff ps pgno) (unat ps) of
                 None \<Rightarrow> Inl (plain_err ''ltxio: read old page'')
               | Some oldData \<Rightarrow> step oldData)
         else step [])"

text \<open>The pages a shrinking commit drops, over the page numbers left.\<close>

fun dropPages :: "ltxLib \<Rightarrow> u32 \<Rightarrow> bytes \<Rightarrow> u32 list \<Rightarrow> u32 list \<Rightarrow> u64 \<Rightarrow> err + u64" where
  "dropPages lib ps f touched [] running = Inr running"
| "dropPages lib ps f touched (pgno # pgnos) running =
     (if pgno = lxLockPgno lib ps \<or> pgno \<in> set touched then dropPages lib ps f touched pgnos running
      else case readAt f (pageOff ps pgno) (unat ps) of
             None \<Rightarrow> Inl (plain_err ''ltxio: read dropped page'')
           | Some oldData \<Rightarrow> dropPages lib ps f touched pgnos (UpdateChecksum lib running pgno oldData []))"

definition pgnosAbove :: "u32 \<Rightarrow> u32 \<Rightarrow> u32 list" where
  "pgnosAbove lo hi = map of_nat [Suc (unat lo)..<Suc (unat hi)]"

text \<open>The checks on a segment's header.\<close>

definition segmentRefusal :: "u32 \<Rightarrow> u64 \<Rightarrow> u64 \<Rightarrow> segment \<Rightarrow> err option" where
  "segmentRefusal ps prevMax running sg =
     (if sgMin sg = 1 then Some (plain_err ''ltxio: segment is a snapshot'')
      else if sgPageSize sg \<noteq> ps then Some (plain_err ''ltxio: segment page size does not match chain page size'')
      else if sgMin sg \<noteq> prevMax + 1 then Some (plain_err ''ltxio: segment has a TXID gap'')
      else if sgPre sg \<noteq> running then Some (plain_err ''ltxio: segment pre-apply checksum does not match chain state'')
      else None)"

definition applySegment ::
  "ltxLib \<Rightarrow> u32 \<Rightarrow> u64 \<Rightarrow> u32 \<Rightarrow> u64 \<Rightarrow> segment \<Rightarrow> bytes \<Rightarrow> err + bytes" where
  "applySegment lib ps prevMax prevCommit running sg f =
     (case segmentRefusal ps prevMax running sg of
        Some e \<Rightarrow> Inl e
      | None \<Rightarrow>
          (case applyPages lib ps prevCommit (sgCommit sg) (sgPages sg) (f, running, []) of
             Inl e \<Rightarrow> Inl e
           | Inr (f1, running1, touched) \<Rightarrow>
               (case checkGrowth (sgCommit sg) prevCommit (lxLockPgno lib ps) touched of
                  Some e \<Rightarrow> Inl e
                | None \<Rightarrow>
                    (case (if sgCommit sg < prevCommit
                           then dropPages lib ps f1 touched (pgnosAbove (sgCommit sg) prevCommit) running1
                           else Inr running1) of
                       Inl e \<Rightarrow> Inl e
                     | Inr running2 \<Rightarrow>
                         if running2 \<noteq> sgPost sg then Inl (plain_err ''ltxio: segment post-apply checksum mismatch'')
                         else Inr (truncateTo f1 (unat (sgCommit sg) * unat ps))))))"

fun applyLoop ::
  "ltxLib \<Rightarrow> u32 \<Rightarrow> u64 \<Rightarrow> u32 \<Rightarrow> u64 \<Rightarrow> segment list \<Rightarrow> bytes \<Rightarrow> err + (u64 \<times> u64) \<times> bytes" where
  "applyLoop lib ps prevMax prevCommit running [] f = Inr ((prevMax, running), f)"
| "applyLoop lib ps prevMax prevCommit running (sg # sgs) f =
     (case applySegment lib ps prevMax prevCommit running sg f of
        Inl e \<Rightarrow> Inl e
      | Inr f1 \<Rightarrow> applyLoop lib ps (sgMax sg) (sgCommit sg) (sgPost sg) sgs f1)"

text \<open>A chain position of 0 is unknown: the first segment's start is then taken as given.\<close>

definition applySegments ::
  "ltxLib \<Rightarrow> u32 \<Rightarrow> u64 \<Rightarrow> u32 \<Rightarrow> u64 \<Rightarrow> segment list \<Rightarrow> bytes \<Rightarrow> err + (u64 \<times> u64) \<times> bytes" where
  "applySegments lib ps prevMax prevCommit running sgs f =
     applyLoop lib ps
       (case sgs of sg # _ \<Rightarrow> if prevMax = 0 then sgMin sg - 1 else prevMax | [] \<Rightarrow> prevMax)
       prevCommit running sgs f"

definition ApplySegments ::
  "ltxLib \<Rightarrow> bytes \<Rightarrow> u64 \<Rightarrow> segment list \<Rightarrow> err + (u64 \<times> u64) \<times> bytes" where
  "ApplySegments lib start startChecksum sgs =
     (if sgs = [] then Inl (plain_err ''ltxio: ApplySegments needs at least one segment'')
      else case readDBHeader start of
             Inl e \<Rightarrow> Inl e
           | Inr (ps, n) \<Rightarrow> applySegments lib ps 0 n startChecksum sgs start)"

section \<open>The page diff of a checkpoint\<close>

text \<open>One page number of \<^verbatim>\<open>diffPages\<close>: what it adds to the pages, the shadow's checksum and the new one.\<close>

type_synonym diffState = "pages \<times> u64 \<times> u64"

definition diffPage :: "ltxLib \<Rightarrow> u32 \<Rightarrow> u32 \<Rightarrow> bytes option \<Rightarrow> bytes option \<Rightarrow> diffState \<Rightarrow> diffState" where
  "diffPage lib ps pgno curPage oldPage st =
     (case st of (pages, shadowSum, post) \<Rightarrow>
        if pgno = lxLockPgno lib ps then st
        else
          let shadowSum1 = (case oldPage of None \<Rightarrow> shadowSum | Some d \<Rightarrow> UpdateChecksum lib shadowSum pgno [] d);
              old = (case oldPage of None \<Rightarrow> [] | Some d \<Rightarrow> d)
          in (case curPage of
                None \<Rightarrow> (pages, shadowSum1, UpdateChecksum lib post pgno old [])
              | Some d \<Rightarrow>
                  if oldPage = None \<or> oldPage \<noteq> Some d
                  then (pages @ [(pgno, d)], shadowSum1, UpdateChecksum lib post pgno old d)
                  else (pages, shadowSum1, post)))"

fun diffLoop :: "ltxLib \<Rightarrow> u32 \<Rightarrow> u32 \<Rightarrow> u32 \<Rightarrow> bytes \<Rightarrow> bytes \<Rightarrow> u32 list \<Rightarrow> diffState \<Rightarrow> err + diffState" where
  "diffLoop lib ps commit shadowCommit cur shadow [] st = Inr st"
| "diffLoop lib ps commit shadowCommit cur shadow (pgno # pgnos) st =
     (let curPage = readAt cur (pageOff ps pgno) (unat ps);
          oldPage = readAt shadow (pageOff ps pgno) (unat ps)
      in if pgno \<le> commit \<and> curPage = None then Inl (plain_err ''ops: read page of the checkout'')
         else if pgno \<le> shadowCommit \<and> oldPage = None then Inl (plain_err ''ops: read page of the shadow'')
         else diffLoop lib ps commit shadowCommit cur shadow pgnos
                (diffPage lib ps pgno (if pgno \<le> commit then curPage else None)
                   (if pgno \<le> shadowCommit then oldPage else None) st))"

text \<open>The pages, the commit size, the page size, and the checksum after them.  The changed fraction is
  kept as its numerator and denominator.\<close>

record delta =
  dlPages :: pages
  dlCommit :: u32
  dlPageSize :: u32
  dlChanged :: "nat \<times> nat"
  dlPost :: u64

definition diffPages :: "ltxLib \<Rightarrow> bytes \<Rightarrow> bytes \<Rightarrow> u64 \<Rightarrow> err + delta" where
  "diffPages lib cur shadow pre =
     (case readDBHeader cur of
        Inl e \<Rightarrow> Inl e
      | Inr (ps, commit) \<Rightarrow>
          (case readDBHeader shadow of
             Inl e \<Rightarrow> Inl e
           | Inr (shadowSize, shadowCommit) \<Rightarrow>
               if shadowSize \<noteq> ps then Inl (Err ''ops: page size changed since the last checkpoint'' [ErrPageSizeChanged])
               else
                 (case diffLoop lib ps commit shadowCommit cur shadow (pgnosTo (max commit shadowCommit)) ([], 0, pre) of
                    Inl e \<Rightarrow> Inl e
                  | Inr (pages, shadowSum, post) \<Rightarrow>
                      if shadowSum \<noteq> pre
                      then Inl (Err ''ops: shadow does not match the recorded checkpoint state'' [ErrShadowDiverged])
                      else Inr \<lparr>dlPages = pages, dlCommit = commit, dlPageSize = ps,
                                dlChanged = (length pages, unat (max commit shadowCommit)), dlPost = post\<rparr>)))"

end
