(* ===== verification/Page_Sums.thy ===== *)
theory Page_Sums
  imports Pages
begin

text \<open>
  The rolling checksum as what it is: the exclusive or of one checksum for each page but the lock page.
  The lemmas relate it to the full scan and to the incremental updates of a segment's application:
  what one segment leaves in the file, when it is refused, and the checksum a run of segments reports.
\<close>

section \<open>Pages of a file\<close>

definition pageOf :: "u32 \<Rightarrow> bytes \<Rightarrow> u32 \<Rightarrow> bytes" where
  "pageOf ps f p = take (unat ps) (drop (pageOff ps p) f)"

definition inFile :: "u32 \<Rightarrow> bytes \<Rightarrow> u32 \<Rightarrow> bool" where
  "inFile ps f p \<longleftrightarrow> pageOff ps p + unat ps \<le> length f"

lemma readAt_page: "readAt f (pageOff ps p) (unat ps) = (if inFile ps f p then Some (pageOf ps f p) else None)"
  by (simp add: readAt_def inFile_def pageOf_def)

lemma pageOff_sep:
  assumes "p \<noteq> q"
  shows "pageOff ps p + unat ps \<le> pageOff ps q \<or> pageOff ps q + unat ps \<le> pageOff ps p"
proof -
  have "p - 1 \<noteq> q - 1" using assms by simp
  then have "unat (p - 1) \<noteq> unat (q - 1)" by (simp only: word_unat_eq_iff [symmetric]) simp
  then have "Suc (unat (p - 1)) \<le> unat (q - 1) \<or> Suc (unat (q - 1)) \<le> unat (p - 1)" by linarith
  then have "Suc (unat (p - 1)) * unat ps \<le> unat (q - 1) * unat ps \<or> Suc (unat (q - 1)) * unat ps \<le> unat (p - 1) * unat ps"
    using mult_le_mono1 by blast
  then show ?thesis by (simp add: pageOff_def add.commute)
qed

lemma length_writeAt [simp]: "length (writeAt f off d) = max (length f) (off + length d)"
  by (simp add: writeAt_def)

lemma length_truncateTo [simp]: "length (truncateTo f n) = n"
  by (simp add: truncateTo_def)

lemma pageOf_length: "inFile ps f p \<Longrightarrow> length (pageOf ps f p) = unat ps"
  by (simp add: inFile_def pageOf_def)

lemma writeAt_same: "length d = unat ps \<Longrightarrow> pageOf ps (writeAt f (pageOff ps p) d) p = d"
  by (simp add: pageOf_def writeAt_def)

lemma writeAt_other:
  assumes "length d = unat ps" "q \<noteq> p" "inFile ps f q"
  shows "pageOf ps (writeAt f (pageOff ps p) d) q = pageOf ps f q"
  using pageOff_sep [OF assms(2), of ps]
proof
  assume le: "pageOff ps q + unat ps \<le> pageOff ps p"
  have "take (unat ps) (drop (pageOff ps q) (take (pageOff ps p) (f @ replicate (pageOff ps p - length f) 0))) =
      take (unat ps) (drop (pageOff ps q) f)"
    using le assms(3) by (simp add: inFile_def drop_take min_def)
  then show ?thesis using le by (simp add: pageOf_def writeAt_def)
next
  assume le: "pageOff ps p + unat ps \<le> pageOff ps q"
  then have "drop (pageOff ps q) (writeAt f (pageOff ps p) d) = drop (pageOff ps q) f"
    using assms(1) by (cases "length f \<le> pageOff ps p") (simp_all add: writeAt_def min_def)
  then show ?thesis by (simp add: pageOf_def)
qed

lemma writeAt_inFile: "inFile ps f q \<Longrightarrow> inFile ps (writeAt f off d) q"
  by (simp add: inFile_def)

lemma writeAt_inFile_same: "length d = unat ps \<Longrightarrow> inFile ps (writeAt f (pageOff ps p) d) p"
  by (simp add: inFile_def)

lemma inFile_iff:
  assumes "length f = unat n * unat ps" "0 < unat ps" "1 \<le> p"
  shows "inFile ps f p \<longleftrightarrow> p \<le> n"
proof -
  have u: "unat (p - 1) = unat p - 1" "1 \<le> unat p" using assms(3) by unat_arith+
  have "inFile ps f p \<longleftrightarrow> Suc (unat (p - 1)) * unat ps \<le> unat n * unat ps"
    by (simp add: inFile_def pageOff_def assms(1) add.commute)
  also have "\<dots> \<longleftrightarrow> Suc (unat (p - 1)) \<le> unat n" using assms(2) by (simp only: mult_le_cancel2) simp
  also have "\<dots> \<longleftrightarrow> p \<le> n" using u by (simp add: word_le_nat_alt)
  finally show ?thesis .
qed

section \<open>Exclusive or over the pages\<close>

interpretation xs: comm_monoid_set "(XOR)" "0 :: u64"
  by unfold_locales (simp_all add: xor.assoc xor.commute)

definition pageSum :: "ltxLib \<Rightarrow> u32 \<Rightarrow> bytes \<Rightarrow> u32 set \<Rightarrow> u64" where
  "pageSum lib ps f D = xs.F (\<lambda>p. lxChecksumPage lib p (pageOf ps f p)) D"

definition dataPages :: "ltxLib \<Rightarrow> u32 \<Rightarrow> u32 \<Rightarrow> u32 set" where
  "dataPages lib ps n = {p. 1 \<le> p \<and> p \<le> n \<and> p \<noteq> lxLockPgno lib ps}"

definition dbSum :: "ltxLib \<Rightarrow> u32 \<Rightarrow> bytes \<Rightarrow> u32 \<Rightarrow> u64" where
  "dbSum lib ps f n = lxFlag lib OR pageSum lib ps f (dataPages lib ps n)"

lemma flag_absorb: "F OR ((F OR a) XOR b) = F OR (a XOR b)" for F a b :: u64
  by (rule bit_word_eqI) (auto simp: bit_simps)

lemma UpdateChecksum_flag:
  "UpdateChecksum lib (lxFlag lib OR a) p old new =
     lxFlag lib OR (a XOR (if old \<noteq> [] then lxChecksumPage lib p old else 0) XOR
       (if new \<noteq> [] then lxChecksumPage lib p new else 0))"
  by (rule bit_word_eqI) (auto simp: bit_simps UpdateChecksum_def Let_def)

lemma pageSum_cong:
  "D = D' \<Longrightarrow> (\<And>p. p \<in> D' \<Longrightarrow> pageOf ps f p = pageOf ps f' p) \<Longrightarrow> pageSum lib ps f D = pageSum lib ps f' D'"
  unfolding pageSum_def by (rule xs.cong) simp_all

lemma pageSum_insert:
  "p \<notin> D \<Longrightarrow> pageSum lib ps f (insert p D) = lxChecksumPage lib p (pageOf ps f p) XOR pageSum lib ps f D"
  unfolding pageSum_def by (rule xs.insert) simp_all

lemma pageSum_remove:
  "p \<in> D \<Longrightarrow> pageSum lib ps f D = lxChecksumPage lib p (pageOf ps f p) XOR pageSum lib ps f (D - {p})"
  unfolding pageSum_def by (rule xs.remove) simp_all

lemma pageSum_drop:
  assumes "p \<in> D"
  shows "pageSum lib ps f D XOR lxChecksumPage lib p (pageOf ps f p) = pageSum lib ps f (D - {p})"
  using pageSum_remove [OF assms, of lib ps f] by (simp add: xor.commute xor.left_commute)

section \<open>The full scan\<close>

lemma unat_of_nat32: "k < 2 ^ 32 \<Longrightarrow> unat (of_nat k :: u32) = k"
  by (simp add: unsigned_of_nat take_bit_nat_eq_self)

lemma unat_bound32: "unat (n :: u32) < 2 ^ 32"
  using unsigned_less [of n] by simp

lemma of_nat_upt_iff:
  assumes "b \<le> 2 ^ 32"
  shows "p \<in> set (map of_nat [a..<b] :: u32 list) \<longleftrightarrow> a \<le> unat p \<and> unat p < b"
proof
  assume "p \<in> set (map of_nat [a..<b])"
  then obtain k where k: "p = of_nat k" "a \<le> k" "k < b" by (auto simp del: upt_Suc)
  have "k < 2 ^ 32" using k(3) assms by (rule order_less_le_trans)
  then have "unat p = k" unfolding k(1) by (rule unat_of_nat32)
  then show "a \<le> unat p \<and> unat p < b" using k by simp
next
  assume "a \<le> unat p \<and> unat p < b"
  then have "unat p \<in> set [a..<b]" by simp
  then have "of_nat (unat p) \<in> set (map of_nat [a..<b] :: u32 list)" unfolding list.set_map by (rule imageI)
  then show "p \<in> set (map of_nat [a..<b])" by simp
qed

lemma Suc_unat_bound32: "Suc (unat (n :: u32)) \<le> 2 ^ 32"
  using unat_bound32 [of n] by simp

lemma pgnosTo_set: "set (pgnosTo n) = {p. 1 \<le> p \<and> p \<le> n}"
proof -
  have "p \<in> set (pgnosTo n) \<longleftrightarrow> 1 \<le> p \<and> p \<le> n" for p
    unfolding pgnosTo_def of_nat_upt_iff [OF Suc_unat_bound32] by (simp add: word_le_nat_alt less_Suc_eq_le)
  then show ?thesis by blast
qed

lemma pgnosAbove_set: "set (pgnosAbove lo hi) = {p. lo < p \<and> p \<le> hi}"
proof -
  have "p \<in> set (pgnosAbove lo hi) \<longleftrightarrow> lo < p \<and> p \<le> hi" for p
    unfolding pgnosAbove_def of_nat_upt_iff [OF Suc_unat_bound32]
    by (simp add: word_le_nat_alt word_less_nat_alt less_Suc_eq_le Suc_le_eq)
  then show ?thesis by blast
qed

lemma distinct_of_nat_upt: "b \<le> 2 ^ 32 \<Longrightarrow> distinct (map of_nat [a..<b] :: u32 list)"
proof -
  assume b: "b \<le> 2 ^ 32"
  have "x = y" if "x < b" "y < b" "(of_nat x :: u32) = of_nat y" for x y
  proof -
    have "unat (of_nat x :: u32) = x" "unat (of_nat y :: u32) = y"
      using that(1,2) b by (intro unat_of_nat32; linarith)+
    then show ?thesis using that(3) by metis
  qed
  then show ?thesis by (simp add: distinct_map inj_on_def)
qed

lemma pgnosTo_distinct: "distinct (pgnosTo n)"
  unfolding pgnosTo_def by (rule distinct_of_nat_upt [OF Suc_unat_bound32])

lemma checksumScan_eq:
  assumes "distinct ns" "\<forall>p \<in> set ns. inFile ps f p" "set ns \<inter> D = {}"
  shows "checksumScan lib f ps ns (lxFlag lib OR pageSum lib ps f D) =
    Inr (lxFlag lib OR pageSum lib ps f (D \<union> (set ns - {lxLockPgno lib ps})))"
  using assms
proof (induction ns arbitrary: D)
  case (Cons p ns)
  show ?case
  proof (cases "p = lxLockPgno lib ps")
    case True
    then show ?thesis using Cons by simp
  next
    case False
    have "p \<notin> D" "set ns \<inter> insert p D = {}" using Cons.prems by auto
    then have "checksumScan lib f ps ns (lxFlag lib OR pageSum lib ps f (insert p D)) =
      Inr (lxFlag lib OR pageSum lib ps f (insert p D \<union> (set ns - {lxLockPgno lib ps})))"
      using Cons.prems by (intro Cons.IH) auto
    moreover have "insert p D \<union> (set ns - {lxLockPgno lib ps}) = D \<union> (set (p # ns) - {lxLockPgno lib ps})"
      using False by auto
    moreover have "lxFlag lib OR ((lxFlag lib OR pageSum lib ps f D) XOR lxChecksumPage lib p (pageOf ps f p)) =
      lxFlag lib OR pageSum lib ps f (insert p D)"
      unfolding flag_absorb pageSum_insert [OF \<open>p \<notin> D\<close>] by (simp only: xor.commute)
    ultimately show ?thesis using Cons.prems(2) False by (simp add: readAt_page)
  qed
qed simp

lemma checksumPages_eq:
  assumes "length f = unat n * unat ps" "0 < unat ps"
  shows "checksumPages lib f ps n = Inr (dbSum lib ps f n)"
proof -
  have "\<forall>p \<in> set (pgnosTo n). inFile ps f p" using inFile_iff [OF assms] by (simp add: pgnosTo_set)
  then have "checksumScan lib f ps (pgnosTo n) (lxFlag lib OR pageSum lib ps f {}) =
      Inr (lxFlag lib OR pageSum lib ps f ({} \<union> (set (pgnosTo n) - {lxLockPgno lib ps})))"
    by (intro checksumScan_eq pgnosTo_distinct) auto
  moreover have "set (pgnosTo n) - {lxLockPgno lib ps} = dataPages lib ps n"
    by (auto simp: pgnosTo_set dataPages_def)
  ultimately show ?thesis by (simp add: checksumPages_def dbSum_def pageSum_def)
qed

section \<open>Applying a segment's pages\<close>

text \<open>Pages as the encoder writes them: numbered from 1, each once, of the page size.\<close>

definition pagesWf :: "u32 \<Rightarrow> pages \<Rightarrow> bool" where
  "pagesWf ps pgs \<longleftrightarrow> 0 < unat ps \<and> distinct (map fst pgs) \<and> (\<forall>(p, d) \<in> set pgs. 1 \<le> p \<and> length d = unat ps)"

text \<open>The pages the running checksum covers while a segment is applied: a touched page counts when
  it is within the new size, an untouched one while it is within the old.\<close>

definition covered :: "ltxLib \<Rightarrow> u32 \<Rightarrow> u32 \<Rightarrow> u32 \<Rightarrow> u32 set \<Rightarrow> u32 set" where
  "covered lib ps prev commit touched =
     {p. 1 \<le> p \<and> p \<noteq> lxLockPgno lib ps \<and> (if p \<in> touched then p \<le> commit else p \<le> prev)}"

lemma covered_step:
  assumes "1 \<le> p" "p \<notin> T"
  shows "p \<in> covered lib ps prev commit T \<longleftrightarrow> p \<le> prev \<and> p \<noteq> lxLockPgno lib ps"
    "covered lib ps prev commit (insert p T) =
       (if p \<le> commit \<and> p \<noteq> lxLockPgno lib ps then insert p (covered lib ps prev commit T)
        else covered lib ps prev commit T - {p})"
  using assms by (auto simp: covered_def)

lemma UpdateChecksum_page:
  assumes "1 \<le> p" "p \<notin> T" "length d = unat ps" "0 < unat ps"
    "p \<le> prev \<and> p \<noteq> lxLockPgno lib ps \<Longrightarrow> inFile ps f p" "\<And>q. q \<in> covered lib ps prev commit T \<Longrightarrow> inFile ps f q"
  shows "UpdateChecksum lib (lxFlag lib OR pageSum lib ps f (covered lib ps prev commit T)) p
      (if p \<le> prev \<and> p \<noteq> lxLockPgno lib ps then pageOf ps f p else [])
      (if p \<le> commit \<and> p \<noteq> lxLockPgno lib ps then d else []) =
    lxFlag lib OR pageSum lib ps (writeAt f (pageOff ps p) d) (covered lib ps prev commit (insert p T))"
proof -
  let ?D = "covered lib ps prev commit T" and ?f = "writeAt f (pageOff ps p) d"
  have rest: "pageSum lib ps ?f (?D - {p}) = pageSum lib ps f (?D - {p})"
    by (rule pageSum_cong [OF refl]) (use assms(6) in \<open>auto intro: writeAt_other [OF assms(3)]\<close>)
  have new: "pageOf ps ?f p = d" by (rule writeAt_same [OF assms(3)])
  have ne: "d \<noteq> []" "p \<le> prev \<and> p \<noteq> lxLockPgno lib ps \<Longrightarrow> pageOf ps f p \<noteq> []"
    using assms(3,4) pageOf_length [OF assms(5)] by auto
  have old: "pageSum lib ps f ?D XOR (if p \<le> prev \<and> p \<noteq> lxLockPgno lib ps then lxChecksumPage lib p (pageOf ps f p) else 0) =
      pageSum lib ps f (?D - {p})"
    using pageSum_drop [of p ?D lib ps f] covered_step(1) [OF assms(1,2), of lib ps prev commit] by auto
  let ?o = "if p \<le> prev \<and> p \<noteq> lxLockPgno lib ps then pageOf ps f p else []"
  let ?n = "if p \<le> commit \<and> p \<noteq> lxLockPgno lib ps then d else []"
  have o: "(if ?o \<noteq> [] then lxChecksumPage lib p ?o else 0) =
      (if p \<le> prev \<and> p \<noteq> lxLockPgno lib ps then lxChecksumPage lib p (pageOf ps f p) else 0)" using ne(2) by simp
  have n: "(if ?n \<noteq> [] then lxChecksumPage lib p ?n else 0) =
      (if p \<le> commit \<and> p \<noteq> lxLockPgno lib ps then lxChecksumPage lib p d else 0)" using ne(1) by simp
  have "pageSum lib ps f (?D - {p}) XOR (if p \<le> commit \<and> p \<noteq> lxLockPgno lib ps then lxChecksumPage lib p d else 0) =
      pageSum lib ps ?f (covered lib ps prev commit (insert p T))"
  proof (cases "p \<le> commit \<and> p \<noteq> lxLockPgno lib ps")
    case True
    have "insert p ?D = insert p (?D - {p})" by blast
    then have "pageSum lib ps ?f (insert p ?D) = lxChecksumPage lib p d XOR pageSum lib ps f (?D - {p})"
      using pageSum_insert [of p "?D - {p}" lib ps ?f] rest new by simp
    then show ?thesis using True by (simp add: covered_step(2) [OF assms(1,2)] xor.commute)
  qed (auto simp: covered_step(2) [OF assms(1,2)] rest)
  then show ?thesis unfolding UpdateChecksum_flag o n by (simp only: xor.assoc [symmetric] old)
qed

text \<open>The file after the pages: a carried page holds its new content, another what it held.\<close>

definition pagesApplied :: "u32 \<Rightarrow> pages \<Rightarrow> bytes \<Rightarrow> bytes \<Rightarrow> bool" where
  "pagesApplied ps pgs f f' \<longleftrightarrow>
     (\<forall>p d. (p, d) \<in> set pgs \<longrightarrow> inFile ps f' p \<and> pageOf ps f' p = d) \<and>
     (\<forall>q. q \<notin> fst ` set pgs \<and> inFile ps f q \<longrightarrow> inFile ps f' q \<and> pageOf ps f' q = pageOf ps f q)"

lemma pagesApplied_step:
  assumes "pagesApplied ps pgs (writeAt f (pageOff ps p) d) f'" "length d = unat ps" "p \<notin> fst ` set pgs"
  shows "pagesApplied ps ((p, d) # pgs) f f'"
proof -
  let ?f = "writeAt f (pageOff ps p) d"
  have "inFile ps f' p \<and> pageOf ps f' p = d"
    using assms writeAt_inFile_same [OF assms(2), of f p] writeAt_same [OF assms(2), of f p] by (simp add: pagesApplied_def)
  moreover have "inFile ps f' q \<and> pageOf ps f' q = pageOf ps f q" if "q \<notin> fst ` set pgs" "q \<noteq> p" "inFile ps f q" for q
    using assms(1) that writeAt_inFile [OF that(3)] writeAt_other [OF assms(2) that(2,3)] by (simp add: pagesApplied_def)
  ultimately show ?thesis using assms(1) by (auto simp: pagesApplied_def)
qed

lemma applyPages_ok:
  assumes "pagesWf ps pgs" "fst ` set pgs \<inter> set T = {}" "distinct T"
    "\<And>q. 1 \<le> q \<Longrightarrow> q \<le> prev \<or> q \<in> set T \<Longrightarrow> inFile ps f q"
  shows "\<exists>f' T'. applyPages lib ps prev commit pgs
      (f, lxFlag lib OR pageSum lib ps f (covered lib ps prev commit (set T)), T) =
      Inr (f', lxFlag lib OR pageSum lib ps f' (covered lib ps prev commit (set T')), T') \<and>
    distinct T' \<and> set T' = set T \<union> fst ` set pgs \<and> pagesApplied ps pgs f f' \<and>
    (\<forall>q. 1 \<le> q \<and> (q \<le> prev \<or> q \<in> set T') \<longrightarrow> inFile ps f' q)"
  using assms
proof (induction pgs arbitrary: f T)
  case Nil
  then show ?case by (simp add: pagesApplied_def)
next
  case (Cons pd pgs)
  obtain p d where pd: "pd = (p, d)" by (cases pd)
  have wf: "pagesWf ps pgs" "p \<notin> fst ` set pgs" "1 \<le> p" "length d = unat ps" "0 < unat ps" "p \<notin> set T"
    using Cons.prems(1,2) by (auto simp: pagesWf_def pd)
  let ?f = "writeAt f (pageOff ps p) d" and ?T = "List.insert p T"
  have inF: "inFile ps ?f q" if "1 \<le> q" "q \<le> prev \<or> q \<in> set ?T" for q
    using Cons.prems(4) [of q] that writeAt_inFile writeAt_inFile_same [OF wf(4)] by (cases "q = p") auto
  have disj: "fst ` set pgs \<inter> set ?T = {}" and dist: "distinct ?T" using Cons.prems(2,3) wf(2) by (auto simp: pd)
  obtain f' T' where ih: "applyPages lib ps prev commit pgs
      (?f, lxFlag lib OR pageSum lib ps ?f (covered lib ps prev commit (set ?T)), ?T) =
      Inr (f', lxFlag lib OR pageSum lib ps f' (covered lib ps prev commit (set T')), T')"
    "distinct T'" "set T' = set ?T \<union> fst ` set pgs" "pagesApplied ps pgs ?f f'"
    "\<forall>q. 1 \<le> q \<and> (q \<le> prev \<or> q \<in> set T') \<longrightarrow> inFile ps f' q"
    using Cons.IH [OF wf(1) disj dist inF] by blast
  have upd: "UpdateChecksum lib (lxFlag lib OR pageSum lib ps f (covered lib ps prev commit (set T))) p
      (if p \<le> prev \<and> p \<noteq> lxLockPgno lib ps then pageOf ps f p else [])
      (if p \<le> commit \<and> p \<noteq> lxLockPgno lib ps then d else []) =
    lxFlag lib OR pageSum lib ps ?f (covered lib ps prev commit (set ?T))"
    using UpdateChecksum_page [OF wf(3,6,4,5), of prev lib f commit] Cons.prems(4) wf(3)
    by (auto simp: covered_def split: if_splits)
  have "applyPages lib ps prev commit (pd # pgs)
      (f, lxFlag lib OR pageSum lib ps f (covered lib ps prev commit (set T)), T) =
      Inr (f', lxFlag lib OR pageSum lib ps f' (covered lib ps prev commit (set T')), T')"
    using ih(1) upd Cons.prems(4) [OF wf(3)] by (auto simp: pd readAt_page Let_def split: if_splits)
  moreover have "pagesApplied ps (pd # pgs) f f'" unfolding pd by (rule pagesApplied_step [OF ih(4) wf(4,2)])
  ultimately show ?case using ih(2,3,5) by (auto simp: pd)
qed

section \<open>Growth and shrinking\<close>

lemma pgnosAbove_distinct: "distinct (pgnosAbove lo hi)"
  unfolding pgnosAbove_def by (rule distinct_of_nat_upt [OF Suc_unat_bound32])

lemma card_above: "card {p :: u32. lo < p \<and> p \<le> hi} = unat hi - unat lo"
  using distinct_card [OF pgnosAbove_distinct [of lo hi]] unfolding pgnosAbove_set by (simp add: pgnosAbove_def del: upt_Suc)

lemma card_needed:
  assumes "prev < commit"
  shows "card {p :: u32. prev < p \<and> p \<le> commit \<and> p \<noteq> lock} =
    unat (if prev < lock \<and> lock \<le> commit then commit - prev - 1 else commit - prev)"
proof -
  let ?A = "{p :: u32. prev < p \<and> p \<le> commit}"
  have eq: "{p. prev < p \<and> p \<le> commit \<and> p \<noteq> lock} = ?A - {lock}" by blast
  have u: "unat (commit - prev) = unat commit - unat prev" using assms by unat_arith
  have "unat (commit - prev - 1) = unat (commit - prev) - 1" using assms by unat_arith
  then show ?thesis using u card_above [of prev commit] by (cases "prev < lock \<and> lock \<le> commit") (auto simp: eq)
qed

lemma checkGrowth_iff:
  assumes "distinct carried"
  shows "checkGrowth commit prev lock carried = None \<longleftrightarrow>
    (\<forall>p. prev < p \<and> p \<le> commit \<and> p \<noteq> lock \<longrightarrow> p \<in> set carried)"
proof (cases "commit \<le> prev")
  case True
  then have "\<not> (prev < p \<and> p \<le> commit)" for p by auto
  then show ?thesis using True by (auto simp: checkGrowth_def)
next
  case False
  let ?A = "{p. prev < p \<and> p \<le> commit \<and> p \<noteq> lock}"
  let ?h = "length (filter (\<lambda>p. prev < p \<and> p \<le> commit \<and> p \<noteq> lock) carried)"
  let ?need = "if prev < lock \<and> lock \<le> commit then commit - prev - 1 else commit - prev"
  have fin: "finite ?A" by simp
  have sub: "?A \<inter> set carried \<subseteq> ?A" by blast
  have "?h = card (set (filter (\<lambda>p. prev < p \<and> p \<le> commit \<and> p \<noteq> lock) carried))"
    using distinct_card [OF distinct_filter [OF assms]] by simp
  also have "set (filter (\<lambda>p. prev < p \<and> p \<le> commit \<and> p \<noteq> lock) carried) = ?A \<inter> set carried" by auto
  finally have h: "?h = card (?A \<inter> set carried)" .
  have need: "card ?A = unat ?need" using card_needed False by simp
  have "?h < 2 ^ 32" using card_mono [OF fin sub] unfolding h need by (rule order_le_less_trans [OF _ unat_bound32])
  then have "unat (of_nat ?h :: u32) = ?h" by (rule unat_of_nat32)
  then have "(of_nat ?h = ?need) = (?h = unat ?need)" by (simp only: word_unat_eq_iff)
  also have "\<dots> \<longleftrightarrow> card (?A \<inter> set carried) = card ?A" by (simp only: h need)
  also have "\<dots> \<longleftrightarrow> ?A \<inter> set carried = ?A" by (rule iffI) (erule card_subset_eq [OF fin sub], simp only:)
  finally have eq: "(of_nat ?h = ?need) = (?A \<inter> set carried = ?A)" .
  have "checkGrowth commit prev lock carried = None \<longleftrightarrow> of_nat ?h = ?need"
    using False unfolding checkGrowth_def Let_def by (simp only: if_False) (simp split: if_split)
  also have "\<dots> \<longleftrightarrow> (\<forall>p. prev < p \<and> p \<le> commit \<and> p \<noteq> lock \<longrightarrow> p \<in> set carried)" unfolding eq by blast
  finally show ?thesis .
qed

lemma dropPages_ok:
  assumes "distinct ns" "\<forall>p \<in> set ns. inFile ps f p" "0 < unat ps"
    "set ns - {lxLockPgno lib ps} - set T \<subseteq> D"
  shows "dropPages lib ps f T ns (lxFlag lib OR pageSum lib ps f D) =
    Inr (lxFlag lib OR pageSum lib ps f (D - (set ns - {lxLockPgno lib ps} - set T)))"
  using assms
proof (induction ns arbitrary: D)
  case (Cons p ns)
  show ?case
  proof (cases "p = lxLockPgno lib ps \<or> p \<in> set T")
    case True
    then have "set (p # ns) - {lxLockPgno lib ps} - set T = set ns - {lxLockPgno lib ps} - set T" by auto
    then show ?thesis using Cons True by simp
  next
    case False
    then have mem: "p \<in> D" "inFile ps f p" using Cons.prems by auto
    then have ne: "pageOf ps f p \<noteq> []" using pageOf_length [OF mem(2)] Cons.prems(3) by auto
    have upd: "UpdateChecksum lib (lxFlag lib OR pageSum lib ps f D) p (pageOf ps f p) [] =
      lxFlag lib OR pageSum lib ps f (D - {p})"
      using ne pageSum_drop [OF mem(1), of lib ps f] unfolding UpdateChecksum_flag by simp
    have eq: "D - {p} - (set ns - {lxLockPgno lib ps} - set T) = D - (set (p # ns) - {lxLockPgno lib ps} - set T)"
      using False by auto
    have "dropPages lib ps f T ns (lxFlag lib OR pageSum lib ps f (D - {p})) =
      Inr (lxFlag lib OR pageSum lib ps f (D - {p} - (set ns - {lxLockPgno lib ps} - set T)))"
      by (rule Cons.IH) (use Cons.prems in auto)
    then show ?thesis using False mem(2) upd eq by (simp add: readAt_page)
  qed
qed simp

section \<open>One segment\<close>

definition wholeDb :: "u32 \<Rightarrow> u32 \<Rightarrow> bytes \<Rightarrow> bool" where
  "wholeDb ps n f \<longleftrightarrow> 0 < unat ps \<and> length f = unat n * unat ps"

lemma wholeDb_inFile: "wholeDb ps n f \<Longrightarrow> 1 \<le> p \<Longrightarrow> inFile ps f p \<longleftrightarrow> p \<le> n"
  unfolding wholeDb_def using inFile_iff by blast

lemma truncate_whole: "0 < unat ps \<Longrightarrow> wholeDb ps n (truncateTo f (unat n * unat ps))"
  by (simp add: wholeDb_def)

lemma pageOf_truncate:
  assumes "1 \<le> p" "p \<le> n" "inFile ps f p" "0 < unat ps"
  shows "pageOf ps (truncateTo f (unat n * unat ps)) p = pageOf ps f p"
proof -
  have "pageOff ps p + unat ps \<le> unat n * unat ps"
    using wholeDb_inFile [OF truncate_whole [OF assms(4), of n f] assms(1)] assms(2)
    by (simp add: inFile_def)
  then show ?thesis
    using assms(3) unfolding pageOf_def truncateTo_def inFile_def by (simp add: drop_take min_def)
qed

definition carries :: "ltxLib \<Rightarrow> u32 \<Rightarrow> u32 \<Rightarrow> segment \<Rightarrow> bool" where
  "carries lib ps prev sg \<longleftrightarrow>
     (\<forall>p. prev < p \<and> p \<le> sgCommit sg \<and> p \<noteq> lxLockPgno lib ps \<longrightarrow> p \<in> fst ` set (sgPages sg))"

text \<open>What a segment leaves: a file of its commit size, its pages in it, every other page kept.\<close>

definition leaves :: "u32 \<Rightarrow> u32 \<Rightarrow> segment \<Rightarrow> bytes \<Rightarrow> bytes \<Rightarrow> bool" where
  "leaves ps prev sg f f' \<longleftrightarrow> wholeDb ps (sgCommit sg) f' \<and>
     (\<forall>(p, d) \<in> set (sgPages sg). p \<le> sgCommit sg \<longrightarrow> pageOf ps f' p = d) \<and>
     (\<forall>q. 1 \<le> q \<and> q \<le> prev \<and> q \<le> sgCommit sg \<and> q \<notin> fst ` set (sgPages sg) \<longrightarrow> pageOf ps f' q = pageOf ps f q)"

lemma covered_final:
  assumes "\<forall>p. prev < p \<and> p \<le> commit \<and> p \<noteq> lxLockPgno lib ps \<longrightarrow> p \<in> T"
  shows "covered lib ps prev commit T - (if commit < prev then {p. commit < p \<and> p \<le> prev} - {lxLockPgno lib ps} - T else {}) =
    dataPages lib ps commit"
proof -
  have "p \<le> commit \<longleftrightarrow> p \<le> prev \<and> \<not> (commit < prev \<and> commit < p)" if "p \<notin> T" "p \<noteq> lxLockPgno lib ps" for p
    using assms that by (metis le_less_trans linorder_not_less order_trans)
  then show ?thesis by (auto simp: covered_def dataPages_def split: if_splits)
qed

lemma dropPages_final:
  assumes "0 < unat ps" "\<forall>q. 1 \<le> q \<and> (q \<le> prev \<or> q \<in> set T) \<longrightarrow> inFile ps f q"
    "\<forall>p. prev < p \<and> p \<le> commit \<and> p \<noteq> lxLockPgno lib ps \<longrightarrow> p \<in> set T"
  shows "(if commit < prev then dropPages lib ps f T (pgnosAbove commit prev)
        (lxFlag lib OR pageSum lib ps f (covered lib ps prev commit (set T)))
      else Inr (lxFlag lib OR pageSum lib ps f (covered lib ps prev commit (set T)))) =
    Inr (lxFlag lib OR pageSum lib ps f (dataPages lib ps commit))"
proof (cases "commit < prev")
  case True
  have pos: "1 \<le> p" if "commit < p" for p using that by unat_arith
  have "\<forall>p \<in> set (pgnosAbove commit prev). inFile ps f p" using assms(2) pos by (simp add: pgnosAbove_set)
  moreover have "set (pgnosAbove commit prev) - {lxLockPgno lib ps} - set T \<subseteq> covered lib ps prev commit (set T)"
    using pos by (auto simp: pgnosAbove_set covered_def)
  ultimately show ?thesis
    using True dropPages_ok [OF pgnosAbove_distinct _ assms(1)] covered_final [OF assms(3)] by (simp add: pgnosAbove_set)
next
  case False
  then show ?thesis using covered_final [OF assms(3)] by simp
qed

lemma truncate_sum:
  assumes "0 < unat ps" "\<forall>q. 1 \<le> q \<and> (q \<le> prev \<or> q \<in> T) \<longrightarrow> inFile ps f q"
    "\<forall>p. prev < p \<and> p \<le> commit \<and> p \<noteq> lxLockPgno lib ps \<longrightarrow> p \<in> T"
  shows "lxFlag lib OR pageSum lib ps f (dataPages lib ps commit) =
    dbSum lib ps (truncateTo f (unat commit * unat ps)) commit"
  unfolding dbSum_def
proof (rule arg_cong [where f = "\<lambda>x. lxFlag lib OR x"], rule pageSum_cong [OF refl])
  fix p assume "p \<in> dataPages lib ps commit"
  then have p: "1 \<le> p" "p \<le> commit" "p \<noteq> lxLockPgno lib ps" by (simp_all add: dataPages_def)
  have "p \<le> prev \<or> p \<in> T" using assms(3) p by (meson not_le)
  then have "inFile ps f p" using assms(2) p(1) by blast
  then show "pageOf ps f p = pageOf ps (truncateTo f (unat commit * unat ps)) p"
    using pageOf_truncate [OF p(1,2) _ assms(1)] by simp
qed

lemma truncate_leaves:
  assumes "pagesApplied ps (sgPages sg) f f1" "pagesWf ps (sgPages sg)" "wholeDb ps prev f"
  shows "leaves ps prev sg f (truncateTo f1 (unat (sgCommit sg) * unat ps))"
  unfolding leaves_def
proof (intro conjI ballI allI impI)
  have k: "0 < unat ps" using assms(3) by (simp add: wholeDb_def)
  let ?f = "truncateTo f1 (unat (sgCommit sg) * unat ps)"
  show "wholeDb ps (sgCommit sg) ?f" by (rule truncate_whole [OF k])
  show "case x of (p, d) \<Rightarrow> p \<le> sgCommit sg \<longrightarrow> pageOf ps ?f p = d" if x: "x \<in> set (sgPages sg)" for x
  proof -
    obtain p d where pd: "x = (p, d)" by (cases x)
    have "1 \<le> p" "pageOf ps f1 p = d" "inFile ps f1 p"
      using x assms(1,2) by (auto simp: pagesWf_def pagesApplied_def pd)
    then show ?thesis using pageOf_truncate [OF _ _ _ k] by (simp add: pd)
  qed
  show "pageOf ps ?f q = pageOf ps f q"
    if q: "1 \<le> q \<and> q \<le> prev \<and> q \<le> sgCommit sg \<and> q \<notin> fst ` set (sgPages sg)" for q
  proof -
    have "inFile ps f1 q" "pageOf ps f1 q = pageOf ps f q"
      using q assms(1) wholeDb_inFile [OF assms(3)] by (auto simp: pagesApplied_def)
    then show ?thesis using q pageOf_truncate [OF _ _ _ k] by simp
  qed
qed

lemma applyPages_start:
  assumes "wholeDb ps prev f" "pagesWf ps pgs"
  obtains f1 T where "applyPages lib ps prev commit pgs (f, dbSum lib ps f prev, []) =
      Inr (f1, lxFlag lib OR pageSum lib ps f1 (covered lib ps prev commit (set T)), T)"
    "distinct T" "set T = fst ` set pgs" "pagesApplied ps pgs f f1"
    "\<forall>q. 1 \<le> q \<and> (q \<le> prev \<or> q \<in> set T) \<longrightarrow> inFile ps f1 q"
proof -
  have "dataPages lib ps prev = covered lib ps prev commit (set [])" by (auto simp: dataPages_def covered_def)
  then have "dbSum lib ps f prev = lxFlag lib OR pageSum lib ps f (covered lib ps prev commit (set []))"
    by (simp only: dbSum_def)
  then show thesis using that applyPages_ok [OF assms(2), of "[]" prev f lib commit] wholeDb_inFile [OF assms(1)] by auto
qed

lemma applySegment_run:
  assumes "segmentRefusal ps prevMax (dbSum lib ps f prev) sg = None" "wholeDb ps prev f" "pagesWf ps (sgPages sg)"
    "carries lib ps prev sg"
  shows "\<exists>f'. leaves ps prev sg f f' \<and>
    applySegment lib ps prevMax prev (dbSum lib ps f prev) sg f =
      (if dbSum lib ps f' (sgCommit sg) = sgPost sg then Inr f'
       else Inl (plain_err ''ltxio: segment post-apply checksum mismatch''))"
proof -
  let ?c = "sgCommit sg"
  have k: "0 < unat ps" using assms(2) by (simp add: wholeDb_def)
  obtain f1 T where ap: "applyPages lib ps prev ?c (sgPages sg) (f, dbSum lib ps f prev, []) =
      Inr (f1, lxFlag lib OR pageSum lib ps f1 (covered lib ps prev ?c (set T)), T)"
    "distinct T" "set T = fst ` set (sgPages sg)" "pagesApplied ps (sgPages sg) f f1"
    "\<forall>q. 1 \<le> q \<and> (q \<le> prev \<or> q \<in> set T) \<longrightarrow> inFile ps f1 q"
    by (rule applyPages_start [OF assms(2,3)])
  have grow: "\<forall>p. prev < p \<and> p \<le> ?c \<and> p \<noteq> lxLockPgno lib ps \<longrightarrow> p \<in> set T"
    using assms(4) ap(3) by (simp add: carries_def)
  have "checkGrowth ?c prev (lxLockPgno lib ps) T = None" using checkGrowth_iff [OF ap(2)] grow by blast
  then have "applySegment lib ps prevMax prev (dbSum lib ps f prev) sg f =
      (let f' = truncateTo f1 (unat ?c * unat ps) in
       if dbSum lib ps f' ?c = sgPost sg then Inr f' else Inl (plain_err ''ltxio: segment post-apply checksum mismatch''))"
    unfolding applySegment_def
    using assms(1) ap(1) dropPages_final [OF k ap(5) grow] truncate_sum [OF k ap(5) grow] by (simp add: Let_def)
  then show ?thesis using truncate_leaves [OF ap(4) assms(3,2)] by (auto simp: Let_def)
qed

lemma applySegment_growth:
  assumes "segmentRefusal ps prevMax (dbSum lib ps f prev) sg = None" "wholeDb ps prev f" "pagesWf ps (sgPages sg)"
    "\<not> carries lib ps prev sg"
  shows "\<exists>e. applySegment lib ps prevMax prev (dbSum lib ps f prev) sg f = Inl e \<and> errors_is e ErrUncarriedGrowth"
proof -
  let ?c = "sgCommit sg"
  obtain f1 T where ap: "applyPages lib ps prev ?c (sgPages sg) (f, dbSum lib ps f prev, []) =
      Inr (f1, lxFlag lib OR pageSum lib ps f1 (covered lib ps prev ?c (set T)), T)"
    "distinct T" "set T = fst ` set (sgPages sg)"
    by (rule applyPages_start [OF assms(2,3)])
  have "checkGrowth ?c prev (lxLockPgno lib ps) T \<noteq> None"
    using checkGrowth_iff [OF ap(2)] assms(4) ap(3) by (simp add: carries_def)
  then obtain e where "checkGrowth ?c prev (lxLockPgno lib ps) T = Some e" by blast
  moreover from this have "errors_is e ErrUncarriedGrowth" by (auto simp: checkGrowth_def Let_def split: if_splits)
  ultimately show ?thesis unfolding applySegment_def using assms(1) ap(1) by simp
qed

section \<open>A chain of segments\<close>

text \<open>The segments of a chain as the decoder gives them: well formed, of the chain's page size.\<close>

lemma applySegment_Inr:
  assumes "applySegment lib ps prevMax prev (dbSum lib ps f prev) sg f = Inr f'" "wholeDb ps prev f" "pagesWf ps (sgPages sg)"
  shows "leaves ps prev sg f f'" "dbSum lib ps f' (sgCommit sg) = sgPost sg" "carries lib ps prev sg"
    "sgMin sg = prevMax + 1" "sgPre sg = dbSum lib ps f prev" "sgPageSize sg = ps"
proof -
  have ref: "segmentRefusal ps prevMax (dbSum lib ps f prev) sg = None"
    using assms(1) by (cases "segmentRefusal ps prevMax (dbSum lib ps f prev) sg") (simp_all add: applySegment_def)
  show car: "carries lib ps prev sg" using applySegment_growth [OF ref assms(2,3)] assms(1) by (metis sum.distinct(1))
  show "leaves ps prev sg f f'" "dbSum lib ps f' (sgCommit sg) = sgPost sg"
    using applySegment_run [OF ref assms(2,3) car] assms(1) by (auto split: if_splits)
  show "sgMin sg = prevMax + 1" "sgPre sg = dbSum lib ps f prev" "sgPageSize sg = ps"
    using ref by (auto simp: segmentRefusal_def split: if_splits)
qed

lemma applyLoop_sum:
  assumes "applyLoop lib ps prevMax prev running sgs f = Inr ((txid, chk), f')" "wholeDb ps prev f"
    "running = dbSum lib ps f prev" "\<forall>sg \<in> set sgs. pagesWf ps (sgPages sg)"
  shows "\<exists>n. wholeDb ps n f' \<and> chk = dbSum lib ps f' n \<and> (sgs \<noteq> [] \<longrightarrow> n = sgCommit (last sgs) \<and> txid = sgMax (last sgs))"
  using assms
proof (induction sgs arbitrary: prevMax prev running f)
  case (Cons sg sgs)
  obtain f1 where f1: "applySegment lib ps prevMax prev (dbSum lib ps f prev) sg f = Inr f1"
    "applyLoop lib ps (sgMax sg) (sgCommit sg) (sgPost sg) sgs f1 = Inr ((txid, chk), f')"
    using Cons.prems(1,3) by (auto split: sum.splits)
  have "leaves ps prev sg f f1" "sgPost sg = dbSum lib ps f1 (sgCommit sg)"
    using applySegment_Inr [OF f1(1) Cons.prems(2)] Cons.prems(4) by simp_all
  then show ?case
    using Cons.IH [OF f1(2)] Cons.prems(4) f1(2) by (cases sgs) (auto simp: leaves_def)
qed auto

end
