(* ===== verification/Page_Diff.thy ===== *)
theory Page_Diff
  imports Page_Sums
begin

text \<open>
  The page diff of a segment checkpoint (\<^verbatim>\<open>diffPages\<close> of \<^verbatim>\<open>internal/ops/checkpoint_delta.go\<close>) against
  the application of segments (\<^verbatim>\<open>internal/ltxio/segment.go\<close>): the pages it carries, the checksum it
  declares for them, and that applying them to the shadow gives the checkout back.
\<close>

section \<open>The page diff\<close>

definition changedPage :: "ltxLib \<Rightarrow> u32 \<Rightarrow> u32 \<Rightarrow> u32 \<Rightarrow> bytes \<Rightarrow> bytes \<Rightarrow> u32 \<Rightarrow> bool" where
  "changedPage lib ps commit old cur shadow p \<longleftrightarrow>
     p \<noteq> lxLockPgno lib ps \<and> p \<le> commit \<and> \<not> (p \<le> old \<and> pageOf ps shadow p = pageOf ps cur p)"

lemma xs_replace:
  fixes h h' :: "u32 \<Rightarrow> u64"
  assumes "D' - {p} = D - {p}" "\<And>q. q \<in> D - {p} \<Longrightarrow> h' q = h q"
  shows "xs.F h' D' = xs.F h D XOR (if p \<in> D then h p else 0) XOR (if p \<in> D' then h' p else 0)"
proof -
  have split: "xs.F g E = (if p \<in> E then g p else 0) XOR xs.F g (E - {p})" for g :: "u32 \<Rightarrow> u64" and E
    using xs.remove [of E p g] by simp
  have "xs.F h' (D' - {p}) = xs.F h (D - {p})" unfolding assms(1) by (rule xs.cong) (simp_all add: assms(2))
  then show ?thesis
    using split [of h D] split [of h' D'] by (simp add: xor.commute xor.left_commute)
qed

text \<open>What one page number does, when both files can be read there.\<close>

lemma diffLoop_Cons:
  assumes "diffLoop lib ps commit old cur shadow (p # ns) (pages, ss, post) = Inr st" "0 < unat ps"
  shows "p \<le> commit \<Longrightarrow> inFile ps cur p" "p \<le> old \<Longrightarrow> inFile ps shadow p"
    "diffLoop lib ps commit old cur shadow ns
       (if changedPage lib ps commit old cur shadow p then pages @ [(p, pageOf ps cur p)] else pages,
        if p \<noteq> lxLockPgno lib ps \<and> p \<le> old then UpdateChecksum lib ss p [] (pageOf ps shadow p) else ss,
        if p = lxLockPgno lib ps \<or> p \<le> commit \<and> p \<le> old \<and> pageOf ps shadow p = pageOf ps cur p then post
        else UpdateChecksum lib post p (if p \<le> old then pageOf ps shadow p else [])
               (if p \<le> commit then pageOf ps cur p else [])) = Inr st"
  using assms
  by (auto simp: diffPage_def readAt_page changedPage_def Let_def split: if_splits)

lemma diffLoop_pages:
  assumes "diffLoop lib ps commit old cur shadow ns (pages, ss, post) = Inr (pages', ss', post')" "0 < unat ps"
  shows "pages' = pages @ map (\<lambda>p. (p, pageOf ps cur p)) (filter (changedPage lib ps commit old cur shadow) ns) \<and>
    (\<forall>p \<in> set ns. (p \<le> commit \<longrightarrow> inFile ps cur p) \<and> (p \<le> old \<longrightarrow> inFile ps shadow p))"
  using assms(1)
proof (induction ns arbitrary: pages ss post)
  case (Cons p ns)
  note c = diffLoop_Cons [OF Cons.prems assms(2)]
  show ?case using Cons.IH [OF c(3)] c(1,2) by simp
qed simp

text \<open>The shadow's checksum over the pages read so far; it starts at 0, without the flag.\<close>

definition partSum :: "ltxLib \<Rightarrow> u32 \<Rightarrow> bytes \<Rightarrow> u32 set \<Rightarrow> u64" where
  "partSum lib ps f D = (if D = {} then 0 else lxFlag lib OR pageSum lib ps f D)"

lemma partSum_insert:
  assumes "p \<notin> D" "d \<noteq> []" "d = pageOf ps f p"
  shows "UpdateChecksum lib (partSum lib ps f D) p [] d = partSum lib ps f (insert p D)"
proof (cases "D = {}")
  case True
  then show ?thesis using assms by (simp add: partSum_def UpdateChecksum_def pageSum_insert [OF assms(1)] pageSum_def)
next
  case False
  then show ?thesis
    using assms by (simp add: partSum_def UpdateChecksum_flag pageSum_insert [OF assms(1)] xor.commute)
qed

lemma diffLoop_shadow:
  assumes "diffLoop lib ps commit old cur shadow ns (pages, partSum lib ps shadow D, post) = Inr (pages', ss', post')"
    "0 < unat ps" "distinct ns" "set ns \<inter> D = {}"
  shows "ss' = partSum lib ps shadow (D \<union> {p \<in> set ns. p \<noteq> lxLockPgno lib ps \<and> p \<le> old})"
  using assms(1,3,4)
proof (induction ns arbitrary: pages post D)
  case (Cons p ns)
  note c = diffLoop_Cons [OF Cons.prems(1) assms(2)]
  let ?b = "p \<noteq> lxLockPgno lib ps \<and> p \<le> old"
  let ?D = "if ?b then insert p D else D"
  have fresh: "p \<notin> D" "set ns \<inter> ?D = {}" using Cons.prems(2,3) by auto
  have upd: "UpdateChecksum lib (partSum lib ps shadow D) p [] (pageOf ps shadow p) = partSum lib ps shadow (insert p D)" if b: ?b
  proof (rule partSum_insert [OF fresh(1) _ refl])
    show "pageOf ps shadow p \<noteq> []" using pageOf_length [OF c(2)] b assms(2) by auto
  qed
  have "(if ?b then UpdateChecksum lib (partSum lib ps shadow D) p [] (pageOf ps shadow p) else partSum lib ps shadow D) =
      partSum lib ps shadow ?D" using upd by simp
  then have "ss' = partSum lib ps shadow (?D \<union> {p \<in> set ns. p \<noteq> lxLockPgno lib ps \<and> p \<le> old})"
    using Cons.IH [OF _ _ fresh(2)] c(3) Cons.prems(2) by simp
  moreover have "?D \<union> {p \<in> set ns. p \<noteq> lxLockPgno lib ps \<and> p \<le> old} =
      D \<union> {q \<in> set (p # ns). q \<noteq> lxLockPgno lib ps \<and> q \<le> old}" by auto
  ultimately show ?case by simp
qed simp

text \<open>The checksum of the mixture the diff stands at: the pages done from the checkout, the others
  from the shadow.\<close>

definition mixSum :: "ltxLib \<Rightarrow> u32 \<Rightarrow> u32 \<Rightarrow> u32 \<Rightarrow> bytes \<Rightarrow> bytes \<Rightarrow> u32 set \<Rightarrow> u64" where
  "mixSum lib ps commit old cur shadow T =
     xs.F (\<lambda>p. lxChecksumPage lib p (if p \<in> T then pageOf ps cur p else pageOf ps shadow p)) (covered lib ps old commit T)"

lemma mixSum_step:
  assumes "1 \<le> p" "p \<notin> T"
  shows "mixSum lib ps commit old cur shadow (insert p T) = mixSum lib ps commit old cur shadow T XOR
    (if p \<noteq> lxLockPgno lib ps \<and> p \<le> old then lxChecksumPage lib p (pageOf ps shadow p) else 0) XOR
    (if p \<noteq> lxLockPgno lib ps \<and> p \<le> commit then lxChecksumPage lib p (pageOf ps cur p) else 0)"
proof -
  let ?D = "covered lib ps old commit T" and ?D' = "covered lib ps old commit (insert p T)"
  let ?h = "\<lambda>T q. lxChecksumPage lib q (if q \<in> T then pageOf ps cur q else pageOf ps shadow q)"
  have "?D' - {p} = ?D - {p}" by (auto simp: covered_def)
  then have "xs.F (?h (insert p T)) ?D' =
      xs.F (?h T) ?D XOR (if p \<in> ?D then ?h T p else 0) XOR (if p \<in> ?D' then ?h (insert p T) p else 0)"
    by (rule xs_replace) simp
  moreover have "p \<in> ?D \<longleftrightarrow> p \<noteq> lxLockPgno lib ps \<and> p \<le> old" "p \<in> ?D' \<longleftrightarrow> p \<noteq> lxLockPgno lib ps \<and> p \<le> commit"
    using assms by (auto simp: covered_def)
  ultimately show ?thesis using assms(2) by (simp add: mixSum_def)
qed

lemma diffLoop_post:
  assumes "diffLoop lib ps commit old cur shadow ns (pages, ss, lxFlag lib OR mixSum lib ps commit old cur shadow T) = Inr (pages', ss', post')"
    "0 < unat ps" "distinct ns" "set ns \<inter> T = {}" "\<forall>p \<in> set ns. 1 \<le> p"
  shows "post' = lxFlag lib OR mixSum lib ps commit old cur shadow (T \<union> set ns)"
  using assms(1,3-5)
proof (induction ns arbitrary: pages ss T)
  case (Cons p ns)
  note c = diffLoop_Cons [OF Cons.prems(1) assms(2)]
  have p: "1 \<le> p" "p \<notin> T" "set ns \<inter> insert p T = {}" using Cons.prems by auto
  have ne: "p \<le> commit \<Longrightarrow> pageOf ps cur p \<noteq> []" "p \<le> old \<Longrightarrow> pageOf ps shadow p \<noteq> []"
    using pageOf_length [OF c(1)] pageOf_length [OF c(2)] assms(2) by auto
  have "(if p = lxLockPgno lib ps \<or> p \<le> commit \<and> p \<le> old \<and> pageOf ps shadow p = pageOf ps cur p
      then lxFlag lib OR mixSum lib ps commit old cur shadow T
      else UpdateChecksum lib (lxFlag lib OR mixSum lib ps commit old cur shadow T) p
        (if p \<le> old then pageOf ps shadow p else []) (if p \<le> commit then pageOf ps cur p else [])) =
    lxFlag lib OR mixSum lib ps commit old cur shadow (insert p T)"
    unfolding UpdateChecksum_flag mixSum_step [OF p(1,2)] using ne by (auto simp: xor.assoc)
  then show ?case using Cons.IH [of _ _ "insert p T"] c(3) p(3) Cons.prems by (simp add: insert_commute)
qed simp

lemma changed_pages_wf:
  assumes "0 < unat ps" "\<forall>p \<in> set ns. 1 \<le> p" "distinct ns" "\<forall>p \<in> set ns. p \<le> commit \<longrightarrow> inFile ps cur p"
  shows "pagesWf ps (map (\<lambda>p. (p, pageOf ps cur p)) (filter (changedPage lib ps commit old cur shadow) ns))"
proof -
  let ?ns = "filter (changedPage lib ps commit old cur shadow) ns"
  have "map fst (map (\<lambda>p. (p, pageOf ps cur p)) ?ns) = ?ns" by (simp add: comp_def)
  moreover have "\<forall>p \<in> set ?ns. 1 \<le> p \<and> length (pageOf ps cur p) = unat ps"
    using assms(2,4) by (auto simp: changedPage_def intro: pageOf_length)
  ultimately show ?thesis using assms(1,3) by (simp add: pagesWf_def)
qed

lemma pgnosTo_sorted: "sorted_wrt (<) (pgnosTo n)"
proof -
  have "(of_nat (Suc i) :: u32) < of_nat (Suc j)" if "i < j" "j < unat n" for i j
  proof -
    have "Suc i < 2 ^ 32" "Suc j < 2 ^ 32" using that unat_bound32 [of n] by linarith+
    then show ?thesis using that(1) by (simp only: word_less_nat_alt unat_of_nat32 Suc_less_eq)
  qed
  then show ?thesis
    unfolding pgnosTo_def sorted_wrt_iff_nth_less by (simp del: upt_Suc of_nat_Suc)
qed

lemma pagesRefusal_None:
  assumes "sorted_wrt (<) (map fst pgs)" "\<forall>(p, d) \<in> set pgs. length d = unat ps"
    "\<forall>p. prev = Some p \<longrightarrow> (\<forall>q \<in> fst ` set pgs. p < q)"
  shows "pagesRefusal ps prev pgs = None"
  using assms
proof (induction ps prev pgs rule: pagesRefusal.induct)
  case (2 ps prev pgno d rest)
  have "\<not> (case prev of None \<Rightarrow> False | Some p \<Rightarrow> pgno \<le> p)" using 2(4) by (auto split: option.splits)
  then show ?case using 2 by auto
qed simp

lemma whole_eq:
  assumes "wholeDb ps n f" "wholeDb ps n g" "\<And>p. 1 \<le> p \<Longrightarrow> p \<le> n \<Longrightarrow> pageOf ps f p = pageOf ps g p"
  shows "f = g"
proof (rule nth_equalityI)
  let ?k = "unat ps"
  have k: "0 < ?k" and len: "length f = unat n * ?k" "length g = unat n * ?k" using assms(1,2) by (simp_all add: wholeDb_def)
  then show "length f = length g" by simp
  fix i assume i: "i < length f"
  define p :: u32 where "p = of_nat (Suc (i div ?k))"
  have "i div ?k < unat n" using i len k by (simp add: less_mult_imp_div_less)
  then have up: "unat p = Suc (i div ?k)" "p \<le> n" "1 \<le> p"
    using unat_of_nat32 [of "Suc (i div ?k)"] unat_bound32 [of n]
    by (simp_all add: p_def word_le_nat_alt del: of_nat_Suc)
  have off: "pageOff ps p = (i div ?k) * ?k"
  proof -
    have "unat (p - 1) = unat p - 1" using up(3) by unat_arith
    then show ?thesis using up(1) by (simp add: pageOff_def)
  qed
  have "h ! i = pageOf ps h p ! (i mod ?k)" if "length h = unat n * ?k" for h
  proof -
    have "(i div ?k) * ?k \<le> i" "(i div ?k) * ?k + i mod ?k = i" by simp_all
    then have "(i div ?k) * ?k \<le> length h" using that i len by linarith
    then show ?thesis using off k \<open>(i div ?k) * ?k + i mod ?k = i\<close> by (simp add: pageOf_def)
  qed
  then show "f ! i = g ! i" using assms(3) [OF up(3,2)] len by simp
qed

lemma diffPages_Inr:
  assumes "diffPages lib cur shadow pre = Inr d" "pre \<noteq> 0" "readDBHeader shadow = Inr (ps, old)" "0 < unat ps"
  shows "readDBHeader cur = Inr (ps, dlCommit d)" "dlPageSize d = ps" "pre = dbSum lib ps shadow old"
    "dlPost d = dbSum lib ps cur (dlCommit d)" "pagesWf ps (dlPages d)"
    "dlPages d = map (\<lambda>p. (p, pageOf ps cur p))
       (filter (changedPage lib ps (dlCommit d) old cur shadow) (pgnosTo (max (dlCommit d) old)))"
proof -
  obtain commit ss pages post where d: "readDBHeader cur = Inr (ps, commit)"
    "diffLoop lib ps commit old cur shadow (pgnosTo (max commit old)) ([], 0, pre) = Inr (pages, ss, post)" "ss = pre"
    "d = \<lparr>dlPages = pages, dlCommit = commit, dlPageSize = ps,
          dlChanged = (length pages, unat (max commit old)), dlPost = post\<rparr>"
    using assms(1,3) by (auto simp: diffPages_def split: sum.splits prod.splits if_splits)
  let ?ns = "pgnosTo (max commit old)"
  have ns: "distinct ?ns" "\<forall>p \<in> set ?ns. 1 \<le> p" "set ?ns = {p. 1 \<le> p \<and> p \<le> max commit old}"
    by (simp_all add: pgnosTo_distinct pgnosTo_set)
  note pg = diffLoop_pages [OF d(2) assms(4)]
  show "readDBHeader cur = Inr (ps, dlCommit d)" "dlPageSize d = ps" using d(1,4) by simp_all
  show eq: "dlPages d = map (\<lambda>p. (p, pageOf ps cur p))
      (filter (changedPage lib ps (dlCommit d) old cur shadow) (pgnosTo (max (dlCommit d) old)))"
    using pg d(4) by simp
  show "pagesWf ps (dlPages d)" unfolding eq using changed_pages_wf [OF assms(4) ns(2,1)] pg d(4) by simp
  have "ss = partSum lib ps shadow ({} \<union> {p \<in> set ?ns. p \<noteq> lxLockPgno lib ps \<and> p \<le> old})"
    using diffLoop_shadow [of lib ps commit old cur shadow ?ns "[]" "{}" pre] d(2) assms(4) ns(1)
    by (simp add: partSum_def)
  moreover have "{} \<union> {p \<in> set ?ns. p \<noteq> lxLockPgno lib ps \<and> p \<le> old} = dataPages lib ps old"
    by (auto simp: ns(3) dataPages_def le_max_iff_disj)
  ultimately show pre: "pre = dbSum lib ps shadow old"
    using d(3) assms(2) by (simp add: partSum_def dbSum_def split: if_splits)
  have "covered lib ps old commit {} = dataPages lib ps old" by (auto simp: covered_def dataPages_def)
  then have "pre = lxFlag lib OR mixSum lib ps commit old cur shadow {}"
    by (simp add: pre dbSum_def mixSum_def pageSum_def)
  then have "post = lxFlag lib OR mixSum lib ps commit old cur shadow ({} \<union> set ?ns)"
    using diffLoop_post [of lib ps commit old cur shadow ?ns "[]" 0 "{}"] d(2) assms(4) ns(1,2) by simp
  moreover have "covered lib ps old commit (set ?ns) = dataPages lib ps commit"
    by (auto simp: ns(3) covered_def dataPages_def le_max_iff_disj)
  moreover have "xs.F (\<lambda>p. lxChecksumPage lib p (if p \<in> set ?ns then pageOf ps cur p else pageOf ps shadow p)) (dataPages lib ps commit) =
      pageSum lib ps cur (dataPages lib ps commit)"
    unfolding pageSum_def by (rule xs.cong) (auto simp: ns(3) dataPages_def le_max_iff_disj)
  ultimately show "dlPost d = dbSum lib ps cur (dlCommit d)" using d(4) by (simp add: mixSum_def dbSum_def)
qed

lemma diffPages_keys:
  assumes "dlPages d = map (\<lambda>p. (p, pageOf ps cur p)) (filter (changedPage lib ps c old cur shadow) (pgnosTo (max c old)))"
  shows "p \<in> fst ` set (dlPages d) \<longleftrightarrow> 1 \<le> p \<and> changedPage lib ps c old cur shadow p"
    "(p, b) \<in> set (dlPages d) \<Longrightarrow> b = pageOf ps cur p"
    "sorted_wrt (<) (map fst (dlPages d))" "filter (\<lambda>(p, _). p \<noteq> lxLockPgno lib ps) (dlPages d) = dlPages d"
proof -
  have keys: "map fst (dlPages d) = filter (changedPage lib ps c old cur shadow) (pgnosTo (max c old))"
    unfolding assms by (simp add: comp_def)
  have "fst ` set (dlPages d) = set (filter (changedPage lib ps c old cur shadow) (pgnosTo (max c old)))"
    unfolding keys [symmetric] by simp
  then show "p \<in> fst ` set (dlPages d) \<longleftrightarrow> 1 \<le> p \<and> changedPage lib ps c old cur shadow p"
    by (auto simp: pgnosTo_set changedPage_def le_max_iff_disj)
  show "(p, b) \<in> set (dlPages d) \<Longrightarrow> b = pageOf ps cur p" unfolding assms by auto
  show "sorted_wrt (<) (map fst (dlPages d))" unfolding keys by (rule sorted_wrt_filter [OF pgnosTo_sorted])
  show "filter (\<lambda>(p, _). p \<noteq> lxLockPgno lib ps) (dlPages d) = dlPages d"
    unfolding assms by (auto simp: filter_id_conv changedPage_def)
qed

lemma diffPages_encodes:
  assumes "diffPages lib cur shadow pre = Inr d" "pre \<noteq> 0" "lxFlag lib \<noteq> 0" "readDBHeader shadow = Inr (ps, old)"
    "0 < unat ps" "1 < t"
  shows "EncodeSegment lib ps (dlCommit d) t t pre (dlPost d) (dlPages d) =
    Inr \<lparr>sgPageSize = ps, sgCommit = dlCommit d, sgMin = t, sgMax = t, sgPre = pre, sgPages = dlPages d, sgPost = dlPost d\<rparr>"
proof -
  note f = diffPages_Inr [OF assms(1,2,4,5)]
  note k = diffPages_keys [OF f(6)]
  have "\<forall>(p, b) \<in> set (dlPages d). length b = unat ps" using f(5) by (auto simp: pagesWf_def)
  then have "pagesRefusal ps None (dlPages d) = None" using pagesRefusal_None [OF k(3)] by blast
  moreover have "dlPost d \<noteq> 0" using assms(3) unfolding f(4) dbSum_def by (metis or_eq_0_iff)
  moreover have "t \<noteq> 0" "t \<noteq> 1" using assms(6) by auto
  ultimately show ?thesis using k(4) assms(2) by (simp add: EncodeSegment_def)
qed

text \<open>A segment whose pages are the target's, and whose other pages the base already has, rebuilds the target.\<close>

lemma segment_rebuilds:
  assumes "wholeDb ps old base" "pagesWf ps (sgPages sg)" "sgPageSize sg = ps" "sgMin sg \<noteq> 1"
    "sgPre sg = dbSum lib ps base old" "sgPost sg = dbSum lib ps cur (sgCommit sg)"
    "\<forall>(p, b) \<in> set (sgPages sg). b = pageOf ps cur p"
    "\<forall>p \<in> dataPages lib ps (sgCommit sg). p \<notin> fst ` set (sgPages sg) \<longrightarrow> p \<le> old \<and> pageOf ps base p = pageOf ps cur p"
  shows "\<exists>f'. applySegment lib ps (sgMin sg - 1) old (dbSum lib ps base old) sg base = Inr f' \<and> wholeDb ps (sgCommit sg) f' \<and>
    (\<forall>p \<in> dataPages lib ps (sgCommit sg). pageOf ps f' p = pageOf ps cur p)"
proof -
  have ref: "segmentRefusal ps (sgMin sg - 1) (dbSum lib ps base old) sg = None" using assms(3-5) by (simp add: segmentRefusal_def)
  have "p \<in> fst ` set (sgPages sg)" if "old < p" "p \<le> sgCommit sg" "p \<noteq> lxLockPgno lib ps" for p
  proof -
    have "1 \<le> p" using that(1) by unat_arith
    then have "p \<in> dataPages lib ps (sgCommit sg)" using that by (simp add: dataPages_def)
    then show ?thesis using assms(8) that(1) by (meson not_le)
  qed
  then have car: "carries lib ps old sg" by (simp add: carries_def)
  obtain f' where f': "leaves ps old sg base f'" "applySegment lib ps (sgMin sg - 1) old (dbSum lib ps base old) sg base =
      (if dbSum lib ps f' (sgCommit sg) = sgPost sg then Inr f' else Inl (plain_err ''ltxio: segment post-apply checksum mismatch''))"
    using applySegment_run [OF ref assms(1,2) car] by blast
  have same: "pageOf ps f' p = pageOf ps cur p" if "p \<in> dataPages lib ps (sgCommit sg)" for p
  proof (cases "p \<in> fst ` set (sgPages sg)")
    case True
    then show ?thesis using f'(1) assms(7) that by (fastforce simp: leaves_def dataPages_def)
  next
    case False
    then have "p \<le> old" "pageOf ps base p = pageOf ps cur p" using assms(8) that by auto
    then show ?thesis using f'(1) False that by (simp add: leaves_def dataPages_def)
  qed
  have "pageSum lib ps f' (dataPages lib ps (sgCommit sg)) = pageSum lib ps cur (dataPages lib ps (sgCommit sg))"
    by (rule pageSum_cong [OF refl same])
  then have "dbSum lib ps f' (sgCommit sg) = sgPost sg" using assms(6) by (simp add: dbSum_def)
  then show ?thesis using f' same by (auto simp: leaves_def)
qed

lemma diffPages_applies:
  assumes "diffPages lib cur shadow pre = Inr d" "pre \<noteq> 0" "readDBHeader shadow = Inr (ps, old)"
    "wholeDb ps old shadow" "1 < t"
    "sg = \<lparr>sgPageSize = ps, sgCommit = dlCommit d, sgMin = t, sgMax = t, sgPre = pre, sgPages = dlPages d, sgPost = dlPost d\<rparr>"
  shows "\<exists>f'. applySegment lib ps (t - 1) old pre sg shadow = Inr f' \<and> wholeDb ps (dlCommit d) f' \<and>
    (\<forall>p \<in> dataPages lib ps (dlCommit d). pageOf ps f' p = pageOf ps cur p)"
proof -
  have pos: "0 < unat ps" using assms(4) by (simp add: wholeDb_def)
  note f = diffPages_Inr [OF assms(1-3) pos]
  note k = diffPages_keys [OF f(6)]
  have "p \<le> old \<and> pageOf ps shadow p = pageOf ps cur p"
    if "p \<in> dataPages lib ps (dlCommit d)" "p \<notin> fst ` set (dlPages d)" for p
    using k(1) [of p] that by (auto simp: changedPage_def dataPages_def)
  moreover have "b = pageOf ps cur p" if "(p, b) \<in> set (dlPages d)" for p b by (rule k(2) [OF that])
  moreover have "t \<noteq> 1" using assms(5) by auto
  ultimately show ?thesis
    using segment_rebuilds [OF assms(4), of sg lib cur] f(3-5) unfolding assms(6) by auto
qed

section \<open>Properties\<close>

text \<open>C10: Materializing is verified end to end. When a run of segments is applied to a whole database whose
  checksum is the recorded one, the checksum reported at the end, kept incrementally, is the one a full
  scan of the result computes, and the result is a whole database of the last segment's size.\<close>

theorem applySegments_full_rescan:
  assumes "applySegments lib ps prevMax n (dbSum lib ps f n) sgs f = Inr ((txid, chk), f')" "wholeDb ps n f"
    "\<forall>sg \<in> set sgs. pagesWf ps (sgPages sg)"
  shows "\<exists>n'. wholeDb ps n' f' \<and> checksumPages lib f' ps n' = Inr chk \<and>
    (sgs \<noteq> [] \<longrightarrow> n' = sgCommit (last sgs) \<and> txid = sgMax (last sgs))"
proof -
  obtain n' where n': "wholeDb ps n' f'" "chk = dbSum lib ps f' n'"
    "sgs \<noteq> [] \<longrightarrow> n' = sgCommit (last sgs) \<and> txid = sgMax (last sgs)"
    using applyLoop_sum [OF _ assms(2) refl assms(3)] assms(1) unfolding applySegments_def by blast
  then show ?thesis using checksumPages_eq [of f' n' ps lib] by (auto simp: wholeDb_def)
qed

definition sampleLib :: ltxLib where
  "sampleLib = \<lparr>lxFlag = 9223372036854775808, lxChecksumPage = (\<lambda>p d. of_nat (unat p * 256 + unat (last d))),
     lxLockPgno = (\<lambda>ps. of_nat (1073741824 div unat ps + 1))\<rparr>"

definition sampleSegment :: segment where
  "sampleSegment = \<lparr>sgPageSize = 2, sgCommit = 3, sgMin = 5, sgMax = 5, sgPre = 9223372036854776583,
     sgPages = [(2, [7, 7]), (3, [1, 3])], sgPost = 9223372036854775809\<rparr>"

lemma sampleSegment_start: "checksumPages sampleLib [4, 5, 1, 2] 2 2 = Inr 9223372036854776583"
  by code_simp

lemma sampleSegment_run:
  "applySegments sampleLib 2 4 2 9223372036854776583 [sampleSegment] [4, 5, 1, 2] =
     Inr ((5, 9223372036854775809), [4, 5, 7, 7, 1, 3])"
  by code_simp

theorem applySegments_full_rescan_witness:
  "checksumPages sampleLib [4, 5, 7, 7, 1, 3] 2 3 = Inr 9223372036854775809"
proof -
  have whole: "wholeDb 2 2 [4, 5, 1, 2]" by (simp add: wholeDb_def)
  have start: "dbSum sampleLib 2 [4, 5, 1, 2] 2 = 9223372036854776583"
    using checksumPages_eq [of "[4, 5, 1, 2]" 2 2 sampleLib] sampleSegment_start by simp
  have wf: "\<forall>sg \<in> set [sampleSegment]. pagesWf 2 (sgPages sg)" by (simp add: pagesWf_def sampleSegment_def)
  show ?thesis
    using applySegments_full_rescan [OF sampleSegment_run [folded start] whole wf] by (simp add: sampleSegment_def)
qed

text \<open>C9: A segment checkpoint records the checkout. The pages a diff against the shadow yields pass every
  check of the encoder; applied to the shadow, they pass every check of the reader and give back each page
  of the checkout but the lock page, and the whole file when it has no lock page; and the checksum declared
  for them is the one a full scan of the checkout computes.\<close>

theorem segment_reproduces_checkout:
  assumes "diffPages lib cur shadow pre = Inr d" "pre \<noteq> 0" "lxFlag lib \<noteq> 0" "readDBHeader shadow = Inr (ps, old)"
    "wholeDb ps old shadow" "wholeDb ps (dlCommit d) cur" "1 < t"
  shows "\<exists>sg f'. EncodeSegment lib ps (dlCommit d) t t pre (dlPost d) (dlPages d) = Inr sg \<and>
    applySegment lib ps (t - 1) old pre sg shadow = Inr f' \<and> length f' = length cur \<and>
    (\<forall>p \<in> dataPages lib ps (dlCommit d). pageOf ps f' p = pageOf ps cur p) \<and>
    checksumPages lib cur ps (dlCommit d) = Inr (dlPost d) \<and> (dlCommit d < lxLockPgno lib ps \<longrightarrow> f' = cur)"
proof -
  have pos: "0 < unat ps" using assms(5) by (simp add: wholeDb_def)
  let ?sg = "\<lparr>sgPageSize = ps, sgCommit = dlCommit d, sgMin = t, sgMax = t, sgPre = pre, sgPages = dlPages d, sgPost = dlPost d\<rparr>"
  obtain f' where f': "applySegment lib ps (t - 1) old pre ?sg shadow = Inr f'" "wholeDb ps (dlCommit d) f'"
    "\<forall>p \<in> dataPages lib ps (dlCommit d). pageOf ps f' p = pageOf ps cur p"
    using diffPages_applies [OF assms(1,2,4,5,7) refl] by blast
  have "f' = cur" if "dlCommit d < lxLockPgno lib ps"
    by (rule whole_eq [OF f'(2) assms(6)]) (use f'(3) that in \<open>auto simp: dataPages_def\<close>)
  moreover have "checksumPages lib cur ps (dlCommit d) = Inr (dlPost d)"
    using checksumPages_eq assms(6) diffPages_Inr(4) [OF assms(1,2,4) pos] by (simp add: wholeDb_def)
  moreover have "length f' = length cur" using f'(2) assms(6) by (simp add: wholeDb_def)
  ultimately show ?thesis using diffPages_encodes [OF assms(1-4) pos assms(7)] f'(1,3) by blast
qed

text \<open>A database of one page of 512 bytes, its last byte given.\<close>

definition samplePage :: "8 word \<Rightarrow> bytes" where
  "samplePage tag = dbHeaderMagic @ [2, 0] @ replicate 10 0 @ [0, 0, 0, 1] @ replicate 479 9 @ [tag]"

lemma samplePage_header: "readDBHeader (samplePage 4) = Inr (512, 1)" "readDBHeader (samplePage 5) = Inr (512, 1)"
  by code_simp+

lemma samplePage_facts: "length (samplePage t) = 512" "last (samplePage t) = t" "samplePage t \<noteq> []"
  by (simp_all add: samplePage_def dbHeaderMagic_def)

lemma sampleDiff: "\<exists>d. diffPages sampleLib (samplePage 4) (samplePage 5) 9223372036854776069 = Inr d \<and> dlCommit d = 1"
proof -
  have ns: "pgnosTo 1 = [1]" by code_simp
  have "(samplePage 4 = samplePage 5) = False" using samplePage_facts(2) [of 4] samplePage_facts(2) [of 5] by auto
  moreover have "lxLockPgno sampleLib 512 = 2097153" by code_simp
  moreover have "UpdateChecksum sampleLib 0 1 [] (samplePage 5) = 9223372036854776069"
    using samplePage_facts [of 5] by (simp add: UpdateChecksum_def sampleLib_def)
  ultimately show ?thesis
    using samplePage_facts by (simp add: diffPages_def samplePage_header ns readAt_def pageOff_def diffPage_def)
qed

theorem segment_reproduces_checkout_witness:
  "\<exists>d sg. diffPages sampleLib (samplePage 4) (samplePage 5) 9223372036854776069 = Inr d \<and>
     EncodeSegment sampleLib 512 1 9 9 9223372036854776069 (dlPost d) (dlPages d) = Inr sg \<and>
     applySegment sampleLib 512 8 1 9223372036854776069 sg (samplePage 5) = Inr (samplePage 4)"
proof -
  obtain d where d: "diffPages sampleLib (samplePage 4) (samplePage 5) 9223372036854776069 = Inr d" "dlCommit d = 1"
    using sampleDiff by blast
  have "wholeDb 512 1 (samplePage 4)" "wholeDb 512 1 (samplePage 5)" by (simp_all add: wholeDb_def samplePage_facts)
  moreover have "lxFlag sampleLib \<noteq> 0" "1 < lxLockPgno sampleLib 512" by code_simp+
  ultimately show ?thesis
    using segment_reproduces_checkout [OF d(1) _ _ samplePage_header(2), of 9] d by auto
qed

end
