(* ===== verification/Stream_Sums.thy ===== *)
theory Stream_Sums
  imports Page_Diff
begin

text \<open>
  The one-pass checksum, \<^verbatim>\<open>StreamChecksum\<close> and \<^verbatim>\<open>foldPages\<close> of \<^verbatim>\<open>internal/ltxio/segment.go\<close>: a file is read in
  blocks, the pages of each block are folded in two halves, and the file is a whole database when every page
  the header counts was folded. The tee that hashes the same bytes and the goroutines that run the halves do
  not change the value and are not modelled; neither are read errors.

  The property is that the pass accepts exactly the files that hold every page their header counts, and gives
  for them the checksum a scan page by page gives.
\<close>

section \<open>The pass\<close>

text \<open>Pages \<^verbatim>\<open>lo\<close> to \<^verbatim>\<open>hi\<close> of a block, the first of them numbered \<^verbatim>\<open>firstPgno\<close>.\<close>

definition foldPages :: "ltxLib \<Rightarrow> bytes \<Rightarrow> u32 \<Rightarrow> u32 \<Rightarrow> nat \<Rightarrow> nat \<Rightarrow> u64" where
  "foldPages lib block ps firstPgno lo hi =
     fold (\<lambda>i acc.
        let pgno = firstPgno + of_nat (i - lo)
        in if pgno = lxLockPgno lib ps then acc
           else acc XOR lxChecksumPage lib pgno (take (unat ps) (drop (i * unat ps) block)))
       [lo..<hi] 0"

record streamState =
  stHeader :: "(err + u32 \<times> u32) option"
  stSum :: u64
  stFolded :: nat
  stSeen :: nat

definition streamHeader :: "bytes \<Rightarrow> streamState \<Rightarrow> streamState" where
  "streamHeader block st =
     (case stHeader st of
        Some _ \<Rightarrow> st
      | None \<Rightarrow> st\<lparr>stHeader := Some (readDBHeader block)\<rparr>)"

text \<open>The pages of a block that the header counts, folded in two halves.\<close>

definition streamFold :: "ltxLib \<Rightarrow> bytes \<Rightarrow> streamState \<Rightarrow> streamState" where
  "streamFold lib block st =
     (case stHeader st of
        Some (Inr (ps, nPages)) \<Rightarrow>
          let k = min (int (length block) div int (unat ps)) ((int (unat nPages * unat ps) - int (stSeen st)) div int (unat ps))
          in if k > 0 then
               let firstPgno = of_nat (stSeen st div unat ps) + 1;
                   mid = nat k div 2;
                   upper = foldPages lib block ps (firstPgno + of_nat mid) mid (nat k);
                   lower = foldPages lib block ps firstPgno 0 mid
               in st\<lparr>stSum := lxFlag lib OR (stSum st XOR lower XOR upper), stFolded := stFolded st + nat k * unat ps\<rparr>
             else st
      | _ \<Rightarrow> st)"

function streamLoop :: "ltxLib \<Rightarrow> nat \<Rightarrow> bytes \<Rightarrow> streamState \<Rightarrow> streamState" where
  "streamLoop lib bsz r st =
     (let block = take bsz r;
          st1 = streamHeader block st;
          st2 = (if block \<noteq> [] then (streamFold lib block st1)\<lparr>stSeen := stSeen st1 + length block\<rparr> else st1)
      in if length block < bsz \<or> bsz = 0 then st2 else streamLoop lib bsz (drop bsz r) st2)"
  by pat_completeness auto
termination
  by (relation "measure (\<lambda>(_, _, r, _). length r)") auto

declare streamLoop.simps [simp del]

definition StreamChecksum :: "ltxLib \<Rightarrow> nat \<Rightarrow> bytes \<Rightarrow> err + u64" where
  "StreamChecksum lib bsz r =
     (let st = streamLoop lib bsz r \<lparr>stHeader = None, stSum = lxFlag lib, stFolded = 0, stSeen = 0\<rparr>
      in case stHeader st of
           Some (Inr (ps, nPages)) \<Rightarrow>
             if stFolded st < unat nPages * unat ps
             then Inl (Err ''ltxio: not a whole database: truncated'' [ErrNotWholeDatabase])
             else Inr (stSum st)
         | _ \<Rightarrow> Inl (Err ''ltxio: not a whole database: header'' [ErrNotWholeDatabase]))"

section \<open>Page sizes divide a block\<close>

lemma and_pred_power:
  fixes n :: nat
  assumes "0 < n" "n AND (n - 1) = 0"
  shows "\<exists>k. n = 2 ^ k"
  using assms
proof (induction n rule: less_induct)
  case (less n)
  show ?case
  proof (cases "even n")
    case True
    then obtain m where m: "n = 2 * m" "0 < m" using less.prems(1) by (auto elim: evenE)
    have "n - 1 = 2 * (m - 1) + 1" using m by simp
    then have "n AND (n - 1) = 2 * (m AND (m - 1))" using m and_nat_rec [of n "n - 1"] by simp
    then have "m AND (m - 1) = 0" using less.prems(2) by simp
    then obtain k where "m = 2 ^ k" using less.IH [of m] m by auto
    then show ?thesis using m(1) by (intro exI [of _ "Suc k"]) simp
  next
    case False
    then obtain m where m: "n = 2 * m + 1" by (auto elim: oddE)
    have "n AND (n - 1) = 2 * (m AND m)" using and_nat_rec [of n "n - 1"] m by simp
    then have "m = 0" using less.prems(2) by simp
    then show ?thesis using m by (intro exI [of _ 0]) simp
  qed
qed

lemma validPageSize_dvd:
  assumes "validPageSize ps"
  shows "unat ps dvd 65536" "0 < unat ps"
proof -
  have ps: "512 \<le> ps" "ps \<le> 65536" "ps AND (ps - 1) = 0" using assms by (simp_all add: validPageSize_def not_less)
  have pos: "0 < unat ps" using ps(1) by unat_arith
  have "unat (ps - 1) = unat ps - 1" using pos by unat_arith
  then have "unat ps AND (unat ps - 1) = 0" using arg_cong [OF ps(3), of unat] by (simp add: unsigned_and_eq)
  then obtain k where k: "unat ps = 2 ^ k" using and_pred_power [OF pos] by blast
  have "unat ps \<le> 65536" using ps(2) by unat_arith
  then have "(2 :: nat) ^ k \<le> 2 ^ 16" by (simp add: k)
  then have "k \<le> 16" by (metis power_le_imp_le_exp one_less_numeral_iff semiring_norm(76))
  then show "unat ps dvd 65536" using le_imp_power_dvd [of k 16 "2 :: nat"] by (simp add: k)
  show "0 < unat ps" by (rule pos)
qed

section \<open>Halves and blocks\<close>

text \<open>What page \<^verbatim>\<open>i\<close>, counted from 0, adds to the sum.\<close>

definition pageTerm :: "ltxLib \<Rightarrow> u32 \<Rightarrow> bytes \<Rightarrow> nat \<Rightarrow> u64" where
  "pageTerm lib ps f i =
     (if of_nat (Suc i) = lxLockPgno lib ps then 0
      else lxChecksumPage lib (of_nat (Suc i)) (take (unat ps) (drop (i * unat ps) f)))"

lemma fold_xor: "a \<le> b \<Longrightarrow> fold (\<lambda>i acc. acc XOR g i) [a..<b] 0 = xs.F g {a..<b}" for g :: "nat \<Rightarrow> u64"
proof (induction b)
  case (Suc b)
  then show ?case by (cases "a = Suc b") (auto simp: atLeastLessThanSuc xor.commute)
qed simp

lemma foldPages_terms:
  assumes "lo \<le> hi" "hi * unat ps \<le> length block" "block = take (length block) (drop (q * unat ps) f)"
    "first = of_nat (Suc (q + lo))"
  shows "foldPages lib block ps first lo hi = xs.F (pageTerm lib ps f) {q + lo..<q + hi}"
proof -
  have step: "(let pgno = first + of_nat (i - lo)
        in if pgno = lxLockPgno lib ps then acc
           else acc XOR lxChecksumPage lib pgno (take (unat ps) (drop (i * unat ps) block))) =
      acc XOR pageTerm lib ps f (q + i)" if i: "i \<in> set [lo..<hi]" for i acc
  proof -
    have "first + of_nat (i - lo) = of_nat (Suc (q + i))" using i by (simp add: assms(4) of_nat_diff)
    moreover have "(i + 1) * unat ps \<le> hi * unat ps" using i by (intro mult_le_mono1) simp
    then have "(i + 1) * unat ps \<le> length block" using assms(2) by linarith
    then have "take (unat ps) (drop (i * unat ps) (take (length block) (drop (q * unat ps) f))) =
        take (unat ps) (drop ((q + i) * unat ps) f)"
      by (simp add: drop_take min_def add.commute add_mult_distrib)
    then have "take (unat ps) (drop (i * unat ps) block) = take (unat ps) (drop ((q + i) * unat ps) f)"
      using assms(3) by simp
    ultimately show ?thesis by (simp add: Let_def pageTerm_def del: of_nat_Suc)
  qed
  have "foldPages lib block ps first lo hi = fold (\<lambda>i acc. acc XOR pageTerm lib ps f (q + i)) [lo..<hi] 0"
    unfolding foldPages_def by (rule fold_cong) (use step in auto)
  also have "\<dots> = xs.F (\<lambda>i. pageTerm lib ps f (q + i)) {lo..<hi}" by (rule fold_xor [OF assms(1)])
  also have "\<dots> = xs.F (pageTerm lib ps f) {q + lo..<q + hi}"
    using xs.atLeastLessThan_shift_bounds [of "pageTerm lib ps f" lo q hi] by (simp add: comp_def add.commute)
  finally show ?thesis .
qed

text \<open>After \<^verbatim>\<open>s\<close> bytes the sum covers the pages the header counts that lie within them.\<close>

definition streamInv :: "ltxLib \<Rightarrow> bytes \<Rightarrow> u32 \<Rightarrow> u32 \<Rightarrow> nat \<Rightarrow> streamState \<Rightarrow> bool" where
  "streamInv lib f ps n s st \<longleftrightarrow>
     stHeader st = Some (Inr (ps, n)) \<and> stSeen st = s \<and>
     stSum st = lxFlag lib OR xs.F (pageTerm lib ps f) {0..<min (s div unat ps) (unat n)} \<and>
     stFolded st = min (s div unat ps) (unat n) * unat ps"

lemma streamFold_step:
  assumes inv: "streamInv lib f ps n (q * unat ps) st" and ps: "0 < unat ps"
    and block: "block = take (length block) (drop (q * unat ps) f)"
  shows "streamInv lib f ps n (q * unat ps + length block) ((streamFold lib block st)\<lparr>stSeen := stSeen st + length block\<rparr>)"
proof -
  define m where "m = length block div unat ps"
  have q: "(q * unat ps + length block) div unat ps = q + m" using ps by (simp add: m_def)
  have diff: "(int (unat n * unat ps) - int (q * unat ps)) div int (unat ps) = int (unat n) - int q"
  proof -
    have "int (unat n * unat ps) - int (q * unat ps) = (int (unat n) - int q) * int (unat ps)"
      by (simp only: of_nat_mult left_diff_distrib)
    moreover have "int (unat ps) \<noteq> 0" using ps by linarith
    ultimately show ?thesis
      using nonzero_mult_div_cancel_right [of "int (unat ps)" "int (unat n) - int q"] by (simp only:) simp
  qed
  have st: "stHeader st = Some (Inr (ps, n))" "stSeen st = q * unat ps"
    "stSum st = lxFlag lib OR xs.F (pageTerm lib ps f) {0..<min q (unat n)}" "stFolded st = min q (unat n) * unat ps"
    using inv ps by (simp_all add: streamInv_def)
  define k where "k = min (int m) (int (unat n) - int q)"
  have k: "min (int (length block) div int (unat ps)) ((int (unat n * unat ps) - int (stSeen st)) div int (unat ps)) = k"
    unfolding st(2) diff k_def m_def by (simp add: zdiv_int)
  show ?thesis
  proof (cases "k > 0")
    case False
    then have "min (q + m) (unat n) = min q (unat n)" unfolding k_def by linarith
    moreover have "streamFold lib block st = st" unfolding streamFold_def st(1) option.case sum.case prod.case k Let_def using False by (rule if_not_P)
    ultimately show ?thesis by (simp add: streamInv_def st q)
  next
    case True
    define j where "j = nat k div 2"
    have nk: "q + nat k = min (q + m) (unat n)" "q = min q (unat n)" "nat k \<le> m" "j \<le> nat k"
      using True unfolding k_def j_def by linarith+
    have "nat k * unat ps \<le> m * unat ps" using nk(3) by (rule mult_le_mono1)
    then have len: "nat k * unat ps \<le> length block" using div_times_less_eq_dividend [of "length block" "unat ps"]
      unfolding m_def by linarith
    have "j * unat ps \<le> nat k * unat ps" using nk(4) by (rule mult_le_mono1)
    then have lenj: "j * unat ps \<le> length block" using len by linarith
    have first: "of_nat (stSeen st div unat ps) + 1 = (of_nat (Suc q) :: u32)" using ps by (simp add: st(2))
    have lower: "foldPages lib block ps (of_nat (Suc q)) 0 j = xs.F (pageTerm lib ps f) {q..<q + j}"
      using foldPages_terms [OF _ lenj block, of 0 "of_nat (Suc q)" lib] by simp
    have upper: "foldPages lib block ps (of_nat (Suc q) + of_nat j) j (nat k) = xs.F (pageTerm lib ps f) {q + j..<q + nat k}"
      using foldPages_terms [OF nk(4) len block, of "of_nat (Suc q) + of_nat j" lib] by simp
    have "xs.F (pageTerm lib ps f) {0..<q} XOR (xs.F (pageTerm lib ps f) {q..<q + j} XOR xs.F (pageTerm lib ps f) {q + j..<q + nat k}) =
        xs.F (pageTerm lib ps f) {0..<q + nat k}"
      using nk(4) by (simp add: xs.atLeastLessThan_concat)
    then have both: "lxFlag lib OR (stSum st XOR xs.F (pageTerm lib ps f) {q..<q + j} XOR xs.F (pageTerm lib ps f) {q + j..<q + nat k}) =
        lxFlag lib OR xs.F (pageTerm lib ps f) {0..<q + nat k}"
      unfolding st(3) nk(2) [symmetric] xor.assoc flag_absorb by simp
    have fold: "streamFold lib block st =
        st\<lparr>stSum := lxFlag lib OR xs.F (pageTerm lib ps f) {0..<q + nat k}, stFolded := (q + nat k) * unat ps\<rparr>"
      unfolding streamFold_def st(1) option.case sum.case prod.case k Let_def first j_def [symmetric] lower upper both st(4)
        nk(2) [symmetric] add_mult_distrib
      using True by (rule if_P)
    show ?thesis unfolding streamInv_def fold q using nk(1) by (simp add: st)
  qed
qed

section \<open>The whole pass\<close>

lemma streamLoop_inv:
  assumes "bsz = d * unat ps" "0 < d" "0 < unat ps" "streamInv lib f ps n (q * unat ps) st" "q * unat ps \<le> length f"
  shows "streamInv lib f ps n (length f) (streamLoop lib bsz (drop (q * unat ps) f) st)"
  using assms(4,5)
proof (induction "length f - q * unat ps" arbitrary: q st rule: less_induct)
  case less
  define block where "block = take bsz (drop (q * unat ps) f)"
  define st2 where "st2 = (streamFold lib block st)\<lparr>stSeen := stSeen st + length block\<rparr>"
  have pos: "0 < bsz" using assms(1-3) by simp
  have hdr: "streamHeader b st = st" for b using less.prems(1) by (simp add: streamHeader_def streamInv_def)
  have block: "block = take (length block) (drop (q * unat ps) f)"
    by (simp add: block_def min_def)
  have inv: "streamInv lib f ps n (q * unat ps + length block) st2"
    unfolding st2_def by (rule streamFold_step [OF less.prems(1) assms(3) block])
  have run: "streamLoop lib bsz (drop (q * unat ps) f) st =
      (if length block < bsz then (if block = [] then st else st2) else streamLoop lib bsz (drop (bsz + q * unat ps) f) st2)"
    using pos by (subst streamLoop.simps) (auto simp: Let_def block_def [symmetric] hdr st2_def)
  show ?case
  proof (cases "length block < bsz")
    case True
    then have len: "q * unat ps + length block = length f" using less.prems(2) by (simp add: block_def min_def split: if_splits)
    show ?thesis
    proof (cases "block = []")
      case True
      then show ?thesis unfolding run using len less.prems(1) pos by simp
    next
      case False
      then show ?thesis unfolding run using inv \<open>length block < bsz\<close> by (simp add: len)
    qed
  next
    case False
    have off: "bsz + q * unat ps = (d + q) * unat ps" by (simp add: assms(1) add_mult_distrib)
    have lenb: "length block = bsz" "bsz + q * unat ps \<le> length f"
      using False pos less.prems(2) by (auto simp: block_def min_def split: if_splits)
    have "streamInv lib f ps n (length f) (streamLoop lib bsz (drop ((d + q) * unat ps) f) st2)"
      using inv lenb pos off by (intro less.hyps) (simp_all add: add.commute)
    then show ?thesis unfolding run using False by (simp add: off)
  qed
qed

lemma streamLoop_header: "streamLoop lib bsz r (streamHeader (take bsz r) st) = streamLoop lib bsz r st"
proof -
  have "streamHeader (take bsz r) (streamHeader (take bsz r) st) = streamHeader (take bsz r) st"
    by (simp add: streamHeader_def split: option.split)
  then show ?thesis
    by (simp only: streamLoop.simps [of lib bsz r st] streamLoop.simps [of lib bsz r "streamHeader (take bsz r) st"] Let_def)
qed

lemma streamLoop_refused: "stHeader st = Some (Inl e) \<Longrightarrow> stHeader (streamLoop lib bsz r st) = Some (Inl e)"
proof (induction lib bsz r st rule: streamLoop.induct)
  case (1 lib bsz r st)
  have same: "streamHeader (take bsz r) st = st" "streamFold lib (take bsz r) st = st"
    using "1.prems" by (simp_all add: streamHeader_def streamFold_def)
  show ?case
  proof (cases "length (take bsz r) < bsz \<or> bsz = 0")
    case True
    then show ?thesis using "1.prems" by (simp add: streamLoop.simps [of lib bsz r st] Let_def same)
  next
    case False
    then have "take bsz r \<noteq> []" by auto
    then have "streamLoop lib bsz r st = streamLoop lib bsz (drop bsz r) (st\<lparr>stSeen := stSeen st + length (take bsz r)\<rparr>)"
      using False by (simp only: streamLoop.simps [of lib bsz r st] Let_def same if_False if_True not_False_eq_True)
    moreover have "stHeader (streamLoop lib bsz (drop bsz r) (st\<lparr>stSeen := stSeen st + length (take bsz r)\<rparr>)) = Some (Inl e)"
      using "1.IH" [OF refl refl refl] False \<open>take bsz r \<noteq> []\<close> "1.prems" by (simp add: same del: length_take take_eq_Nil)
    ultimately show ?thesis by simp
  qed
qed

lemma pageTerm_sum: "lxFlag lib OR xs.F (pageTerm lib ps f) {0..<unat n} = dbSum lib ps f n"
proof -
  define g where "g p = (if p = lxLockPgno lib ps then 0 else lxChecksumPage lib p (pageOf ps f p))" for p
  have u: "unat (of_nat (Suc i) :: u32) = Suc i" if "i < unat n" for i
    using that unat_bound32 [of n] by (intro unat_of_nat32) linarith
  have inj: "inj_on (\<lambda>i. of_nat (Suc i) :: u32) {0..<unat n}"
  proof (rule inj_onI)
    fix x y
    assume x: "x \<in> {0..<unat n}" and y: "y \<in> {0..<unat n}" and e: "(of_nat (Suc x) :: u32) = of_nat (Suc y)"
    have "Suc x = unat (of_nat (Suc x) :: u32)" using x u by (simp only: atLeastLessThan_iff)
    also have "\<dots> = Suc y" unfolding e using y u by (simp only: atLeastLessThan_iff)
    finally show "x = y" by simp
  qed
  have "pgnosTo n = map (\<lambda>i. of_nat (Suc i)) [0..<unat n]"
    unfolding pgnosTo_def One_nat_def map_Suc_upt [symmetric] map_map comp_def ..
  then have img: "(\<lambda>i. of_nat (Suc i) :: u32) ` {0..<unat n} = {p. 1 \<le> p \<and> p \<le> n}"
    using pgnosTo_set [of n] by (simp del: of_nat_Suc)
  have "pageTerm lib ps f i = g (of_nat (Suc i))" if "i \<in> {0..<unat n}" for i
  proof -
    have "i < 2 ^ 32" using that unat_bound32 [of n] by (simp only: atLeastLessThan_iff) linarith
    then have "unat (of_nat i :: u32) = i" by (rule unat_of_nat32)
    then have "unat (of_nat (Suc i) - 1 :: u32) = i" by simp
    then show ?thesis by (simp add: pageTerm_def g_def pageOf_def pageOff_def del: of_nat_Suc)
  qed
  then have "xs.F (pageTerm lib ps f) {0..<unat n} = xs.F (\<lambda>i. g (of_nat (Suc i))) {0..<unat n}" by (intro xs.cong) auto
  also have "\<dots> = xs.F g {p. 1 \<le> p \<and> p \<le> n}" using xs.reindex [OF inj, of g] unfolding img by (simp add: comp_def)
  also have "\<dots> = xs.F g (dataPages lib ps n)"
    by (rule xs.mono_neutral_right) (auto simp: dataPages_def g_def)
  also have "\<dots> = pageSum lib ps f (dataPages lib ps n)"
    unfolding pageSum_def by (rule xs.cong) (auto simp: dataPages_def g_def)
  finally show ?thesis by (simp add: dbSum_def)
qed

lemma checksumPages_long:
  assumes "unat n * unat ps \<le> length f"
  shows "checksumPages lib f ps n = Inr (dbSum lib ps f n)"
proof -
  have "inFile ps f p" if p: "p \<in> set (pgnosTo n)" for p
  proof -
    have "1 \<le> p" "p \<le> n" using p by (simp_all add: pgnosTo_set)
    then have "Suc (unat (p - 1)) \<le> unat n" by unat_arith
    then have "Suc (unat (p - 1)) * unat ps \<le> unat n * unat ps" by (rule mult_le_mono1)
    then show ?thesis using assms by (simp add: inFile_def pageOff_def)
  qed
  then have "checksumScan lib f ps (pgnosTo n) (lxFlag lib OR pageSum lib ps f {}) =
      Inr (lxFlag lib OR pageSum lib ps f ({} \<union> (set (pgnosTo n) - {lxLockPgno lib ps})))"
    by (intro checksumScan_eq pgnosTo_distinct) auto
  moreover have "set (pgnosTo n) - {lxLockPgno lib ps} = dataPages lib ps n"
    by (auto simp: pgnosTo_set dataPages_def)
  ultimately show ?thesis by (simp add: checksumPages_def dbSum_def pageSum_def)
qed

lemma readDBHeader_Inr: "readDBHeader f = Inr (ps, n) \<Longrightarrow> validPageSize ps"
  by (auto simp: readDBHeader_def checkDBHeader_def Let_def split: option.splits if_splits)

lemma readDBHeader_block: "dbHeaderSize \<le> bsz \<Longrightarrow> readDBHeader (take bsz f) = readDBHeader f"
  by (simp add: readDBHeader_def readAt_def min_def)

text \<open>C19: \<^verbatim>\<open>StreamChecksum\<close>, reading in blocks whose size is a positive multiple of 65536 and folding every block in
  two halves, returns what the page-by-page scan of \<^verbatim>\<open>ChecksumDatabase\<close> returns for every file that holds all
  the pages its header counts, and the not-a-whole-database verdict for every other file: an unusable header,
  or fewer bytes than the header says.
\<close>

theorem StreamChecksum_scan:
  assumes "65536 dvd bsz" "0 < bsz"
  shows "StreamChecksum lib bsz f =
    (case readDBHeader f of
       Inl _ \<Rightarrow> Inl (Err ''ltxio: not a whole database: header'' [ErrNotWholeDatabase])
     | Inr (ps, n) \<Rightarrow>
         if unat n * unat ps \<le> length f then ChecksumDatabase lib 0 f
         else Inl (Err ''ltxio: not a whole database: truncated'' [ErrNotWholeDatabase]))"
proof -
  let ?init = "\<lparr>stHeader = None, stSum = lxFlag lib, stFolded = 0, stSeen = 0\<rparr>"
  let ?st = "streamLoop lib bsz f ?init"
  have "dbHeaderSize \<le> bsz" using dvd_imp_le [OF assms] by (simp add: dbHeaderSize_def)
  then have hdr: "streamHeader (take bsz f) ?init = ?init\<lparr>stHeader := Some (readDBHeader f)\<rparr>"
    by (simp add: streamHeader_def readDBHeader_block)
  have st: "?st = streamLoop lib bsz f (?init\<lparr>stHeader := Some (readDBHeader f)\<rparr>)"
    by (simp only: hdr [symmetric] streamLoop_header)
  show ?thesis
  proof (cases "readDBHeader f")
    case (Inl e)
    have "stHeader ?st = Some (Inl e)" unfolding st Inl by (rule streamLoop_refused) simp
    then show ?thesis by (simp add: StreamChecksum_def Inl)
  next
    case (Inr h)
    then obtain ps n where h: "readDBHeader f = Inr (ps, n)" by (cases h) simp
    have ps: "0 < unat ps" "unat ps dvd bsz"
      using validPageSize_dvd [OF readDBHeader_Inr [OF h]] assms(1) dvd_trans by blast+
    obtain d where d: "bsz = d * unat ps" using ps(2) by (metis dvdE mult.commute)
    have "streamInv lib f ps n (0 * unat ps) (?init\<lparr>stHeader := Some (readDBHeader f)\<rparr>)" by (simp add: streamInv_def h)
    then have inv: "streamInv lib f ps n (length f) ?st"
      using streamLoop_inv [OF d _ ps(1), of lib f n 0] assms(2) d unfolding st by (cases "d = 0") simp_all
    have less: "min (length f div unat ps) (unat n) * unat ps < unat n * unat ps \<longleftrightarrow> \<not> unat n * unat ps \<le> length f"
      using ps(1) by (simp add: less_eq_div_iff_mult_less_eq [OF ps(1), symmetric] min_def not_le)
    have whole: "min (length f div unat ps) (unat n) = unat n" if "unat n * unat ps \<le> length f"
      using that by (simp add: less_eq_div_iff_mult_less_eq [OF ps(1), symmetric] min_absorb2)
    show ?thesis
      using inv less whole checksumPages_long [of n ps f lib]
      by (auto simp: StreamChecksum_def streamInv_def h ChecksumDatabase_def pageTerm_sum)
  qed
qed

theorem StreamChecksum_scan_witness:
  "(65536 :: nat) dvd 131072 \<and> (0 :: nat) < 131072 \<and> StreamChecksum sampleLib 131072 (samplePage 4) = Inr 9223372036854776068 \<and>
   StreamChecksum sampleLib 131072 (take 511 (samplePage 4)) = Inl (Err ''ltxio: not a whole database: truncated'' [ErrNotWholeDatabase])"
proof (intro conjI)
  have lock: "lxLockPgno sampleLib 512 = 2097153" by code_simp
  have "pgnosTo 1 = [1]" by (simp add: pgnosTo_def)
  then have "ChecksumDatabase sampleLib 0 (samplePage 4) = Inr 9223372036854776068"
    using samplePage_facts [of 4]
    by (simp add: ChecksumDatabase_def samplePage_header checksumPages_def lock readAt_def pageOff_def) (simp add: sampleLib_def)
  then show "StreamChecksum sampleLib 131072 (samplePage 4) = Inr 9223372036854776068"
    using StreamChecksum_scan [of 131072 sampleLib "samplePage 4"] samplePage_facts [of 4] by (simp add: samplePage_header)
  have "readDBHeader (take 511 (samplePage 4)) = Inr (512, 1)"
    using readDBHeader_block [of 511 "samplePage 4"] by (simp add: samplePage_header dbHeaderSize_def)
  then show "StreamChecksum sampleLib 131072 (take 511 (samplePage 4)) =
      Inl (Err ''ltxio: not a whole database: truncated'' [ErrNotWholeDatabase])"
    using StreamChecksum_scan [of 131072 sampleLib "take 511 (samplePage 4)"] samplePage_facts [of 4] by simp
qed simp_all

end
