(* ===== verification/Extension.thy ===== *)
theory Extension
  imports Stability
begin

text \<open>
  What a checkpoint or a flush does to a chain: an object written at the transaction right above
  the head, under an epoch above every earlier attempt at that transaction, extends the head's chain by
  exactly that object (a segment) or replaces it by that object alone (a snapshot). Together with
  \<^verbatim>\<open>Stability\<close> this is the argument behind the writers of \<^verbatim>\<open>internal/ops/checkpoint_lease.go\<close>: the
  head only moves once the object it needs resolves.
\<close>

section \<open>The chain one transaction further\<close>

lemma less_inc: "t < t + 1 \<Longrightarrow> x < t + 1 \<longleftrightarrow> x \<le> t" for x t :: u64
  by unat_arith

lemma le_inc: "t < t + 1 \<Longrightarrow> x \<le> t + 1 \<longleftrightarrow> x \<le> t \<or> x = t + 1" for x t :: u64
  by unat_arith

lemma clean_selfWalk_step:
  assumes "sorted_wrt (<) (map cmMax sg)" "m \<in> set sg" "cmMax m = t + 1" "t < t + 1" "p \<le> t"
  shows "filter (\<lambda>s. p < cmMax s \<and> cmMax s \<le> t + 1) sg = filter (\<lambda>s. p < cmMax s \<and> cmMax s \<le> t) sg @ [m]"
proof -
  obtain xs ys where sg: "sg = xs @ m # ys" using assms(2) by (meson split_list)
  have lo: "cmMax x < t + 1" if "x \<in> set xs" for x
    using that assms(1,3) unfolding sg by (simp add: sorted_wrt_append)
  have hi: "t + 1 < cmMax y" if "y \<in> set ys" for y
    using that assms(1,3) unfolding sg by (simp add: sorted_wrt_append)
  have xs: "filter (\<lambda>s. p < cmMax s \<and> cmMax s \<le> t + 1) xs = filter (\<lambda>s. p < cmMax s \<and> cmMax s \<le> t) xs"
  proof (rule filter_cong [OF refl])
    fix x assume "x \<in> set xs"
    then have "cmMax x \<le> t" using lo less_inc [OF assms(4)] by blast
    then show "(p < cmMax x \<and> cmMax x \<le> t + 1) = (p < cmMax x \<and> cmMax x \<le> t)"
      using le_inc [OF assms(4)] by blast
  qed
  have "\<not> cmMax y \<le> t + 1" "\<not> cmMax y \<le> t" if "y \<in> set ys" for y
    using hi [OF that] less_trans [OF assms(4) hi [OF that]] by simp_all
  then have ys: "filter (\<lambda>s. p < cmMax s \<and> cmMax s \<le> t + 1) ys = []" "filter (\<lambda>s. p < cmMax s \<and> cmMax s \<le> t) ys = []"
    by (simp_all add: filter_empty_conv)
  have "\<not> cmMax m \<le> t" using assms(3,4) by simp
  moreover have "p < cmMax m" using le_less_trans [OF assms(5,4)] assms(3) by simp
  ultimately show ?thesis using assms(3) by (simp add: sg xs ys)
qed

text \<open>The state of one lineage that an extension needs: the segments strictly ordered, the new segment
  among them, no snapshot at its transaction.\<close>

definition readyAt :: "u64 \<Rightarrow> chainMember \<Rightarrow> chainMember list \<Rightarrow> chainMember list \<Rightarrow> bool" where
  "readyAt t m sn sg \<longleftrightarrow> sorted_wrt (<) (map cmMax sg) \<and> (\<forall>s \<in> set sg. \<not> cmSnapshot s) \<and> m \<in> set sg \<and>
     cmMin m = t + 1 \<and> cmMax m = t + 1 \<and> t < t + 1 \<and> (\<forall>s \<in> set sn. cmMax s \<noteq> t + 1)"

lemma readyAtD:
  assumes "readyAt t m sn sg"
  shows "sorted_wrt (<) (map cmMax sg)" "\<forall>s \<in> set sg. \<not> cmSnapshot s" "m \<in> set sg" "cmMin m = t + 1"
    "cmMax m = t + 1" "t < t + 1" "\<forall>s \<in> set sn. cmMax s \<noteq> t + 1" "\<not> cmSnapshot m"
  using assms unfolding readyAt_def by blast+

lemma ready_window:
  assumes "readyAt t m sn sg" "p \<le> t"
  shows "filter (\<lambda>s. p < cmMax s \<and> cmMax s \<le> t + 1) sg = filter (\<lambda>s. p < cmMax s \<and> cmMax s \<le> t) sg @ [m]"
  by (rule clean_selfWalk_step [OF readyAtD(1,3,5,6) [OF assms(1)] assms(2)])

lemma contiguousFrom_snoc:
  "contiguousFrom p (xs @ [m]) \<longleftrightarrow> contiguousFrom p xs \<and> \<not> cmSnapshot m \<and>
     cmMin m = (if xs = [] then p else cmMax (last xs)) + 1"
  by (cases "xs = []") (auto simp: contiguousFrom_append)

lemma find_same_upto:
  assumes "\<forall>s \<in> set sn. cmMax s \<noteq> t + 1" "t < t + 1"
  shows "List.find (\<lambda>m. cmMax m \<le> t + 1) (rev sn) = List.find (\<lambda>m. cmMax m \<le> t) (rev sn)"
proof -
  have "(cmMax x \<le> t + 1) = (cmMax x \<le> t)" if "x \<in> set (rev sn)" for x
    using that assms(1) le_inc [OF assms(2)] by auto
  then show ?thesis by (rule find_cong [OF refl])
qed

lemma empty_window: "filter (\<lambda>s. t < f s \<and> f s \<le> (t::u64)) xs = []"
  by (auto simp: filter_empty_conv)

lemma selfWalk_step:
  assumes "readyAt t m sn sg" "p \<le> t" "(p = t \<and> ws = []) \<or> selfWalk t p sg = Inr ws"
  shows "selfWalk (t + 1) p sg = Inr (ws @ [m])"
proof -
  note r = readyAtD [OF assms(1)] and iff = selfWalk_iff [OF readyAtD(1,2) [OF assms(1)]]
  have "ws = filter (\<lambda>s. p < cmMax s \<and> cmMax s \<le> t) sg \<and> contiguousFrom p ws \<and>
      (if ws = [] then p else cmMax (last ws)) = t"
    using assms(3) unfolding iff by (auto simp: empty_window)
  then show ?thesis
    unfolding iff ready_window [OF assms(1,2)] using r(4,5,8)
    by (auto simp: contiguousFrom_snoc split: if_splits)
qed

lemma rangeWalk_step:
  assumes "readyAt t m sn sg" "lo \<le> t" "(lo = t \<and> cs = []) \<or> resolveRange lo t sg = Inr cs"
  shows "resolveRange lo (t + 1) sg = Inr (cs @ [m])"
proof -
  note r = readyAtD [OF assms(1)] and iff = rangeWalk_iff [OF readyAtD(1,2) [OF assms(1)]]
  have "cs = filter (\<lambda>s. lo < cmMax s \<and> cmMax s \<le> t) sg \<and> contiguousFrom lo cs \<and>
      (if cs = [] then lo else cmMax (last cs)) = t"
    using assms(3) unfolding resolveRange_def iff by (auto simp: empty_window)
  then show ?thesis
    unfolding resolveRange_def iff ready_window [OF assms(1,2)] using r(4,5,8)
    by (auto simp: contiguousFrom_snoc split: if_splits)
qed

lemma resolveSelf_step:
  assumes "resolveSelf t sn sg = Inr ms" "readyAt t m sn sg"
  shows "resolveSelf (t + 1) sn sg = Inr (ms @ [m])"
proof -
  note r = readyAtD [OF assms(2)]
  obtain b where b: "List.find (\<lambda>m. cmMax m \<le> t) (rev sn) = Some b"
    using assms(1) by (cases "List.find (\<lambda>m. cmMax m \<le> t) (rev sn)") (simp_all add: resolveSelf_def)
  have bt: "cmMax b \<le> t" using find_rev_Some [OF b] by blast
  have ne: "cmMax b \<noteq> t + 1" using bt r(6) by auto
  obtain ws where ws: "ms = b # ws" "(cmMax b = t \<and> ws = []) \<or> selfWalk t (cmMax b) sg = Inr ws"
    using assms(1) b by (cases "cmMax b = t") (auto simp: resolveSelf_def)
  have "selfWalk (t + 1) (cmMax b) sg = Inr (ws @ [m])"
    by (rule selfWalk_step [OF assms(2) bt ws(2)])
  then show ?thesis using b ne ws(1) find_same_upto [OF r(7,6)] by (simp add: resolveSelf_def)
qed

lemma resolveSelf_none_step:
  assumes "filter (\<lambda>m. cmMax m \<le> t) sn = []" "readyAt t m sn sg"
  shows "\<exists>e'. resolveSelf (t + 1) sn sg = Inl e' \<and> errors_is e' ErrNoSnapshotCoversTarget"
proof -
  note r = readyAtD [OF assms(2)]
  have "filter (\<lambda>m. cmMax m \<le> t + 1) sn = []"
    using assms(1) r(7) le_inc [OF r(6)] by (simp add: filter_empty_conv)
  then show ?thesis using resolveSelf_noSnapshot by blast
qed

lemma resolves_step:
  assumes "resolves v l t seen ms" "listMembers v l = Inr (sn, sg)" "readyAt t m sn sg"
    "\<And>b. lineageBase v l = Inr (Some b) \<Longrightarrow> bpTXID b \<le> t \<and> (\<forall>s \<in> set sn. bpTXID b < cmMax s)"
  shows "resolves v l (t + 1) seen (ms @ [m])"
proof -
  have up: "bpTXID b < t + 1" if "bpTXID b \<le> t" for b
    using that readyAtD(6) [OF assms(3)] by (rule order_le_less_trans)
  from assms(1) show ?thesis
  proof (cases rule: resolves.cases)
    case (Self sn' sg')
    then show ?thesis
      using resolves.Self [OF Self(1) assms(2) resolveSelf_step [OF _ assms(3)]] assms(2) by simp
  next
    case (Below b)
    then have t: "bpTXID b = t" using assms(4) [OF Below(1)] by simp
    have "filter (\<lambda>m. cmMax m \<le> t) sn = []"
      using assms(4) [OF Below(1)] t by (simp add: filter_empty_conv not_le)
    then obtain e where e: "resolveSelf (t + 1) sn sg = Inl e" "errors_is e ErrNoSnapshotCoversTarget"
      using resolveSelf_none_step [OF _ assms(3)] by blast
    have "chainOk t ms" using resolves_sound [OF assms(1)] .
    then have last: "ms \<noteq> []" "cmMax (last ms) = bpTXID b" using t by (auto simp: chainOk_def split: list.splits)
    have "resolveRange (bpTXID b) (t + 1) sg = Inr [m]"
      using rangeWalk_step [OF assms(3), of t "[]"] t by simp
    then show ?thesis
      using resolves.Seam [OF Below(1,2) up assms(2) e _ _ last] Below(4) t by simp
  next
    case (Own b sn' sg')
    have "resolveSelf t sn sg = Inr ms" using Own(4,5) assms(2) by simp
    then show ?thesis
      using resolves.Own [OF Own(1,2) up assms(2) resolveSelf_step [OF _ assms(3)]] assms(4) [OF Own(1)] by blast
  next
    case (Seam b sn' sg' e ps cs)
    have sg: "sn' = sn" "sg' = sg" using Seam(5) assms(2) by simp_all
    have "filter (\<lambda>m. cmMax m \<le> t) sn = []"
      using resolveSelf_noSnapshot [of t sn sg] Seam(6,7) sg by blast
    then obtain e' where e': "resolveSelf (t + 1) sn sg = Inl e'" "errors_is e' ErrNoSnapshotCoversTarget"
      using resolveSelf_none_step [OF _ assms(3)] by blast
    have "resolveRange (bpTXID b) (t + 1) sg = Inr (cs @ [m])"
      using rangeWalk_step [OF assms(3), of "bpTXID b" cs] assms(4) [OF Seam(2)] Seam(9) sg by simp
    then have "resolves v l (t + 1) seen (ps @ (cs @ [m]))"
      using resolves.Seam [OF Seam(2,3) up assms(2) e' Seam(8) _ Seam(10,11)] assms(4) [OF Seam(2)] by blast
    then show ?thesis using Seam(1) by simp
  qed
qed

section \<open>Writing the next member\<close>

text \<open>The member a writer adds at the transaction above the head, under an epoch above every earlier
  attempt at it.\<close>

definition freshMember :: "view \<Rightarrow> string \<Rightarrow> u64 \<Rightarrow> chainMember \<Rightarrow> bool" where
  "freshMember v l t m \<longleftrightarrow> ParseMemberKey (cmKey m) = Some m \<and> hasPrefix (cmKey m) (LineagePrefix l) \<and>
     cmMax m = t + 1 \<and> t < t + 1 \<and> cmKey m \<notin> fst ` set (vObjs v) \<and> \<not> listHidden (cmKey m) \<and>
     (\<forall>x \<in> set (membersOf v l). cmMax x = t + 1 \<longrightarrow> cmEpoch x < cmEpoch m)"

lemma membersOf_fresh:
  assumes "msorted (vObjs v)" "freshMember v l t m"
  shows "set (membersOf (addObj (cmKey m) c v) l) = insert m (set (membersOf v l))"
proof -
  have keys: "fst ` set (vObjs (addObj (cmKey m) c v)) = insert (cmKey m) (fst ` set (vObjs v))"
    by (simp add: addObj_def)
  have p: "ParseMemberKey (cmKey m) = Some m" "hasPrefix (cmKey m) (LineagePrefix l)" "\<not> listHidden (cmKey m)"
    using assms(2) by (simp_all add: freshMember_def)
  have "x \<in> set (membersOf (addObj (cmKey m) c v) l) \<longleftrightarrow> x = m \<or> x \<in> set (membersOf v l)" for x
    unfolding membersOf_iff keys using p by (cases "cmKey x = cmKey m") auto
  then show ?thesis by blast
qed

lemma live_fresh:
  assumes "msorted (vObjs v)" "freshMember v l t m" "collapsible m" "cleanLineage v l"
    "liveIn (addObj (cmKey m) c v) l x"
  shows "x = m \<or> (liveIn v l x \<and> cmMax x \<noteq> t + 1)"
proof (cases "x = m")
  case False
  let ?v = "addObj (cmKey m) c v"
  have f: "ParseMemberKey (cmKey m) = Some m" "cmMax m = t + 1"
    "\<forall>x \<in> set (membersOf v l). cmMax x = t + 1 \<longrightarrow> cmEpoch x < cmEpoch m"
    using assms(2) by (simp_all add: freshMember_def)
  have "x \<in> set (membersOf ?v l)" using assms(5) by (rule liveIn_member)
  then have xm: "x \<in> set (membersOf v l)" using False membersOf_fresh [OF assms(1,2)] by blast
  then have col: "collapsible x" using assms(4) by (simp add: cleanLineage_def)
  have "cmMax x \<noteq> t + 1"
  proof
    assume x: "cmMax x = t + 1"
    then have b: "sameBucket x m" using col assms(3) f(2) by (simp add: sameBucket_def)
    have "m \<in> set (membersOf ?v l)" using membersOf_fresh [OF assms(1,2)] by blast
    then have "rank m \<le> rank x" using khe_rank [of x "membersOf ?v l" m] assms(5) b by (simp add: liveIn_def)
    moreover have "cmEpoch x < cmEpoch m" using f(3) xm x by blast
    ultimately show False by (auto simp: rank_def less_eq_prod_def)
  qed
  moreover from this have "\<not> sameBucket x m" using f(2) by (simp add: sameBucket_def)
  then have "liveIn v l x" using liveIn_add [OF assms(1) f(1), of l x c] assms(5) by blast
  ultimately show ?thesis by blast
qed simp

lemma fresh_live:
  assumes "msorted (vObjs v)" "freshMember v l t m" "collapsible m" "cleanLineage v l"
  shows "liveIn (addObj (cmKey m) c v) l m"
proof -
  let ?v = "addObj (cmKey m) c v"
  have "m \<in> set (membersOf ?v l)" using membersOf_fresh [OF assms(1,2)] by blast
  then obtain x where x: "x \<in> set (keepHighestEpoch (membersOf ?v l))" "sameBucket x m" using khe_exists by blast
  then have "liveIn ?v l x" by (simp add: liveIn_def)
  then have "x = m \<or> cmMax x \<noteq> t + 1" using live_fresh [OF assms] by blast
  moreover have "cmMax x = t + 1" using x(2) assms(2) by (simp add: sameBucket_def freshMember_def)
  ultimately show ?thesis using x(1) by (simp add: liveIn_def)
qed

lemma clean_fresh:
  assumes "msorted (vObjs v)" "freshMember v l t m" "collapsible m" "cleanLineage v l"
    "\<And>b. lineageBase v l = Inr (Some b) \<Longrightarrow> bpTXID b \<le> t"
  shows "cleanLineage (addObj (cmKey m) c v) l"
proof -
  have p: "ParseMemberKey (cmKey m) = Some m" "cmMax m = t + 1" "t < t + 1"
    using assms(2) by (simp_all add: freshMember_def)
  have "bpTXID b < cmMax m" if "lineageBase v l = Inr (Some b)" for b
    using assms(5) [OF that] p by simp
  then show ?thesis
    using assms(3,4) unfolding cleanLineage_def membersOf_fresh [OF assms(1,2)] lineageBase_add [OF p(1)]
    by (auto split: sum.splits option.splits)
qed

text \<open>What is needed of the store and of the lineage a writer extends: base pointers that name lineages,
  members as the writers leave them, and a head at or above the fork point.\<close>

definition extensible :: "objs \<Rightarrow> string \<Rightarrow> u64 \<Rightarrow> bool" where
  "extensible s l t \<longleftrightarrow> msorted s \<and> basesOk (viewOf s) \<and> lineage_ok l \<and> cleanLineage (viewOf s) l \<and>
     (\<exists>ob. lineageBase (viewOf s) l = Inr ob) \<and>
     (\<forall>b. lineageBase (viewOf s) l = Inr (Some b) \<longrightarrow> bpTXID b \<le> t \<and> bpLineage b \<noteq> l)"

lemma addObj_viewOf [simp]: "addObj k c (viewOf s) = viewOf (mput k c s)"
  by (simp add: addObj_def viewOf_def)

lemma viewOf_parts [simp]: "vObjs (viewOf s) = s" "vFail (viewOf s) = (\<lambda>_. None)"
  by (simp_all add: viewOf_def)

lemma listMembers_viewOf: "listMembers (viewOf s) l = Inr (splitMembers (keepHighestEpoch (membersOf (viewOf s) l)))"
  by (simp add: listMembers_def viewList_def membersOf_def)

lemma extensible_fresh:
  assumes "extensible s l t" "freshMember (viewOf s) l t m" "collapsible m"
  obtains sn sg where "listMembers (viewOf (mput (cmKey m) c s)) l = Inr (sn, sg)"
    "set sn = {x. liveIn (viewOf (mput (cmKey m) c s)) l x \<and> cmSnapshot x}"
    "set sg = {x. liveIn (viewOf (mput (cmKey m) c s)) l x \<and> \<not> cmSnapshot x}"
    "sorted (map cmMax sn)" "inj_on cmMax (set sn)" "sorted_wrt (<) (map cmMax sg)"
    "cleanLineage (viewOf (mput (cmKey m) c s)) l" "liveIn (viewOf (mput (cmKey m) c s)) l m"
    "\<And>x. liveIn (viewOf (mput (cmKey m) c s)) l x \<Longrightarrow> x = m \<or> cmMax x \<noteq> t + 1"
    "\<And>x b. lineageBase (viewOf s) l = Inr (Some b) \<Longrightarrow> liveIn (viewOf (mput (cmKey m) c s)) l x \<Longrightarrow> bpTXID b < cmMax x"
proof -
  let ?v = "viewOf (mput (cmKey m) c s)"
  have e: "msorted (vObjs (viewOf s))" "cleanLineage (viewOf s) l"
    "\<And>b. lineageBase (viewOf s) l = Inr (Some b) \<Longrightarrow> bpTXID b \<le> t"
    using assms(1) by (simp_all add: extensible_def)
  obtain sn sg where m: "listMembers ?v l = Inr (sn, sg)"
    using listMembers_viewOf [of "mput (cmKey m) c s" l] by (metis prod.collapse)
  have clean: "cleanLineage ?v l" using clean_fresh [OF e(1) assms(2,3) e(2,3), of c] by simp
  have p: "ParseMemberKey (cmKey m) = Some m" using assms(2) by (simp add: freshMember_def)
  have base: "lineageBase ?v l = lineageBase (viewOf s) l" using lineageBase_add [OF p, of c "viewOf s" l] by simp
  have above: "bpTXID b < cmMax x" if "lineageBase (viewOf s) l = Inr (Some b)" "liveIn ?v l x" for x b
    using clean liveIn_member [OF that(2)] that(1) base by (auto simp: cleanLineage_def)
  note f = listMembers_facts [OF m]
  have live: "liveIn ?v l m" using fresh_live [OF e(1) assms(2,3) e(2), of c] by simp
  have only: "x = m \<or> cmMax x \<noteq> t + 1" if "liveIn ?v l x" for x
    using live_fresh [OF e(1) assms(2,3) e(2), of c x] that by auto
  show ?thesis by (rule that [OF m f(4,5,1,2) f(6) [OF clean] clean live only above])
qed

lemma resolves_fresh:
  assumes "Chain (viewOf s) l t = Inr ms" "extensible s l t" "freshMember (viewOf s) l t m"
  shows "resolves (viewOf (mput (cmKey m) c s)) l t [l] ms"
proof -
  have "ParseMemberKey (cmKey m) = Some m" "t < cmMax m" using assms(3) by (simp_all add: freshMember_def)
  then have "agreeBelow t (viewOf s) (addObj (cmKey m) c (viewOf s))"
    using agreeBelow_add_above [of "viewOf s" "cmKey m" m t c] assms(2) by (simp add: extensible_def)
  moreover have "basesOk (viewOf s)" "lineage_ok l" using assms(2) by (simp_all add: extensible_def)
  ultimately show ?thesis
    using resolves_agree [OF _ _ _ _ order_refl] assms(1) unfolding Chain_iff addObj_viewOf by blast
qed

theorem segment_extends:
  assumes "Chain (viewOf s) l t = Inr ms" "extensible s l t" "freshMember (viewOf s) l t m"
    "\<not> cmSnapshot m" "cmMin m = t + 1"
  shows "Chain (viewOf (mput (cmKey m) c s)) l (t + 1) = Inr (ms @ [m])"
proof -
  let ?v = "viewOf (mput (cmKey m) c s)"
  have f: "cmMax m = t + 1" "t < t + 1" "ParseMemberKey (cmKey m) = Some m"
    using assms(3) by (simp_all add: freshMember_def)
  have col: "collapsible m" using assms(5) f(1) by (simp add: collapsible_def)
  obtain sn sg where x: "listMembers ?v l = Inr (sn, sg)"
    "set sn = {x. liveIn ?v l x \<and> cmSnapshot x}" "set sg = {x. liveIn ?v l x \<and> \<not> cmSnapshot x}"
    "sorted_wrt (<) (map cmMax sg)" "liveIn ?v l m" "\<And>x. liveIn ?v l x \<Longrightarrow> x = m \<or> cmMax x \<noteq> t + 1"
    "\<And>x b. lineageBase (viewOf s) l = Inr (Some b) \<Longrightarrow> liveIn ?v l x \<Longrightarrow> bpTXID b < cmMax x"
    by (rule extensible_fresh [OF assms(2,3) col]) blast
  have ready: "readyAt t m sn sg"
    using x(2-6) assms(4,5) f unfolding readyAt_def by auto
  have base: "lineageBase ?v l = lineageBase (viewOf s) l" using lineageBase_add [OF f(3), of c "viewOf s" l] by simp
  have "bpTXID b \<le> t \<and> (\<forall>s \<in> set sn. bpTXID b < cmMax s)" if "lineageBase ?v l = Inr (Some b)" for b
    using that assms(2) x(2,7) unfolding base extensible_def by blast
  then show ?thesis
    using resolves_step [OF resolves_fresh [OF assms(1-3)] x(1) ready] unfolding Chain_iff by blast
qed

lemma snapshot_extends:
  assumes "extensible s l t" "freshMember (viewOf s) l t m" "cmSnapshot m"
  shows "Chain (viewOf (mput (cmKey m) c s)) l (t + 1) = Inr [m]"
proof -
  let ?v = "viewOf (mput (cmKey m) c s)"
  have f: "cmMax m = t + 1" "t < t + 1" "ParseMemberKey (cmKey m) = Some m"
    using assms(2) by (simp_all add: freshMember_def)
  have col: "collapsible m" using assms(3) by (simp add: collapsible_def)
  obtain sn sg where x: "listMembers ?v l = Inr (sn, sg)" "set sn = {x. liveIn ?v l x \<and> cmSnapshot x}"
    "sorted (map cmMax sn)" "inj_on cmMax (set sn)" "liveIn ?v l m"
    by (rule extensible_fresh [OF assms(1,2) col]) blast
  have "List.find (\<lambda>x. cmMax x \<le> t + 1) (rev sn) = Some m"
    by (rule find_rev_intro [OF x(3,4)]) (use x(2,5) assms(3) f(1) in auto)
  then have self: "resolveSelf (t + 1) sn sg = Inr [m]" by (simp add: resolveSelf_def f(1))
  have base: "lineageBase ?v l = lineageBase (viewOf s) l" using lineageBase_add [OF f(3), of c "viewOf s" l] by simp
  show ?thesis
  proof (cases "lineageBase (viewOf s) l")
    case (Inr ob)
    show ?thesis
    proof (cases ob)
      case None
      then show ?thesis unfolding Chain_iff using resolves.Self [OF _ x(1) self] Inr base by simp
    next
      case (Some b)
      then have "bpTXID b < t + 1" "bpLineage b \<notin> set [l]"
        using assms(1) Inr f(2) by (auto simp: extensible_def)
      then show ?thesis unfolding Chain_iff using resolves.Own [OF _ _ _ x(1) self] Inr Some base by metis
    qed
  qed (use assms(1) in \<open>simp add: extensible_def\<close>)
qed

section \<open>The keys the writers build\<close>

abbreviation snapshotMember :: "string \<Rightarrow> u64 \<Rightarrow> u64 \<Rightarrow> chainMember" where
  "snapshotMember l e t \<equiv> \<lparr>cmKey = SnapshotKey l e t, cmSnapshot = True, cmMin = 0, cmMax = t, cmEpoch = e\<rparr>"

abbreviation segmentMember :: "string \<Rightarrow> u64 \<Rightarrow> u64 \<Rightarrow> u64 \<Rightarrow> chainMember" where
  "segmentMember l e a b \<equiv> \<lparr>cmKey = SegmentKey l e a b, cmSnapshot = False, cmMin = a, cmMax = b, cmEpoch = e\<rparr>"

lemma no_tmp_file: "CHR ''.'' \<notin> set p \<Longrightarrow> \<not> containsSub (p @ ''.ltx'') ''.tmp-''"
  by (induction p) (auto simp: hasPrefix_Cons)

lemma ltx_listed:
  assumes "CHR ''.'' \<notin> set p" "CHR ''/'' \<notin> set p"
  shows "\<not> listHidden (d @ CHR ''/'' # p @ ''.ltx'')"
proof -
  have "last (splitOn CHR ''/'' (d @ CHR ''/'' # p @ ''.ltx'')) = p @ ''.ltx''"
    using assms(2) by (intro last_splitOn) simp
  moreover have "\<not> hasSuffix (d @ CHR ''/'' # p @ ''.ltx'') ''.lock''"
    by (simp add: hasSuffix_def hasPrefix_Cons)
  ultimately show ?thesis using no_tmp_file [OF assms(1)] by (simp add: listHidden_def)
qed

lemma member_listed [simp]: "\<not> listHidden (SnapshotKey l e t)" "\<not> listHidden (SegmentKey l e a b)"
  using ltx_listed [of "''snapshot-'' @ fmtX16 t" "''data/'' @ l @ ''/'' @ fmtD e"]
    ltx_listed [of "''segment-'' @ fmtX16 b @ ''-'' @ fmtX16 a" "''data/'' @ l @ ''/'' @ fmtD e"]
  by (simp_all add: SnapshotKey_def SegmentKey_def)

definition unfenced :: "objs \<Rightarrow> string \<Rightarrow> u64 \<Rightarrow> u64 \<Rightarrow> bool" where
  "unfenced s l e t \<longleftrightarrow> (\<forall>x \<in> set (membersOf (viewOf s) l). cmMax x = t \<longrightarrow> cmEpoch x < e)"

lemma freshMember_intro:
  assumes "lineage_ok l" "t < t + 1" "unfenced s l e (t + 1)"
    "ParseMemberKey (cmKey m) = Some m" "hasPrefix (cmKey m) (LineagePrefix l)" "\<not> listHidden (cmKey m)"
    "cmMax m = t + 1" "cmEpoch m = e"
  shows "freshMember (viewOf s) l t m"
proof -
  have "cmKey m \<notin> fst ` set s"
  proof
    assume "cmKey m \<in> fst ` set s"
    then have "m \<in> set (membersOf (viewOf s) l)" using assms(4-6) by (simp add: membersOf_iff)
    then show False using assms(3,7,8) by (auto simp: unfenced_def)
  qed
  then show ?thesis using assms by (simp add: freshMember_def unfenced_def)
qed

section \<open>Properties\<close>



end
