(* ===== verification/Head_Chain.thy ===== *)
theory Head_Chain
  imports Extension Refs
begin

text \<open>
  The recorded head chain (\<^verbatim>\<open>internal/ops/chain_cache.go\<close>): a checkpoint records the keys of its new
  head's chain in the checkout's sidecar (\<^verbatim>\<open>sumRecord\<close> of \<^verbatim>\<open>internal/ops/sidecar.go\<close>), and the next
  operation on the head takes the chain from there when \<^verbatim>\<open>cachedChain\<close> accepts it, instead of listing
  the lineage.  The lemmas show that an accepted record is a well-formed chain ending at the head, and
  that the record of a chain the store resolved is accepted and gives exactly that chain back.
\<close>

section \<open>The sidecar\<close>

record sumRecord =
  srHash :: string
  srLineage :: string
  srEpoch :: u64
  srTXID :: u64
  srPostApply :: u64
  srChainID :: string
  srSize :: int
  srModTimeNS :: int
  srChangeCounter :: "32 word"
  srStampedNS :: int
  srShadow :: bool
  srChain :: "key list"

text \<open>What \<^verbatim>\<open>readSidecar\<close> makes of the file: absent or not JSON (\<^verbatim>\<open>None\<close>), or a record, refused when
  its hash is empty.\<close>

definition readSidecar :: "sumRecord option \<Rightarrow> sumRecord option" where
  "readSidecar file =
     (case file of
        None \<Rightarrow> None
      | Some rec \<Rightarrow> if srHash rec = [] then None else Some rec)"

definition atHead :: "sumRecord \<Rightarrow> ref \<Rightarrow> bool" where
  "atHead rec r \<longleftrightarrow> srLineage rec = rLineage r \<and> srEpoch rec = rHeadEpoch r \<and> srTXID rec = rHeadTXID r"

section \<open>The recorded chain\<close>

text \<open>The first loop: parse every key, and find the first one of the lineage's own.\<close>

fun cacheScan :: "string \<Rightarrow> nat \<Rightarrow> key list \<Rightarrow> nat option \<Rightarrow> chainMember list \<Rightarrow>
    (chainMember list \<times> nat option) option" where
  "cacheScan own i [] seam members = Some (members, seam)"
| "cacheScan own i (key # keys) seam members =
     (case ParseMemberKey key of
        None \<Rightarrow> None
      | Some m \<Rightarrow>
          if hasPrefix key own
          then cacheScan own (i + 1) keys (if seam = None then Some i else seam) (members @ [m])
          else if seam \<noteq> None then None
          else cacheScan own (i + 1) keys seam (members @ [m]))"

text \<open>The checks at the seam, where the base spine's half of the chain meets the lineage's own.\<close>

definition seamOk :: "ref \<Rightarrow> key list \<Rightarrow> chainMember list \<Rightarrow> nat \<Rightarrow> bool" where
  "seamOk r keys members seam \<longleftrightarrow>
     (case rBase r of
        None \<Rightarrow> False
      | Some b \<Rightarrow>
          cmMax (members ! (seam - 1)) = bpTXID b \<and> cmMin (members ! seam) = bpTXID b + 1 \<and>
          hasPrefix (keys ! (seam - 1)) (LineagePrefix (bpLineage b)) \<and> \<not> cmSnapshot (members ! seam))"

fun linked :: "chainMember \<Rightarrow> chainMember list \<Rightarrow> bool" where
  "linked prev [] \<longleftrightarrow> True"
| "linked prev (m # ms) \<longleftrightarrow> \<not> cmSnapshot m \<and> cmMin m = cmMax prev + 1 \<and> linked m ms"

definition cachedChain :: "sumRecord option \<Rightarrow> ref \<Rightarrow> chainMember list option" where
  "cachedChain file r =
     (case readSidecar file of
        None \<Rightarrow> None
      | Some rec \<Rightarrow>
          if \<not> atHead rec r \<or> srChain rec = [] then None
          else (case cacheScan (LineagePrefix (rLineage r)) 0 (srChain rec) None [] of
            None \<Rightarrow> None
          | Some (members, None) \<Rightarrow> None
          | Some (members, Some seam) \<Rightarrow>
              if seam > 0 \<and> \<not> seamOk r (srChain rec) members seam then None
              else if \<not> cmSnapshot (hd members) \<or> cmMax (last members) \<noteq> rHeadTXID r \<or>
                      cmEpoch (last members) \<noteq> rHeadEpoch r then None
              else if \<not> linked (hd members) (tl members) then None
              else Some members))"

definition headChain :: "sumRecord option \<Rightarrow> ref \<Rightarrow> world \<Rightarrow> (err + chainMember list) \<times> world" where
  "headChain file r w =
     (case cachedChain file r of
        Some members \<Rightarrow> (Inr members, w)
      | None \<Rightarrow> (case readView w of (v, w1) \<Rightarrow> (Chain v (rLineage r) (rHeadTXID r), w1)))"

definition chainKeys :: "chainMember list \<Rightarrow> key \<Rightarrow> key list" where
  "chainKeys members extra = map cmKey members @ [extra]"

section \<open>An accepted record\<close>

lemma cacheScan_sound:
  "cacheScan own i keys seam acc = Some (ms, seam') \<Longrightarrow>
     \<exists>new. ms = acc @ new \<and> map cmKey new = keys \<and> (\<forall>m \<in> set new. ParseMemberKey (cmKey m) = Some m)"
proof (induction own i keys seam acc arbitrary: ms seam' rule: cacheScan.induct)
  case (2 own i key keys seam members)
  then obtain m where m: "ParseMemberKey key = Some m" by (cases "ParseMemberKey key") auto
  then obtain new where "ms = (members @ [m]) @ new" "map cmKey new = keys"
    "\<forall>m \<in> set new. ParseMemberKey (cmKey m) = Some m"
    using 2 by (auto split: if_splits)
  then show ?case using m ParseMemberKey_key [OF m] by (intro exI [of _ "m # new"]) auto
qed simp

lemma linked_contiguous: "linked p ms \<longleftrightarrow> contiguousFrom (cmMax p) ms"
  by (induction p ms rule: linked.induct) auto

lemma cachedChain_sound:
  assumes "cachedChain file r = Some ms"
  shows "chainOk (rHeadTXID r) ms" "cmEpoch (last ms) = rHeadEpoch r"
    "\<exists>rec. file = Some rec \<and> atHead rec r \<and> map cmKey ms = srChain rec"
    "\<forall>m \<in> set ms. ParseMemberKey (cmKey m) = Some m"
proof -
  obtain rec seam where rec: "readSidecar file = Some rec" "atHead rec r" "srChain rec \<noteq> []"
    "cacheScan (LineagePrefix (rLineage r)) 0 (srChain rec) None [] = Some (ms, Some seam)"
    "cmSnapshot (hd ms)" "cmMax (last ms) = rHeadTXID r" "cmEpoch (last ms) = rHeadEpoch r" "linked (hd ms) (tl ms)"
    using assms by (auto simp: cachedChain_def split: option.splits if_splits prod.splits)
  then show "\<exists>rec. file = Some rec \<and> atHead rec r \<and> map cmKey ms = srChain rec"
    "\<forall>m \<in> set ms. ParseMemberKey (cmKey m) = Some m" "cmEpoch (last ms) = rHeadEpoch r"
    using cacheScan_sound [OF rec(4)] by (auto simp: readSidecar_def split: option.splits if_splits)
  have "ms \<noteq> []" using cacheScan_sound [OF rec(4)] rec(3) by auto
  then show "chainOk (rHeadTXID r) ms"
    using rec(5,6,8) linked_contiguous by (cases ms) (auto simp: chainOk_def)
qed

section \<open>The record of a resolved chain\<close>

lemma resolves_members_seen:
  "resolves v l t seen ms \<Longrightarrow> m \<in> set ms \<Longrightarrow> \<exists>a. (a = l \<or> a \<notin> set seen) \<and> ancestor v l a \<and> liveIn v a m"
proof (induction rule: resolves.induct)
  case (Self l sn sg t ms seen)
  then have "set ms \<subseteq> set sn \<union> set sg" using resolveSelf_sound(2) listMembers_kinds by blast
  then show ?case using Self listMembers_live [of v l sn sg] by (auto intro: ancestor.Refl)
next
  case (Below l b seen t ms)
  then show ?case by (auto intro: ancestor.Hop)
next
  case (Own l b seen t sn sg ms)
  then have "set ms \<subseteq> set sn \<union> set sg" using resolveSelf_sound(2) listMembers_kinds by blast
  then show ?case using Own listMembers_live [of v l sn sg] by (auto intro: ancestor.Refl)
next
  case (Seam l b seen t sn sg e ps cs)
  have "set cs \<subseteq> set sn \<union> set sg"
    using Seam listMembers_kinds [of v l sn sg] rangeWalk_sound [of "bpTXID b" t "bpTXID b" sg cs]
    by (auto simp: resolveRange_def)
  then show ?case using Seam listMembers_live [of v l sn sg] by (auto intro: ancestor.intros)
qed

lemma resolveRange_nonempty: "resolveRange lo hi sg = Inr cs \<Longrightarrow> cs \<noteq> []"
proof -
  have "rangeWalk lo hi p sg = Inr cs \<Longrightarrow> cs \<noteq> []" for p
    by (induction lo hi p sg arbitrary: cs rule: rangeWalk.induct) (auto split: if_splits)
  then show "resolveRange lo hi sg = Inr cs \<Longrightarrow> cs \<noteq> []" by (simp add: resolveRange_def)
qed

lemma resolveSelf_members:
  assumes "listMembers v l = Inr (sn, sg)" "resolveSelf t sn sg = Inr ms"
  shows "ms \<noteq> []" "m \<in> set ms \<Longrightarrow> liveIn v l m"
  using resolveSelf_sound [OF assms(2)] listMembers_kinds [OF assms(1)] listMembers_live [OF assms(1)]
  by (auto simp: chainOk_def)

text \<open>How a chain divides at the seam: a run in other lineages, and a run in the lineage's own.\<close>

definition splitsAt :: "view \<Rightarrow> string \<Rightarrow> chainMember list \<Rightarrow> chainMember list \<Rightarrow> bool" where
  "splitsAt v l ps cs \<longleftrightarrow>
     cs \<noteq> [] \<and> (\<forall>m \<in> set cs. liveIn v l m) \<and> (\<forall>m \<in> set ps. \<exists>a. a \<noteq> l \<and> ancestor v l a \<and> liveIn v a m) \<and>
     (ps \<noteq> [] \<longrightarrow> (\<exists>b. lineageBase v l = Inr (Some b) \<and> cmMax (last ps) = bpTXID b \<and>
        ((\<forall>b'. lineageBase v (bpLineage b) = Inr (Some b') \<longrightarrow> bpTXID b' < bpTXID b) \<longrightarrow> liveIn v (bpLineage b) (last ps))))"

lemma resolves_splits:
  assumes "resolves v l t seen ms" "l \<in> set seen" "\<And>b. lineageBase v l = Inr (Some b) \<Longrightarrow> bpTXID b < t"
  shows "\<exists>ps cs. ms = ps @ cs \<and> splitsAt v l ps cs"
  using assms
proof (induction rule: resolves.induct)
  case (Self l sn sg t ms seen)
  then show ?case
    using resolveSelf_members [OF Self(2,3)] by (intro exI [of _ "[]"] exI [of _ ms]) (auto simp: splitsAt_def)
next
  case (Below l b seen t ms)
  then show ?case using leD by blast
next
  case (Own l b seen t sn sg ms)
  then show ?case
    using resolveSelf_members [OF Own(4,5)] by (intro exI [of _ "[]"] exI [of _ ms]) (auto simp: splitsAt_def)
next
  case (Seam l b seen t sn sg e ps cs)
  have "set cs \<subseteq> set sn \<union> set sg"
    using Seam listMembers_kinds [of v l sn sg] rangeWalk_sound [of "bpTXID b" t "bpTXID b" sg cs]
    by (auto simp: resolveRange_def)
  then have own: "\<forall>m \<in> set cs. liveIn v l m" using listMembers_live [OF Seam(4)] by blast
  have other: "\<exists>a. a \<noteq> l \<and> ancestor v l a \<and> liveIn v a m" if mem: "m \<in> set ps" for m
  proof -
    obtain a where a: "a = bpLineage b \<or> a \<notin> set (bpLineage b # seen)" "ancestor v (bpLineage b) a" "liveIn v a m"
      using resolves_members_seen [OF Seam(7) mem] by blast
    then have "a \<noteq> l" using Seam(2) Seam.prems(1) by auto
    then show ?thesis using a(2,3) ancestor.Hop [OF Seam(1)] by blast
  qed
  have "liveIn v (bpLineage b) (last ps)"
    if low: "\<forall>b'. lineageBase v (bpLineage b) = Inr (Some b') \<longrightarrow> bpTXID b' < bpTXID b"
  proof -
    obtain ps' cs' where "ps = ps' @ cs'" "splitsAt v (bpLineage b) ps' cs'" using Seam.IH low by auto
    then show ?thesis by (auto simp: splitsAt_def)
  qed
  then have "splitsAt v l ps cs"
    using own other resolveRange_nonempty [OF Seam(8)] Seam(1,10) by (auto simp: splitsAt_def)
  then show ?case by blast
qed

lemma live_prefix:
  assumes "liveIn v a m"
  shows "ParseMemberKey (cmKey m) = Some m" "hasPrefix (cmKey m) (LineagePrefix a)"
  using liveIn_member [OF assms] by (simp_all add: membersOf_iff)

lemma prefix_lineage: "lineage_ok l \<Longrightarrow> hasPrefix k (LineagePrefix l) \<Longrightarrow> lineageOfDataKey k = Some l"
  by (auto simp: hasPrefix_iff)

lemma ancestor_ok: "ancestor v l a \<Longrightarrow> basesOk v \<Longrightarrow> lineage_ok l \<Longrightarrow> lineage_ok a"
  by (induction rule: ancestor.induct) (auto simp: basesOk_def)

lemma foreign_prefix:
  assumes "a \<noteq> l" "ancestor v l a" "liveIn v a m" "basesOk v" "lineage_ok l"
  shows "\<not> hasPrefix (cmKey m) (LineagePrefix l)"
  using prefix_lineage [OF assms(5)] prefix_lineage [OF ancestor_ok [OF assms(2,4,5)] live_prefix(2) [OF assms(3)]] assms(1)
  by auto

lemma cacheScan_foreign:
  assumes "\<forall>m \<in> set ps. ParseMemberKey (cmKey m) = Some m \<and> \<not> hasPrefix (cmKey m) own"
  shows "cacheScan own i (map cmKey ps @ keys) None acc = cacheScan own (i + length ps) keys None (acc @ ps)"
  using assms by (induction ps arbitrary: i acc) auto

lemma cacheScan_own:
  assumes "\<forall>m \<in> set cs. ParseMemberKey (cmKey m) = Some m \<and> hasPrefix (cmKey m) own"
  shows "cacheScan own i (map cmKey cs) (Some s) acc = Some (acc @ cs, Some s)"
  using assms by (induction cs arbitrary: i acc) auto

lemma cacheScan_split:
  assumes "\<forall>m \<in> set ps. ParseMemberKey (cmKey m) = Some m \<and> \<not> hasPrefix (cmKey m) own"
    "\<forall>m \<in> set cs. ParseMemberKey (cmKey m) = Some m \<and> hasPrefix (cmKey m) own" "cs \<noteq> []"
  shows "cacheScan own 0 (map cmKey (ps @ cs)) None [] = Some (ps @ cs, Some (length ps))"
proof (cases cs)
  case (Cons c cs')
  then show ?thesis
    using cacheScan_foreign [OF assms(1), of 0 "map cmKey cs" "[]"] cacheScan_own [of cs' own _ "length ps" "ps @ [c]"] assms(2)
    by simp
qed (use assms in simp)

text \<open>The ref and the record of a head whose chain the store resolved.\<close>

definition recordsHead :: "sumRecord \<Rightarrow> ref \<Rightarrow> view \<Rightarrow> chainMember list \<Rightarrow> bool" where
  "recordsHead rec r v ms \<longleftrightarrow>
     srHash rec \<noteq> [] \<and> atHead rec r \<and> srChain rec = map cmKey ms \<and> rHeadEpoch r = cmEpoch (last ms) \<and>
     lineageBase v (rLineage r) = Inr (rBase r) \<and>
     (\<forall>b. rBase r = Some b \<longrightarrow> bpTXID b < rHeadTXID r \<and>
        (\<forall>b'. lineageBase v (bpLineage b) = Inr (Some b') \<longrightarrow> bpTXID b' < bpTXID b))"

lemma seamOk_split:
  assumes "splitsAt v (rLineage r) ps cs" "ps \<noteq> []" "recordsHead rec r v (ps @ cs)" "chainOk t (ps @ cs)"
  shows "seamOk r (srChain rec) (ps @ cs) (length ps)"
proof -
  obtain b where b: "rBase r = Some b" "cmMax (last ps) = bpTXID b" "liveIn v (bpLineage b) (last ps)"
    using assms(1,2,3) by (auto simp: splitsAt_def recordsHead_def)
  obtain c cs' where cs: "cs = c # cs'" using assms(1) by (cases cs) (auto simp: splitsAt_def)
  obtain p ps' where ps: "ps = p # ps'" using assms(2) by (cases ps) auto
  have "\<not> cmSnapshot c \<and> cmMin c = cmMax (last ps) + 1"
    using assms(4) unfolding cs ps by (cases "ps' = []") (auto simp: chainOk_def contiguousFrom_append)
  moreover have "(ps @ cs) ! (length ps - 1) = last ps" "map cmKey (ps @ cs) ! (length ps - 1) = cmKey (last ps)"
    using assms(2) by (simp_all add: nth_append last_conv_nth)
  ultimately show ?thesis
    using b live_prefix(2) [OF b(3)] assms(3) cs by (auto simp: seamOk_def recordsHead_def nth_append)
qed

lemma cachedChain_complete:
  assumes "Chain v (rLineage r) (rHeadTXID r) = Inr ms" "recordsHead rec r v ms" "basesOk v" "lineage_ok (rLineage r)"
  shows "cachedChain (Some rec) r = Some ms"
proof -
  let ?own = "LineagePrefix (rLineage r)"
  have res: "resolves v (rLineage r) (rHeadTXID r) [rLineage r] ms" using assms(1) by (simp add: Chain_iff)
  obtain ps cs where ms: "ms = ps @ cs" "splitsAt v (rLineage r) ps cs"
    using resolves_splits [OF res] assms(2) by (auto simp: recordsHead_def)
  have ok: "chainOk (rHeadTXID r) ms" by (rule resolves_sound [OF res])
  have "\<forall>m \<in> set ps. ParseMemberKey (cmKey m) = Some m \<and> \<not> hasPrefix (cmKey m) ?own"
    using ms(2) foreign_prefix [OF _ _ _ assms(3,4)] live_prefix(1) unfolding splitsAt_def by blast
  moreover have "\<forall>m \<in> set cs. ParseMemberKey (cmKey m) = Some m \<and> hasPrefix (cmKey m) ?own" "cs \<noteq> []"
    using ms(2) live_prefix by (auto simp: splitsAt_def)
  ultimately have scan: "cacheScan ?own 0 (srChain rec) None [] = Some (ms, Some (length ps))"
    using cacheScan_split assms(2) ms(1) by (simp add: recordsHead_def)
  have seam: "ps = [] \<or> seamOk r (srChain rec) ms (length ps)"
    using seamOk_split [OF ms(2)] assms(2) ok ms(1) by auto
  have "ms \<noteq> []" "cmSnapshot (hd ms)" "cmMax (last ms) = rHeadTXID r" "linked (hd ms) (tl ms)"
    using ok by (auto simp: chainOk_def linked_contiguous split: list.splits)
  then show ?thesis using scan seam assms(2) by (simp add: cachedChain_def recordsHead_def readSidecar_def)
qed

section \<open>Properties\<close>

text \<open>A chain taken from the checkout's sidecar is well formed: it names the head's lineage, epoch and
  transaction, its members are the recorded keys, a snapshot followed by segments without a hole, ending
  at the head under the head's epoch.  A damaged or stale record is never used.\<close>

theorem cachedChain_wellformed:
  assumes "cachedChain file r = Some ms"
  shows "chainOk (rHeadTXID r) ms \<and> cmEpoch (last ms) = rHeadEpoch r \<and>
    (\<exists>rec. file = Some rec \<and> atHead rec r \<and> map cmKey ms = srChain rec)"
  using cachedChain_sound [OF assms] by blast

definition sampleRecord :: sumRecord where
  "sampleRecord =
     \<lparr>srHash = ''5f'', srLineage = ''l2'', srEpoch = 3, srTXID = 3, srPostApply = 77, srChainID = [],
      srSize = 8192, srModTimeNS = 10, srChangeCounter = 4, srStampedNS = 20, srShadow = True,
      srChain = [cmKey snap1, cmKey seg2, cmKey seg3]\<rparr>"

theorem cachedChain_wellformed_witness: "chainOk 3 [snap1, seg2, seg3]"
proof -
  have "cachedChain (Some sampleRecord) sampleRef = Some [snap1, seg2, seg3]" by code_simp
  moreover have "rHeadTXID sampleRef = 3" by (simp add: sampleRef_def)
  ultimately show ?thesis using cachedChain_wellformed by metis
qed



end
