(* ===== verification/Checkout.thy ===== *)
theory Checkout
  imports Stream_Sums Head_Chain Lease
begin

text \<open>
  The checkout's sidecar, \<^verbatim>\<open>internal/ops/sidecar.go\<close>, and the branch states of \<^verbatim>\<open>internal/ops/status.go\<close> that
  are computed from it. A checkout is clean when its bytes have the recorded SHA-256, or, without hashing, when
  its size, modification time and change counter are the recorded ones and the modification time was already a
  safety margin old when they were recorded.

  What a function reads of the disk is its argument: a \<^verbatim>\<open>probe\<close> holds what one pass sees before, during and
  after it reads the file. Atomic replacements of the sidecar succeed. The SHA-256 of the file in hexadecimal is
  a parameter, \<^verbatim>\<open>sha\<close>.

  The property is that a clean verdict is right, whatever sequence of stamps wrote the sidecar, on a file
  system whose modification times lag by less than the margin.
\<close>

section \<open>Fingerprints\<close>

definition fingerprintSafetyMargin :: int where "fingerprintSafetyMargin = 1000000000"

record fingerprint =
  fpSize :: int
  fpMtimeNS :: int
  fpChangeCounter :: u32
  fpWalMode :: bool

text \<open>A file is its bytes and its modification time; \<^verbatim>\<open>None\<close> is one that cannot be read.\<close>

type_synonym diskFile = "bytes \<times> int"

definition stampFingerprint :: "diskFile option \<Rightarrow> fingerprint option" where
  "stampFingerprint f =
     (case f of
        None \<Rightarrow> None
      | Some (b, mtime) \<Rightarrow>
          Some (if length b \<ge> 28
                then \<lparr>fpSize = int (length b), fpMtimeNS = mtime,
                      fpChangeCounter = of_nat (be (take 4 (drop 24 b))), fpWalMode = (b ! 18 = 2 \<and> b ! 19 = 2)\<rparr>
                else \<lparr>fpSize = int (length b), fpMtimeNS = mtime, fpChangeCounter = 0, fpWalMode = False\<rparr>))"

definition fingerprintMatches :: "sumRecord \<Rightarrow> fingerprint \<Rightarrow> bool" where
  "fingerprintMatches rec fp =
     (if fpSize fp \<noteq> srSize rec \<or> fpMtimeNS fp \<noteq> srModTimeNS rec then False
      else if \<not> fpWalMode fp \<and> fpChangeCounter fp \<noteq> srChangeCounter rec then False
      else srModTimeNS rec < srStampedNS rec - fingerprintSafetyMargin)"

section \<open>Stamps\<close>

text \<open>The identity a stamp records: lineage, epoch and transaction.\<close>

type_synonym ident = "string \<times> u64 \<times> u64"

text \<open>A fingerprint with the time it was taken at, or \<^verbatim>\<open>None\<close> where the source passes \<^verbatim>\<open>ok\<close> false.\<close>

definition stampSumWithFingerprint ::
  "string \<Rightarrow> ident \<Rightarrow> u64 \<Rightarrow> string \<Rightarrow> (fingerprint \<times> int) option \<Rightarrow> bool \<Rightarrow> key list \<Rightarrow> sumRecord" where
  "stampSumWithFingerprint hash i post chainID fp shadow chain =
     (let rec = \<lparr>srHash = hash, srLineage = fst i, srEpoch = fst (snd i), srTXID = snd (snd i), srPostApply = post,
                 srChainID = chainID, srSize = 0, srModTimeNS = 0, srChangeCounter = 0, srStampedNS = 0,
                 srShadow = shadow, srChain = chain\<rparr>
      in case fp of
           None \<Rightarrow> rec
         | Some (f, stampedNS) \<Rightarrow>
             rec\<lparr>srSize := fpSize f, srModTimeNS := fpMtimeNS f, srChangeCounter := fpChangeCounter f, srStampedNS := stampedNS\<rparr>)"

definition StampSumHashOnly :: "string \<Rightarrow> ident \<Rightarrow> u64 \<Rightarrow> string \<Rightarrow> sumRecord" where
  "StampSumHashOnly hash i post chainID = stampSumWithFingerprint hash i post chainID None False []"

definition StampSum :: "diskFile option \<Rightarrow> int \<Rightarrow> string \<Rightarrow> ident \<Rightarrow> u64 \<Rightarrow> string \<Rightarrow> err + sumRecord" where
  "StampSum f statNS hash i post chainID =
     (case stampFingerprint f of
        None \<Rightarrow> Inl (plain_err ''stat'')
      | Some fp \<Rightarrow> Inr (stampSumWithFingerprint hash i post chainID (Some (fp, statNS)) False []))"

text \<open>
  One pass over the file: the clock before the first stat, the file at that stat, what the pass read, the size
  of the write-ahead log, and the file at the last stat.
\<close>

record probe =
  pbNow :: int
  pbBefore :: "diskFile option"
  pbRead :: "bytes option"
  pbWal :: nat
  pbAfter :: "diskFile option"

definition fileSum :: "(bytes \<Rightarrow> string) \<Rightarrow> bytes option \<Rightarrow> err + string" where
  "fileSum sha r = (case r of None \<Rightarrow> Inl (plain_err ''read'') | Some b \<Rightarrow> Inr (sha b))"

definition fileSums :: "(bytes \<Rightarrow> string) \<Rightarrow> ltxLib \<Rightarrow> nat \<Rightarrow> bytes option \<Rightarrow> err + string \<times> u64 \<times> bool" where
  "fileSums sha lib bsz r =
     (case r of
        None \<Rightarrow> Inl (plain_err ''read'')
      | Some b \<Rightarrow>
          (case StreamChecksum lib bsz b of
             Inl e \<Rightarrow> if errors_is e ErrNotWholeDatabase then Inr (sha b, 0, False) else Inl e
           | Inr live \<Rightarrow> Inr (sha b, live, True)))"

text \<open>The fingerprint of a pass, when the two ends of it agree.\<close>

definition sandwich :: "probe \<Rightarrow> (fingerprint \<times> int) option" where
  "sandwich p =
     (case (stampFingerprint (pbBefore p), stampFingerprint (pbAfter p)) of
        (Some a, Some b) \<Rightarrow> if a = b then Some (b, pbNow p) else None
      | _ \<Rightarrow> None)"

definition sandwichedSum :: "(bytes \<Rightarrow> string) \<Rightarrow> probe \<Rightarrow> err + string \<times> (fingerprint \<times> int) option" where
  "sandwichedSum sha p =
     (case fileSum sha (pbRead p) of Inl e \<Rightarrow> Inl e | Inr sm \<Rightarrow> Inr (sm, sandwich p))"

definition sandwichedSums ::
  "(bytes \<Rightarrow> string) \<Rightarrow> ltxLib \<Rightarrow> nat \<Rightarrow> probe \<Rightarrow> err + string \<times> u64 \<times> bool \<times> (fingerprint \<times> int) option" where
  "sandwichedSums sha lib bsz p =
     (case fileSums sha lib bsz (pbRead p) of
        Inl e \<Rightarrow> Inl e
      | Inr (sm, live, known) \<Rightarrow> Inr (sm, live, known \<and> \<not> pbWal p > 0, sandwich p))"

definition writeSum :: "(bytes \<Rightarrow> string) \<Rightarrow> probe \<Rightarrow> ident \<Rightarrow> u64 \<Rightarrow> string \<Rightarrow> err + sumRecord" where
  "writeSum sha p i post chainID =
     (case sandwichedSum sha p of
        Inl e \<Rightarrow> Inl e
      | Inr (sm, fp) \<Rightarrow> Inr (stampSumWithFingerprint sm i post chainID fp False []))"

definition untrustedHash :: "u64 \<Rightarrow> string" where
  "untrustedHash txid = ''untrusted:'' @ fmtD txid"

text \<open>The head's checksum is \<^verbatim>\<open>None\<close> when it could not be established.\<close>

definition stampCheckpoint ::
  "(bytes \<Rightarrow> string) \<Rightarrow> ltxLib \<Rightarrow> nat \<Rightarrow> probe \<Rightarrow> ident \<Rightarrow> u64 option \<Rightarrow> key list \<Rightarrow> err + bool \<times> sumRecord" where
  "stampCheckpoint sha lib bsz p i headSum chain =
     (case sandwichedSums sha lib bsz p of
        Inl e \<Rightarrow> Inl e
      | Inr (sm, live, liveKnown, fp) \<Rightarrow>
          if fp \<noteq> None \<and> liveKnown \<and> headSum = Some live
          then Inr (True, stampSumWithFingerprint sm i live [] fp False chain)
          else Inr (False, StampSumHashOnly (untrustedHash (snd (snd i))) i 0 []))"

section \<open>Verdicts\<close>

text \<open>The verdict, the checksum it carries, and the sidecar the call leaves.\<close>

definition checkoutState ::
  "(bytes \<Rightarrow> string) \<Rightarrow> sumRecord option \<Rightarrow> ref \<Rightarrow> probe \<Rightarrow> string \<times> u64 \<times> sumRecord option" where
  "checkoutState sha file r p =
     (case readSidecar file of
        None \<Rightarrow> (''unknown'', 0, file)
      | Some rec \<Rightarrow>
          if \<not> atHead rec r then (''stale'', 0, file)
          else if (case stampFingerprint (pbBefore p) of None \<Rightarrow> False | Some fp \<Rightarrow> fingerprintMatches rec fp)
          then (''clean'', srPostApply rec, file)
          else (case fileSum sha (pbRead p) of
                  Inl _ \<Rightarrow> (''unknown'', 0, file)
                | Inr got \<Rightarrow>
                    if got \<noteq> srHash rec then (''modified'', 0, file)
                    else (''clean'', srPostApply rec,
                          Some (stampSumWithFingerprint got (rLineage r, rHeadEpoch r, rHeadTXID r) (srPostApply rec)
                            (srChainID rec) (sandwich p) (srShadow rec) (srChain rec)))))"

text \<open>\<^verbatim>\<open>quiesced\<close> is the outcome of folding the log: an error, and whether it says the database is busy.\<close>

definition BranchStateAt ::
  "(bytes \<Rightarrow> string) \<Rightarrow> ref \<Rightarrow> bool \<Rightarrow> sumRecord option \<Rightarrow> bool option \<Rightarrow> bytes option \<Rightarrow> int \<Rightarrow> string" where
  "BranchStateAt sha r checkedOut file quiesced content now =
     (if LeaseLive r now then ''active''
      else if \<not> checkedOut then ''idle''
      else case readSidecar file of
             None \<Rightarrow> ''idle''
           | Some rec \<Rightarrow>
               if srLineage rec \<noteq> rLineage r then ''detached''
               else if srEpoch rec \<noteq> rHeadEpoch r \<or> srTXID rec \<noteq> rHeadTXID r then ''idle''
               else (case quiesced of
                       Some busy \<Rightarrow> if busy then ''dirty'' else ''idle''
                     | None \<Rightarrow>
                         (case fileSum sha content of
                            Inl _ \<Rightarrow> ''idle''
                          | Inr got \<Rightarrow> if got \<noteq> srHash rec then ''dirty'' else ''idle'')))"

section \<open>The shadow\<close>

record checkout =
  coFile :: "bytes option"
  coWal :: nat
  coSidecar :: "sumRecord option"
  coShadow :: "bytes option"

definition setSidecarShadow :: "bool \<Rightarrow> sumRecord option \<Rightarrow> err + sumRecord option" where
  "setSidecarShadow on file =
     (case readSidecar file of
        None \<Rightarrow> if on then Inl (plain_err ''ops: no readable sidecar to record a shadow in'') else Inr file
      | Some rec \<Rightarrow> if srShadow rec = on then Inr file else Inr (Some (rec\<lparr>srShadow := on\<rparr>)))"

definition dropShadow :: "checkout \<Rightarrow> checkout" where
  "dropShadow co =
     (case setSidecarShadow False (coSidecar co) of
        Inl _ \<Rightarrow> co\<lparr>coShadow := None\<rparr>
      | Inr file \<Rightarrow> co\<lparr>coSidecar := file, coShadow := None\<rparr>)"

text \<open>\<^verbatim>\<open>clone\<close> is what the copy-on-write clone holds, \<^verbatim>\<open>None\<close> when it, its mode or its rename fails.\<close>

definition refreshShadow :: "bytes option \<Rightarrow> checkout \<Rightarrow> checkout" where
  "refreshShadow clone co =
     (case clone of
        None \<Rightarrow> dropShadow co
      | Some b \<Rightarrow>
          let co1 = co\<lparr>coShadow := Some b\<rparr>
          in case setSidecarShadow True (coSidecar co1) of
               Inl _ \<Rightarrow> dropShadow co1
             | Inr file \<Rightarrow> co1\<lparr>coSidecar := file\<rparr>)"

section \<open>A clean verdict is right\<close>

text \<open>
  The file over time. A file system \<^emph>\<open>settles\<close> when a change of content after time \<^verbatim>\<open>s\<close> leaves a modification
  time that is not more than the margin before \<^verbatim>\<open>s\<close>: the time of a write is recorded at least that precisely.
\<close>

type_synonym history = "int \<Rightarrow> diskFile"

definition settles :: "history \<Rightarrow> bool" where
  "settles h \<longleftrightarrow> (\<forall>s t. s \<le> t \<and> fst (h s) \<noteq> fst (h t) \<longrightarrow> s - fingerprintSafetyMargin \<le> snd (h t))"

text \<open>
  A pass between \<^verbatim>\<open>t1\<close> and \<^verbatim>\<open>t2\<close>. A read while the file changes may return anything; one while it does not
  returns the content.
\<close>

definition readsOver :: "history \<Rightarrow> int \<Rightarrow> int \<Rightarrow> bytes option \<Rightarrow> bool" where
  "readsOver h t1 t2 r \<longleftrightarrow> ((\<forall>t \<in> {t1..t2}. fst (h t) = fst (h t1)) \<longrightarrow> r \<in> {None, Some (fst (h t1))})"

definition observes :: "history \<Rightarrow> int \<Rightarrow> int \<Rightarrow> probe \<Rightarrow> bool" where
  "observes h t1 t2 p \<longleftrightarrow>
     pbNow p \<le> t1 \<and> t1 \<le> t2 \<and> pbBefore p \<in> {None, Some (h t1)} \<and> pbAfter p \<in> {None, Some (h t2)} \<and>
     readsOver h t1 t2 (pbRead p)"

text \<open>The sidecars a checkout can come to have by time \<^verbatim>\<open>t\<close>: every stamp, and every change of the shadow bit.\<close>

inductive stamped :: "(bytes \<Rightarrow> string) \<Rightarrow> ltxLib \<Rightarrow> nat \<Rightarrow> history \<Rightarrow> int \<Rightarrow> sumRecord option \<Rightarrow> bool"
  for sha lib bsz h where
  stamped_none: "stamped sha lib bsz h t None"
| stamped_write: "stamped sha lib bsz h t file \<Longrightarrow> t \<le> pbNow p \<Longrightarrow> observes h t1 t2 p \<Longrightarrow>
    writeSum sha p i post chainID = Inr rec \<Longrightarrow> stamped sha lib bsz h t2 (Some rec)"
| stamped_checkpoint: "stamped sha lib bsz h t file \<Longrightarrow> t \<le> pbNow p \<Longrightarrow> observes h t1 t2 p \<Longrightarrow>
    stampCheckpoint sha lib bsz p i headSum chain = Inr (trusted, rec) \<Longrightarrow> stamped sha lib bsz h t2 (Some rec)"
| stamped_state: "stamped sha lib bsz h t file \<Longrightarrow> t \<le> pbNow p \<Longrightarrow> observes h t1 t2 p \<Longrightarrow>
    checkoutState sha file r p = (verdict, post, file') \<Longrightarrow> stamped sha lib bsz h t2 file'"
| stamped_content: "stamped sha lib bsz h t file \<Longrightarrow> t \<le> statNS \<Longrightarrow> statNS \<le> t1 \<Longrightarrow> sha (fst (h statNS)) = hash \<Longrightarrow>
    StampSum (Some (h t1)) statNS hash i post chainID = Inr rec \<Longrightarrow> stamped sha lib bsz h t1 (Some rec)"
| stamped_hash: "stamped sha lib bsz h t file \<Longrightarrow> t \<le> t1 \<Longrightarrow>
    stamped sha lib bsz h t1 (Some (StampSumHashOnly hash i post chainID))"
| stamped_shadow: "stamped sha lib bsz h t file \<Longrightarrow> t \<le> t1 \<Longrightarrow>
    setSidecarShadow on file = Inr file' \<Longrightarrow> stamped sha lib bsz h t1 file'"

text \<open>What a record's fingerprint vouches for: the content at the instant before it was taken.\<close>

definition vouches :: "(bytes \<Rightarrow> string) \<Rightarrow> history \<Rightarrow> int \<Rightarrow> sumRecord \<Rightarrow> bool" where
  "vouches sha h t rec \<longleftrightarrow>
     (srModTimeNS rec < srStampedNS rec - fingerprintSafetyMargin \<longrightarrow>
        srStampedNS rec \<le> t \<and> sha (fst (h (srStampedNS rec))) = srHash rec)"

lemma settled_same:
  assumes "settles h" "snd (h t) < s - fingerprintSafetyMargin" "s \<le> u" "u \<le> t"
  shows "fst (h u) = fst (h t)"
proof (rule ccontr)
  assume "fst (h u) \<noteq> fst (h t)"
  then have "u - fingerprintSafetyMargin \<le> snd (h t)" using assms(1,4) unfolding settles_def by blast
  then show False using assms(2,3) by linarith
qed

lemma observes_read:
  assumes "observes h t1 t2 p" "pbRead p = Some b" "\<And>t. t1 \<le> t \<Longrightarrow> t \<le> t2 \<Longrightarrow> fst (h t) = fst (h t1)"
  shows "b = fst (h t1)"
proof -
  have const: "\<forall>t \<in> {t1..t2}. fst (h t) = fst (h t1)"
  proof
    fix t
    assume "t \<in> {t1..t2}"
    then show "fst (h t) = fst (h t1)" unfolding atLeastAtMost_iff by (elim conjE) (rule assms(3))
  qed
  have "readsOver h t1 t2 (Some b)" using assms(1) unfolding observes_def assms(2) by (elim conjE)
  then have "Some b \<in> {None, Some (fst (h t1))}" using const unfolding readsOver_def by (rule mp)
  then show ?thesis by simp
qed

lemma sandwich_Some: "sandwich p = Some (f, n) \<Longrightarrow> stampFingerprint (pbAfter p) = Some f \<and> n = pbNow p"
  by (auto simp: sandwich_def split: option.splits if_splits)

lemma observes_after: "observes h t1 t2 p \<Longrightarrow> pbAfter p \<noteq> None \<Longrightarrow> pbAfter p = Some (h t2)"
  unfolding observes_def by blast

lemma stampFingerprint_mtime: "stampFingerprint (Some f) = Some fp \<Longrightarrow> fpMtimeNS fp = snd f"
  by (cases f) (auto simp: stampFingerprint_def)

lemma stampFingerprint_None [simp]: "stampFingerprint None = None"
  by (simp add: stampFingerprint_def)

lemma stamp_fields [simp]:
  "srHash (stampSumWithFingerprint hash i post c fp sh ch) = hash"
  "srModTimeNS (stampSumWithFingerprint hash i post c fp sh ch) = (case fp of None \<Rightarrow> 0 | Some (f, _) \<Rightarrow> fpMtimeNS f)"
  "srStampedNS (stampSumWithFingerprint hash i post c fp sh ch) = (case fp of None \<Rightarrow> 0 | Some (_, n) \<Rightarrow> n)"
  by (simp_all add: stampSumWithFingerprint_def Let_def split: option.split prod.split)

lemma vouches_unstamped: "vouches sha h t (stampSumWithFingerprint hash i post c None sh ch)"
  by (simp add: vouches_def fingerprintSafetyMargin_def)

lemma vouches_sandwich:
  assumes "settles h" "observes h t1 t2 p" "pbRead p = Some b"
  shows "vouches sha h t2 (stampSumWithFingerprint (sha b) i post c (sandwich p) sh ch)"
proof (cases "sandwich p")
  case None
  then show ?thesis using vouches_unstamped by simp
next
  case (Some fp)
  obtain f where fp: "fp = (f, pbNow p)" and after: "stampFingerprint (pbAfter p) = Some f"
    using sandwich_Some [of p "fst fp" "snd fp"] Some by (cases fp) simp
  have "pbAfter p = Some (h t2)" by (rule observes_after [OF assms(2)]) (use after in \<open>cases "pbAfter p"; simp\<close>)
  then have m: "fpMtimeNS f = snd (h t2)" using after by (intro stampFingerprint_mtime) simp
  have ord: "pbNow p \<le> t1" "t1 \<le> t2" using assms(2) by (simp_all add: observes_def)
  have "sha (fst (h (pbNow p))) = sha b" if lt: "snd (h t2) < pbNow p - fingerprintSafetyMargin"
  proof -
    have same: "fst (h u) = fst (h t2)" if "pbNow p \<le> u" "u \<le> t2" for u
      by (rule settled_same [OF assms(1) lt that])
    have at1: "fst (h t1) = fst (h t2)" using ord by (intro same)
    have now: "fst (h (pbNow p)) = fst (h t2)" using ord by (intro same) simp_all
    have "b = fst (h t1)"
    proof (rule observes_read [OF assms(2,3)])
      fix t
      assume "t1 \<le> t" "t \<le> t2"
      then show "fst (h t) = fst (h t1)" unfolding at1 using ord by (intro same) simp_all
    qed
    then show ?thesis by (simp add: at1 now)
  qed
  then show ?thesis using ord by (simp add: vouches_def Some fp m)
qed

lemma vouches_later: "vouches sha h t rec \<Longrightarrow> t \<le> t' \<Longrightarrow> vouches sha h t' rec"
  unfolding vouches_def by (meson order_trans)

lemma readSidecar_Some: "readSidecar file = Some rec \<Longrightarrow> file = Some rec"
  by (simp add: readSidecar_def split: option.splits if_splits)

lemma writeSum_vouches:
  assumes "settles h" "observes h t1 t2 p" "writeSum sha p i post c = Inr rec"
  shows "vouches sha h t2 rec"
  using assms(3)
  by (auto simp: writeSum_def sandwichedSum_def fileSum_def split: option.splits intro!: vouches_sandwich [OF assms(1,2)])

lemma stampCheckpoint_vouches:
  assumes "settles h" "observes h t1 t2 p" "stampCheckpoint sha lib bsz p i headSum chain = Inr (trusted, rec)"
  shows "vouches sha h t2 rec"
proof (cases "pbRead p")
  case None
  then show ?thesis using assms(3) by (simp add: stampCheckpoint_def sandwichedSums_def fileSums_def)
next
  case (Some b)
  have "(\<exists>x. rec = stampSumWithFingerprint (sha b) i x [] (sandwich p) False chain) \<or>
      (\<exists>hash. rec = stampSumWithFingerprint hash i 0 [] None False [])"
    using assms(3) by (auto simp: stampCheckpoint_def sandwichedSums_def fileSums_def Some StampSumHashOnly_def
        split: sum.splits prod.splits if_splits)
  then show ?thesis by (elim disjE exE) (simp_all only: vouches_sandwich [OF assms(1,2) Some] vouches_unstamped)
qed

text \<open>The verdicts of \<^verbatim>\<open>checkoutState\<close>: the sidecar is kept, or the file was hashed and its record stamped again.\<close>

lemma checkoutState_cases:
  assumes "checkoutState sha file r p = (verdict, post, file')"
  obtains (kept) "file' = file" "verdict = ''clean'' \<Longrightarrow> \<exists>rec fp. readSidecar file = Some rec \<and> atHead rec r \<and>
      post = srPostApply rec \<and> stampFingerprint (pbBefore p) = Some fp \<and> fingerprintMatches rec fp"
  | (hashed) rec b where "readSidecar file = Some rec" "atHead rec r" "post = srPostApply rec" "pbRead p = Some b"
      "sha b = srHash rec" "file' = Some (stampSumWithFingerprint (sha b) (rLineage r, rHeadEpoch r, rHeadTXID r) post
        (srChainID rec) (sandwich p) (srShadow rec) (srChain rec))"
proof (cases "readSidecar file")
  case None
  then show ?thesis using assms by (intro kept) (auto simp: checkoutState_def)
next
  case (Some rec)
  show ?thesis
  proof (cases "pbRead p")
    case None
    then show ?thesis using assms Some
      by (intro kept) (auto simp: checkoutState_def fileSum_def split: if_splits option.splits)
  next
    case b: (Some b)
    show ?thesis
    proof (cases "atHead rec r \<and> \<not> (case stampFingerprint (pbBefore p) of None \<Rightarrow> False | Some fp \<Rightarrow> fingerprintMatches rec fp) \<and>
        sha b = srHash rec")
      case True
      then show ?thesis using assms Some b by (intro hashed [of rec b]) (auto simp: checkoutState_def fileSum_def)
    next
      case False
      then show ?thesis using assms Some b
        by (intro kept) (auto simp: checkoutState_def fileSum_def split: if_splits option.splits)
    qed
  qed
qed

lemma stamped_vouches:
  assumes "stamped sha lib bsz h t file" "settles h"
  shows "\<forall>rec. file = Some rec \<longrightarrow> vouches sha h t rec"
  using assms(1)
proof induction
  case (stamped_state t f p t1 t2 r verdict post f')
  have "t \<le> t2" using stamped_state.hyps(2,3) by (simp add: observes_def)
  from stamped_state.hyps(4) show ?case
  proof (cases rule: checkoutState_cases)
    case kept
    then show ?thesis using stamped_state.IH vouches_later \<open>t \<le> t2\<close> by auto
  next
    case (hashed rec b)
    show ?thesis unfolding hashed(6) using vouches_sandwich [OF assms(2) stamped_state.hyps(3) hashed(4)] by simp
  qed
next
  case (stamped_content t f statNS t1 hash i post chainID rec)
  then show ?case by (auto simp: StampSum_def vouches_def split: option.splits)
next
  case (stamped_shadow t f t1 on f')
  show ?case
  proof (intro allI impI)
    fix rec
    assume "f' = Some rec"
    then obtain old where "f = Some old" "rec = old \<or> rec = old\<lparr>srShadow := on\<rparr>"
      using stamped_shadow.hyps(3)
      by (auto simp: setSidecarShadow_def readSidecar_def split: option.splits if_splits)
    moreover then have "vouches sha h t1 old" using stamped_shadow vouches_later by blast
    ultimately show "vouches sha h t1 rec" by (auto simp: vouches_def)
  qed
qed (use assms(2) in \<open>auto intro: writeSum_vouches stampCheckpoint_vouches simp: vouches_unstamped StampSumHashOnly_def\<close>)

lemma checkoutState_clean:
  assumes "settles h" "stamped sha lib bsz h t file" "t \<le> pbNow p" "observes h t1 t2 p"
    and "checkoutState sha file r p = (''clean'', post, file')"
  shows "\<exists>rec. readSidecar file = Some rec \<and> atHead rec r \<and> post = srPostApply rec \<and>
    (sha (fst (h t1)) = srHash rec \<or> (\<exists>b. pbRead p = Some b \<and> sha b = srHash rec))"
  using assms(5)
proof (cases rule: checkoutState_cases)
  case kept
  then obtain rec fp where rec: "readSidecar file = Some rec" "atHead rec r" "post = srPostApply rec"
    and fp: "stampFingerprint (pbBefore p) = Some fp" "fingerprintMatches rec fp" by blast
  have "vouches sha h t rec" using stamped_vouches [OF assms(2,1)] readSidecar_Some [OF rec(1)] by simp
  moreover have old: "fpMtimeNS fp = srModTimeNS rec" "srModTimeNS rec < srStampedNS rec - fingerprintSafetyMargin"
    using fp(2) by (auto simp: fingerprintMatches_def split: if_splits)
  ultimately have v: "srStampedNS rec \<le> t" "sha (fst (h (srStampedNS rec))) = srHash rec" by (simp_all add: vouches_def)
  have ord: "pbNow p \<le> t1" "pbBefore p \<in> {None, Some (h t1)}" using assms(4) by (simp_all add: observes_def)
  have "pbBefore p = Some (h t1)" using ord(2) fp(1) by (cases "pbBefore p") simp_all
  then have "fpMtimeNS fp = snd (h t1)" using fp(1) by (intro stampFingerprint_mtime) simp
  then have "snd (h t1) < srStampedNS rec - fingerprintSafetyMargin" using old by simp
  then have "fst (h (srStampedNS rec)) = fst (h t1)"
    by (rule settled_same [OF assms(1)]) (use v(1) assms(3) ord(1) in linarith)+
  then show ?thesis using rec v(2) by auto
next
  case (hashed rec b)
  then show ?thesis by auto
qed

text \<open>C18: whatever stamps wrote the sidecar, on a file system that settles, a clean verdict of \<^verbatim>\<open>checkoutState\<close>
  means that the sidecar is at the branch's head, that the checksum returned is the recorded one, and that the
  recorded hash is the hash of the file: of its content at the first stat when the fingerprint decided, or of
  the bytes this call read.
\<close>

theorem checkout_clean_sound:
  assumes "settles h" "stamped sha lib bsz h t file" "t \<le> pbNow p" "observes h t1 t2 p"
    and "checkoutState sha file r p = (''clean'', post, file')"
  shows "\<exists>rec. readSidecar file = Some rec \<and> atHead rec r \<and> post = srPostApply rec \<and>
    (sha (fst (h t1)) = srHash rec \<or> (\<exists>b. pbRead p = Some b \<and> sha b = srHash rec))"
  by (rule checkoutState_clean [OF assms])

definition sampleSha :: "bytes \<Rightarrow> string" where
  "sampleSha b = ''h'' @ map (\<lambda>x. char_of (unat x)) b"

definition sampleFile :: diskFile where
  "sampleFile = (replicate 28 7, 1000)"

definition sampleProbe :: "int \<Rightarrow> bytes option \<Rightarrow> probe" where
  "sampleProbe now r = \<lparr>pbNow = now, pbBefore = Some sampleFile, pbRead = r, pbWal = 0, pbAfter = Some sampleFile\<rparr>"

definition sampleStamp :: sumRecord where
  "sampleStamp =
     stampSumWithFingerprint (sampleSha (fst sampleFile)) (rLineage sampleRef, rHeadEpoch sampleRef, rHeadTXID sampleRef) 77 []
       (sandwich (sampleProbe 2000000000 (Some (fst sampleFile)))) False []"

lemma sampleStamp_stamped: "stamped sampleSha sampleLib 65536 (\<lambda>_. sampleFile) 2000000001 (Some sampleStamp)"
proof -
  have ws: "writeSum sampleSha (sampleProbe 2000000000 (Some (fst sampleFile)))
      (rLineage sampleRef, rHeadEpoch sampleRef, rHeadTXID sampleRef) 77 [] = Inr sampleStamp"
    by (simp add: writeSum_def sandwichedSum_def fileSum_def sampleStamp_def sampleProbe_def)
  have o: "observes (\<lambda>_. sampleFile) 2000000001 2000000001 (sampleProbe 2000000000 (Some (fst sampleFile)))"
    by (simp add: observes_def readsOver_def sampleProbe_def)
  show ?thesis by (rule stamped_write [OF stamped_none [of _ _ _ _ 0] _ o ws]) (simp add: sampleProbe_def)
qed

theorem checkout_clean_sound_witness:
  "\<exists>rec. settles (\<lambda>_. sampleFile) \<and> stamped sampleSha sampleLib 65536 (\<lambda>_. sampleFile) 2000000001 (Some rec) \<and>
     observes (\<lambda>_. sampleFile) 3000000001 3000000002 (sampleProbe 3000000000 None) \<and>
     checkoutState sampleSha (Some rec) sampleRef (sampleProbe 3000000000 None) = (''clean'', 77, Some rec) \<and>
     sampleSha (fst sampleFile) = srHash rec"
proof (intro exI [of _ sampleStamp] conjI)
  have obs: "observes (\<lambda>_. sampleFile) n (n + 1) (sampleProbe (n - 1) r)" if "r \<in> {None, Some (fst sampleFile)}" for n r
    using that by (auto simp: observes_def readsOver_def sampleProbe_def)
  show st: "settles (\<lambda>_. sampleFile)" by (simp add: settles_def)
  show sd: "stamped sampleSha sampleLib 65536 (\<lambda>_. sampleFile) 2000000001 (Some sampleStamp)"
    by (rule sampleStamp_stamped)
  show ob: "observes (\<lambda>_. sampleFile) 3000000001 3000000002 (sampleProbe 3000000000 None)"
    using obs [of None 3000000001] by simp
  show ck: "checkoutState sampleSha (Some sampleStamp) sampleRef (sampleProbe 3000000000 None) = (''clean'', 77, Some sampleStamp)"
    by code_simp
  have "\<exists>rec. readSidecar (Some sampleStamp) = Some rec \<and> atHead rec sampleRef \<and> 77 = srPostApply rec \<and>
      (sampleSha (fst sampleFile) = srHash rec \<or> (\<exists>b. pbRead (sampleProbe 3000000000 None) = Some b \<and> sampleSha b = srHash rec))"
    using checkout_clean_sound [OF st sd _ ob ck] by (simp add: sampleProbe_def)
  then show "sampleSha (fst sampleFile) = srHash sampleStamp" using readSidecar_Some by (fastforce simp: sampleProbe_def)
qed

end
