(* ===== verification/Snapshots.thy ===== *)
theory Snapshots
  imports Page_Diff
begin

text \<open>
  Whole databases as objects, \<^verbatim>\<open>internal/ltxio/ltxio.go\<close>, and the reader of a chain,
  \<^verbatim>\<open>MaterializeChain\<close> of \<^verbatim>\<open>internal/ltxio/segment.go\<close>. Writing a snapshot's pages back into a file is
  the LTX library's \<^verbatim>\<open>DecodeDatabaseTo\<close>, an argument \<^verbatim>\<open>dec\<close>; what the reader relies on is named
  \<^verbatim>\<open>decodesDatabases\<close>. The file is written beside its destination and renamed over it, so an error leaves
  the destination as it was and only the content is modelled.

  The lemmas show that a snapshot reads back as the database it was taken of, and that one more segment on
  a chain is one more application.
\<close>

section \<open>Snapshots\<close>

record snapshot =
  snPageSize :: u32
  snCommit :: u32
  snMax :: u64
  snPages :: pages
  snPost :: u64

text \<open>The loop of \<^verbatim>\<open>EncodeSnapshot\<close> over the page numbers left: the pages encoded and the checksum.\<close>

fun encodeScan :: "ltxLib \<Rightarrow> bytes \<Rightarrow> u32 \<Rightarrow> u32 list \<Rightarrow> pages \<times> u64 \<Rightarrow> err + pages \<times> u64" where
  "encodeScan lib f ps [] st = Inr st"
| "encodeScan lib f ps (pgno # pgnos) (pages, chksum) =
     (if pgno = lxLockPgno lib ps then encodeScan lib f ps pgnos (pages, chksum)
      else case readAt f (pageOff ps pgno) (unat ps) of
             None \<Rightarrow> Inl (plain_err ''ltxio: read page'')
           | Some buf \<Rightarrow>
               encodeScan lib f ps pgnos
                 (pages @ [(pgno, buf)], lxFlag lib OR (chksum XOR lxChecksumPage lib pgno buf)))"

definition EncodeSnapshot :: "ltxLib \<Rightarrow> nat \<Rightarrow> bytes \<Rightarrow> u64 \<Rightarrow> err + snapshot \<times> u64" where
  "EncodeSnapshot lib wal f txid =
     (if wal > 0 then Inl (plain_err ''ltxio: non-empty WAL; checkpoint(TRUNCATE) first'')
      else case readDBHeader f of
             Inl e \<Rightarrow> Inl e
           | Inr (ps, nPages) \<Rightarrow>
               (case encodeScan lib f ps (pgnosTo nPages) ([], lxFlag lib) of
                  Inl e \<Rightarrow> Inl e
                | Inr (pages, chksum) \<Rightarrow>
                    Inr (\<lparr>snPageSize = ps, snCommit = nPages, snMax = txid, snPages = pages, snPost = chksum\<rparr>, chksum)))"

text \<open>An object of a lineage.\<close>

datatype payload = SnapshotOf snapshot | SegmentOf segment

section \<open>Reading a chain\<close>

type_synonym decoder = "snapshot \<Rightarrow> err + bytes"

definition decodeSnapshot :: "decoder \<Rightarrow> snapshot \<Rightarrow> err + bytes" where
  "decodeSnapshot dec sn =
     (case dec sn of Inl e \<Rightarrow> Inl (wrap_err ''ltxio: decode snapshot'' e) | Inr f \<Rightarrow> Inr f)"

definition Materialize :: "decoder \<Rightarrow> snapshot \<Rightarrow> err + u64 \<times> bytes" where
  "Materialize dec sn = (case decodeSnapshot dec sn of Inl e \<Rightarrow> Inl e | Inr f \<Rightarrow> Inr (snMax sn, f))"

definition MaterializeChain :: "ltxLib \<Rightarrow> decoder \<Rightarrow> snapshot \<Rightarrow> segment list \<Rightarrow> err + (u64 \<times> u64) \<times> bytes" where
  "MaterializeChain lib dec sn sgs =
     (case decodeSnapshot dec sn of
        Inl e \<Rightarrow> Inl e
      | Inr f \<Rightarrow> applySegments lib (snPageSize sn) (snMax sn) (snCommit sn) (snPost sn) sgs f)"

section \<open>What a snapshot holds\<close>

text \<open>A database file as SQLite keeps it: the header states the page size and the number of pages there are.\<close>

definition sqliteFile :: "u32 \<Rightarrow> u32 \<Rightarrow> bytes \<Rightarrow> bool" where
  "sqliteFile ps n f \<longleftrightarrow> readDBHeader f = Inr (ps, n) \<and> wholeDb ps n f"

definition sameData :: "ltxLib \<Rightarrow> u32 \<Rightarrow> u32 \<Rightarrow> bytes \<Rightarrow> bytes \<Rightarrow> bool" where
  "sameData lib ps n f g \<longleftrightarrow> wholeDb ps n f \<and> wholeDb ps n g \<and> (\<forall>p \<in> dataPages lib ps n. pageOf ps f p = pageOf ps g p)"

lemma sameData_sum: "sameData lib ps n f g \<Longrightarrow> dbSum lib ps f n = dbSum lib ps g n"
  unfolding sameData_def dbSum_def using pageSum_cong [OF refl] by metis

lemma sameData_eq:
  assumes "sameData lib ps n f g" "n < lxLockPgno lib ps"
  shows "f = g"
proof (rule whole_eq)
  show "wholeDb ps n f" "wholeDb ps n g" using assms(1) by (simp_all add: sameData_def)
  show "pageOf ps f p = pageOf ps g p" if "1 \<le> p" "p \<le> n" for p
    using assms that by (auto simp: sameData_def dataPages_def)
qed

definition snapshotOf :: "ltxLib \<Rightarrow> u32 \<Rightarrow> u32 \<Rightarrow> u64 \<Rightarrow> bytes \<Rightarrow> snapshot" where
  "snapshotOf lib ps n txid f =
     \<lparr>snPageSize = ps, snCommit = n, snMax = txid,
      snPages = map (\<lambda>p. (p, pageOf ps f p)) (filter (\<lambda>p. p \<noteq> lxLockPgno lib ps) (pgnosTo n)), snPost = dbSum lib ps f n\<rparr>"

lemma encodeScan_eq:
  assumes "\<forall>p \<in> set ns. inFile ps f p"
  shows "encodeScan lib f ps ns (pages, chk) =
    (case checksumScan lib f ps ns chk of
       Inl e \<Rightarrow> Inl e
     | Inr c \<Rightarrow> Inr (pages @ map (\<lambda>p. (p, pageOf ps f p)) (filter (\<lambda>p. p \<noteq> lxLockPgno lib ps) ns), c))"
  using assms by (induction ns arbitrary: pages chk) (auto simp: readAt_page split: sum.split)

lemma EncodeSnapshot_ok:
  assumes "sqliteFile ps n f"
  shows "EncodeSnapshot lib 0 f txid = Inr (snapshotOf lib ps n txid f, dbSum lib ps f n)"
proof -
  have w: "wholeDb ps n f" "readDBHeader f = Inr (ps, n)" using assms by (simp_all add: sqliteFile_def)
  have "\<forall>p \<in> set (pgnosTo n). inFile ps f p" using wholeDb_inFile [OF w(1)] by (simp add: pgnosTo_set)
  moreover have "checksumScan lib f ps (pgnosTo n) (lxFlag lib) = Inr (dbSum lib ps f n)"
    using checksumPages_eq [of f n ps lib] w(1) by (simp add: wholeDb_def checksumPages_def)
  ultimately show ?thesis using w(2) by (simp add: EncodeSnapshot_def encodeScan_eq snapshotOf_def)
qed

text \<open>The library writes back the pages of a snapshot that has every page of its size but the lock page.\<close>

definition decodesDatabases :: "ltxLib \<Rightarrow> decoder \<Rightarrow> bool" where
  "decodesDatabases lib dec \<longleftrightarrow>
     (\<forall>sn. pagesWf (snPageSize sn) (snPages sn) \<and> fst ` set (snPages sn) = dataPages lib (snPageSize sn) (snCommit sn) \<longrightarrow>
        (\<exists>f. dec sn = Inr f \<and> wholeDb (snPageSize sn) (snCommit sn) f \<and>
             (\<forall>(p, b) \<in> set (snPages sn). pageOf (snPageSize sn) f p = b)))"

lemma snapshotOf_decodes:
  assumes "decodesDatabases lib dec" "wholeDb ps n f"
  obtains f' where "dec (snapshotOf lib ps n txid f) = Inr f'" "sameData lib ps n f' f"
proof -
  let ?sn = "snapshotOf lib ps n txid f"
  let ?ns = "filter (\<lambda>p. p \<noteq> lxLockPgno lib ps) (pgnosTo n)"
  have len: "length (pageOf ps f p) = unat ps" if "p \<in> set ?ns" for p
    using that wholeDb_inFile [OF assms(2), of p] pageOf_length by (simp add: pgnosTo_set)
  have keys: "map fst (snPages ?sn) = ?ns" by (simp add: snapshotOf_def comp_def)
  have set: "set ?ns = dataPages lib ps n" by (auto simp: pgnosTo_set dataPages_def)
  have fs: "fst ` set (snPages ?sn) = dataPages lib ps n" unfolding set [symmetric] keys [symmetric] by simp
  have "pagesWf ps (snPages ?sn)"
    unfolding pagesWf_def keys using assms(2) len pgnosTo_distinct by (auto simp: wholeDb_def snapshotOf_def pgnosTo_set)
  then obtain f' where f': "dec ?sn = Inr f'" "wholeDb ps n f'" "\<forall>(p, b) \<in> set (snPages ?sn). pageOf ps f' p = b"
    using assms(1) [unfolded decodesDatabases_def, rule_format, of ?sn] fs by (auto simp: snapshotOf_def)
  have "pageOf ps f' p = pageOf ps f p" if "p \<in> dataPages lib ps n" for p
    using f'(3) that unfolding set [symmetric] by (auto simp: snapshotOf_def)
  then show thesis using that f'(1,2) assms(2) by (simp add: sameData_def)
qed

section \<open>One more member\<close>

definition chainCommit :: "snapshot \<Rightarrow> segment list \<Rightarrow> u32" where
  "chainCommit sn sgs = (if sgs = [] then snCommit sn else sgCommit (last sgs))"

lemma applyLoop_append:
  "applyLoop lib ps prevMax prev running (sgs @ [sg]) f =
     (case applyLoop lib ps prevMax prev running sgs f of
        Inl e \<Rightarrow> Inl e
      | Inr ((t, chk), f1) \<Rightarrow>
          (case applySegment lib ps t (if sgs = [] then prev else sgCommit (last sgs)) chk sg f1 of
             Inl e \<Rightarrow> Inl e
           | Inr f2 \<Rightarrow> Inr ((sgMax sg, sgPost sg), f2)))"
  by (induction sgs arbitrary: prevMax prev running f) (auto split: sum.splits)

lemma MaterializeChain_loop:
  assumes "snMax sn \<noteq> 0"
  shows "MaterializeChain lib dec sn sgs =
    (case decodeSnapshot dec sn of
       Inl e \<Rightarrow> Inl e
     | Inr f \<Rightarrow> applyLoop lib (snPageSize sn) (snMax sn) (snCommit sn) (snPost sn) sgs f)"
  using assms by (cases sgs) (auto simp: MaterializeChain_def applySegments_def split: sum.split)

lemma MaterializeChain_snoc:
  assumes "snMax sn \<noteq> 0"
  shows "MaterializeChain lib dec sn (sgs @ [sg]) =
    (case MaterializeChain lib dec sn sgs of
       Inl e \<Rightarrow> Inl e
     | Inr ((t, chk), f) \<Rightarrow>
         (case applySegment lib (snPageSize sn) t (chainCommit sn sgs) chk sg f of
            Inl e \<Rightarrow> Inl e
          | Inr f' \<Rightarrow> Inr ((sgMax sg, sgPost sg), f')))"
  unfolding MaterializeChain_loop [OF assms] applyLoop_append chainCommit_def
  by (auto split: sum.split)

lemma MaterializeChain_snapshot:
  assumes "decodesDatabases lib dec" "wholeDb ps n f"
  obtains f' where "MaterializeChain lib dec (snapshotOf lib ps n txid f) [] = Inr ((txid, dbSum lib ps f n), f')"
    "sameData lib ps n f' f"
proof (rule snapshotOf_decodes [OF assms])
  fix f' assume "dec (snapshotOf lib ps n txid f) = Inr f'" "sameData lib ps n f' f"
  then show thesis
    using that by (simp add: MaterializeChain_def decodeSnapshot_def applySegments_def snapshotOf_def)
qed

end
