(* ===== verification/Checkpoint.thy ===== *)
theory Checkpoint
  imports Checkout Snapshots
begin

text \<open>
  The at-rest checkpoint: \<^verbatim>\<open>CheckpointWith\<close> and \<^verbatim>\<open>checkpointLeased\<close> of \<^verbatim>\<open>internal/ops/ops.go\<close> with the
  lease protocol of \<^verbatim>\<open>internal/ops/checkpoint_lease.go\<close> and the planning of
  \<^verbatim>\<open>internal/ops/checkpoint_delta.go\<close>. A checkpoint takes the branch's lease under a holder of its own, which
  raises the epoch, uploads one object under that epoch, and commits with one write of the ref that moves the
  head, records the checkpoint and releases the lease.

  The store is the world of \<^verbatim>\<open>Backend\<close>: anything may happen between two calls, and a write may land
  though it reports a failure. Messages are shortened; what an error unwraps to is kept.
\<close>

section \<open>Guards\<close>

definition DefaultLeaseTTL :: int where "DefaultLeaseTTL = 30 * 1000000000"

record ckOptions =
  ckForce :: bool
  ckSnapshot :: bool
  ckLeaseTTL :: int

definition leaseTTL :: "ckOptions \<Rightarrow> int" where
  "leaseTTL opts = (if ckLeaseTTL opts > 0 then ckLeaseTTL opts else DefaultLeaseTTL)"

definition isCheckpointHolder :: "string \<Rightarrow> bool" where
  "isCheckpointHolder holder = hasPrefix holder ''checkpoint:''"

text \<open>\<^verbatim>\<open>refuseIfHeld\<close> for the verb, which only tells a checkpoint from a repoint.\<close>

definition refuseIfHeld :: "int \<Rightarrow> ref \<Rightarrow> bool \<Rightarrow> bool \<Rightarrow> err option" where
  "refuseIfHeld now r checkpointing force =
     (if rDeleting r then Some (plain_err ''ops: branch is being destroyed'')
      else if rReaping r then Some (plain_err ''ops: branch is being reaped (its TTL expired)'')
      else if \<not> LeaseLive r now then None
      else if isCheckpointHolder (rLeaseHolder r) then
        (if checkpointing then Some (Err ''ops: held by a checkpoint; --force cannot take over a live lease'' [ErrLeaseHeld])
         else if force then None
         else Some (Err ''ops: held by a checkpoint; retry, or pass --force'' [ErrLeaseHeld]))
      else if checkpointing then Some (Err ''ops: held; --force cannot take over a live lease'' [ErrLeaseHeld])
      else if force then None
      else Some (Err ''ops: held; close the session first, or pass --force'' [ErrLeaseHeld]))"

definition MaxMetaKeys :: nat where "MaxMetaKeys = 32"
definition MaxMetaKeyLen :: nat where "MaxMetaKeyLen = 64"
definition MaxMetaValueLen :: nat where "MaxMetaValueLen = 512"

fun metaEntries :: "string byname \<Rightarrow> err option" where
  "metaEntries [] = None"
| "metaEntries ((k, v) # rest) =
     (if length k > MaxMetaKeyLen then Some (plain_err ''ops: metadata key exceeds the byte limit'')
      else if length v > MaxMetaValueLen then Some (plain_err ''ops: metadata value exceeds the byte limit'')
      else metaEntries rest)"

definition ValidateMeta :: "string byname \<Rightarrow> err option" where
  "ValidateMeta m =
     (if length m > MaxMetaKeys then Some (plain_err ''ops: metadata exceeds the key limit'') else metaEntries m)"

definition checkpointPreconditions :: "string \<Rightarrow> bool \<Rightarrow> sumRecord option \<Rightarrow> ref \<Rightarrow> ckOptions \<Rightarrow> err option" where
  "checkpointPreconditions name exists file r opts =
     (if map_of (rCheckpoints r) name \<noteq> None then Some (plain_err ''ops: checkpoint already exists'')
      else if \<not> exists then Some (plain_err ''ops: no checkout'')
      else case readSidecar file of
             None \<Rightarrow> None
           | Some rec \<Rightarrow>
               if srLineage rec \<noteq> rLineage r \<and> \<not> ckForce opts
               then Some (Err ''ops: checkout is detached'' [ErrDetachedCheckout])
               else None)"

section \<open>Taking the lease\<close>

definition zeroTime :: int where "zeroTime = - 62135596800 * 1000000000"

definition leaseOn :: "string \<Rightarrow> string \<Rightarrow> string \<Rightarrow> ref \<Rightarrow> lease" where
  "leaseOn db branch holder r =
     \<lparr>lDB = db, lBranch = branch, lHolder = holder, lEpoch = rEpoch r,
      lExpiry = (case parseExpiry (rLeaseExpiry r) of None \<Rightarrow> zeroTime | Some t \<Rightarrow> t)\<rparr>"

text \<open>The lease when the ref names our holder, and the ref read.\<close>

definition SettleAcquire :: "string \<Rightarrow> string \<Rightarrow> string \<Rightarrow> world \<Rightarrow> (err + lease option \<times> ref) \<times> world" where
  "SettleAcquire db branch holder w =
     (case GetRef db branch w of
        (Inl e, w1) \<Rightarrow> (Inl (wrap_err ''ops: re-reading the ref after a failed lease acquire'' e), w1)
      | (Inr (r, _), w1) \<Rightarrow>
          (Inr (if rLeaseHolder r = holder then Some (leaseOn db branch holder r) else None, r), w1))"

text \<open>The tries left of \<^verbatim>\<open>releaseCheckpointLease\<close>. A failure is logged and nothing else.\<close>

fun releaseTries :: "nat \<Rightarrow> int \<Rightarrow> lease \<Rightarrow> world \<Rightarrow> world" where
  "releaseTries 0 now l w = w"
| "releaseTries (Suc n) now l w =
     (let (g, w1) = GetRef (lDB l) (lBranch l) w;
          claimed = (case g of Inr (r, _) \<Rightarrow> rDeleting r \<or> rReaping r | Inl _ \<Rightarrow> False)
      in if claimed then w1
         else (case ReleaseLease now l w1 of
                 (None, w2) \<Rightarrow> w2
               | (Some e, w2) \<Rightarrow> if errors_is e ErrCAS then releaseTries n now l w2 else w2))"

definition releaseCheckpointLease :: "int \<Rightarrow> lease \<Rightarrow> world \<Rightarrow> world" where
  "releaseCheckpointLease now l w = releaseTries 3 now l w"

text \<open>\<^verbatim>\<open>acquireCheckpointLease\<close> with the retries left; the ref an acquire reads is the one its check sees.\<close>

definition acquireRead :: "string \<Rightarrow> string \<Rightarrow> string \<Rightarrow> world \<Rightarrow> ref option" where
  "acquireRead db branch holder w =
     (if holder = [] then None
      else case fst (GetRef db branch w) of Inl _ \<Rightarrow> None | Inr (r, _) \<Rightarrow> Some r)"

fun acquireFrom ::
  "nat \<Rightarrow> bool \<Rightarrow> string \<Rightarrow> string \<Rightarrow> string \<Rightarrow> int \<Rightarrow> int \<Rightarrow> (ref \<Rightarrow> err option) \<Rightarrow> world \<Rightarrow> (err + lease \<times> ref) \<times> world" where
  "acquireFrom left first db branch holder ttl now check w =
     (case AcquireLeaseRefIf db branch holder ttl now check w of
        (Inr (l, r, _), w1) \<Rightarrow> (Inr (l, r), w1)
      | (Inl aerr, w1) \<Rightarrow>
          (case acquireRead db branch holder w of
             None \<Rightarrow> (Inl (if first then aerr else wrap_err ''ops: checkpoint'' aerr), w1)
           | Some read \<Rightarrow>
               (case check read of
                  Some e \<Rightarrow>
                    (Inl e, if rLeaseHolder read = holder
                            then releaseCheckpointLease now (leaseOn db branch holder read) w1 else w1)
                | None \<Rightarrow>
                    (case SettleAcquire db branch holder w1 of
                       (Inl _, w2) \<Rightarrow> (Inl (wrap_err ''ops: checkpoint'' aerr), w2)
                     | (Inr (Some l, cur), w2) \<Rightarrow>
                         (case check cur of
                            Some e \<Rightarrow> (Inl e, releaseCheckpointLease now l w2)
                          | None \<Rightarrow> (Inr (l, cur), w2))
                     | (Inr (None, cur), w2) \<Rightarrow>
                         (case refuseIfHeld now cur True False of
                            Some e \<Rightarrow> (Inl e, w2)
                          | None \<Rightarrow>
                              if errors_is aerr ErrLeaseHeld \<and> (rEpoch cur \<noteq> rEpoch read \<or> rLineage cur \<noteq> rLineage read)
                              then (Inl (Err ''ops: written by another while this checkpoint took its lease'' [ErrLeaseHeld]), w2)
                              else (case left of
                                      Suc n \<Rightarrow>
                                        if errors_is aerr ErrLeaseHeld
                                        then acquireFrom n False db branch holder ttl now check w2
                                        else (Inl (wrap_err ''ops: checkpoint'' aerr), w2)
                                    | 0 \<Rightarrow> (Inl (wrap_err ''ops: checkpoint'' aerr), w2)))))))"

declare acquireFrom.simps [simp del]

definition checkpointAcquireAttempts :: nat where "checkpointAcquireAttempts = 2"

definition acquireCheckpointLease ::
  "string \<Rightarrow> string \<Rightarrow> string \<Rightarrow> int \<Rightarrow> int \<Rightarrow> (ref \<Rightarrow> err option) \<Rightarrow> world \<Rightarrow> (err + lease \<times> ref) \<times> world" where
  "acquireCheckpointLease db branch holder ttl now check w =
     acquireFrom (checkpointAcquireAttempts - 1) True db branch holder ttl now check w"

section \<open>The head write\<close>

record ckCommit =
  ccDB :: string
  ccBranch :: string
  ccName :: string
  ccMeta :: "string byname"
  ccKind :: string
  ccLease :: lease
  ccLineage :: string
  ccTXID :: u64

definition ckOurs :: "ckCommit \<Rightarrow> ref \<Rightarrow> bool" where
  "ckOurs c cur \<longleftrightarrow>
     rLeaseHolder cur = lHolder (ccLease c) \<and> rEpoch cur = lEpoch (ccLease c) \<and>
     rLineage cur = ccLineage c \<and> rHeadTXID cur = ccTXID c - 1"

definition ckPremise :: "ckCommit \<Rightarrow> ref \<Rightarrow> bool" where
  "ckPremise c cur \<longleftrightarrow> ckOurs c cur \<and> \<not> rDeleting cur \<and> \<not> rReaping cur"

definition headUnderOurEpoch :: "ckCommit \<Rightarrow> ref \<Rightarrow> bool" where
  "headUnderOurEpoch c cur \<longleftrightarrow>
     rLineage cur = ccLineage c \<and> rHeadEpoch cur = lEpoch (ccLease c) \<and> rHeadTXID cur \<ge> ccTXID c"

definition ckAdvance :: "ckCommit \<Rightarrow> string \<Rightarrow> int \<Rightarrow> ref \<Rightarrow> ref" where
  "ckAdvance c stamp now cur =
     refTouch now
       ((SetCheckpoint (ccName c)
           \<lparr>cpTXID = ccTXID c, cpEpoch = lEpoch (ccLease c), cpCreatedAt = stamp, cpMeta = ccMeta c, cpKind = ccKind c\<rparr>
           (cur\<lparr>rHeadTXID := ccTXID c, rHeadEpoch := lEpoch (ccLease c)\<rparr>))
        \<lparr>rLeaseHolder := [], rLeaseExpiry := NoStamp\<rparr>)"

definition lostTo :: "ckCommit \<Rightarrow> ref \<Rightarrow> err" where
  "lostTo c cur =
     (if rDeleting cur then Err ''ops: checkpoint did not commit'' [ErrDeleting]
      else if rReaping cur then Err ''ops: checkpoint did not commit'' [ErrReaping]
      else if rLeaseHolder cur = lHolder (ccLease c) \<and> rEpoch cur = lEpoch (ccLease c)
      then Err ''ops: checkpoint did not commit: the branch moved under its own lease'' [ErrLeaseLost]
      else Err ''ops: checkpoint did not commit; retry'' [ErrLeaseLost])"

definition claimedAfterWrite :: "ref \<Rightarrow> err \<Rightarrow> err" where
  "claimedAfterWrite cur writeErr =
     Err ''ops: checkpoint may have committed: the branch is being removed''
       (err_sentinels writeErr @ [if rDeleting cur then ErrDeleting else ErrReaping])"

definition unconfirmed :: "err \<Rightarrow> err" where
  "unconfirmed e =
     (if errors_is e ErrNotFound then wrap_err ''ops: branch was destroyed while the checkpoint ran'' e
      else wrap_err ''ops: checkpoint: reading the ref to commit'' e)"

definition mayHaveCommitted :: "err \<Rightarrow> err" where
  "mayHaveCommitted e = wrap_err ''ops: checkpoint may have committed'' e"

definition ckLanded :: "ckCommit \<Rightarrow> ref \<Rightarrow> bool" where
  "ckLanded c cur \<longleftrightarrow>
     (case map_of (rCheckpoints cur) (ccName c) of
        None \<Rightarrow> False
      | Some cp \<Rightarrow> rLineage cur = ccLineage c \<and> cpTXID cp = ccTXID c \<and> cpEpoch cp = lEpoch (ccLease c))"

definition ckUnreferenced :: "ckCommit \<Rightarrow> ref \<Rightarrow> bool" where
  "ckUnreferenced c cur \<longleftrightarrow> rLineage cur = ccLineage c \<and> rHeadTXID cur < ccTXID c"

definition checkpointCommitAttempts :: nat where "checkpointCommitAttempts = 3"

text \<open>What \<^verbatim>\<open>commitCheckpoint\<close> makes of the ref once the premise fails, and whether the object may be deleted.\<close>

definition premiseFailed :: "ckCommit \<Rightarrow> bool \<Rightarrow> err \<Rightarrow> ref \<Rightarrow> bool \<times> err" where
  "premiseFailed c sent lastErr cur =
     (if \<not> sent \<and> headUnderOurEpoch c cur then (False, lostTo c cur)
      else if \<not> sent then (True, lostTo c cur)
      else if ckOurs c cur then (False, claimedAfterWrite cur lastErr)
      else if ckUnreferenced c cur then (True, lostTo c cur)
      else (False, mayHaveCommitted lastErr))"

text \<open>The loop of \<^verbatim>\<open>commitCheckpoint\<close> with the head writes left, whether one was sent, the last failure and the
  last one without a verdict. An error comes with whether the object may be deleted.\<close>

fun commitFrom ::
  "nat \<Rightarrow> bool \<Rightarrow> err \<Rightarrow> err option \<Rightarrow> ckCommit \<Rightarrow> string \<Rightarrow> int \<Rightarrow> world \<Rightarrow> ((bool \<times> err) + ref) \<times> world" where
  "commitFrom left sent lastErr unsettled c stamp now w =
     (case GetRef (ccDB c) (ccBranch c) w of
        (Inl gerr, w1) \<Rightarrow>
          if \<not> sent \<or> errors_is gerr ErrNotFound then (Inl (\<not> sent, unconfirmed gerr), w1)
          else (Inl (False, mayHaveCommitted gerr), w1)
      | (Inr (cur, etag), w1) \<Rightarrow>
          if sent \<and> ckLanded c cur then (Inr cur, w1)
          else if \<not> ckPremise c cur then (Inl (premiseFailed c sent lastErr cur), w1)
          else (case left of
                  0 \<Rightarrow>
                    (case unsettled of
                       Some e \<Rightarrow> (Inl (False, mayHaveCommitted e), w1)
                     | None \<Rightarrow> (Inl (False, wrap_err ''ops: checkpoint: the head write lost its compare-and-swaps'' lastErr), w1))
                | Suc n \<Rightarrow>
                    let nx = ckAdvance c stamp now cur in
                    (case PutRef (ccDB c) (ccBranch c) nx etag w1 of
                       (Inr _, w2) \<Rightarrow> (Inr nx, w2)
                     | (Inl perr, w2) \<Rightarrow>
                         commitFrom n True perr (if errors_is perr ErrCAS then unsettled else Some perr) c stamp now w2)))"

declare commitFrom.simps [simp del]

definition commitCheckpoint :: "ckCommit \<Rightarrow> string \<Rightarrow> int \<Rightarrow> world \<Rightarrow> ((bool \<times> err) + ref) \<times> world" where
  "commitCheckpoint c stamp now w = commitFrom checkpointCommitAttempts False (plain_err '''') None c stamp now w"

section \<open>The object\<close>

definition bestEffortDelete :: "key \<Rightarrow> world \<Rightarrow> world" where
  "bestEffortDelete key w = snd (bDelete key w)"

definition putCheckpointObject :: "key \<Rightarrow> content \<Rightarrow> world \<Rightarrow> (err + etag) \<times> world" where
  "putCheckpointObject key data w =
     (case bPutIf key data NoETag w of
        (Inr etag, w1) \<Rightarrow> (Inr etag, w1)
      | (Inl e, w1) \<Rightarrow>
          if \<not> errors_is e ErrCAS
          then (Inl (wrap_err ''ops: upload checkpoint object'' e), bestEffortDelete key w1)
          else (case bGet key w1 of
                  (Inr (got, gotEtag), w2) \<Rightarrow>
                    if got = data then (Inr gotEtag, w2)
                    else (Inl (wrap_err ''ops: checkpoint object already exists under its own epoch'' e), w2)
                | (Inl gerr, w2) \<Rightarrow>
                    if errors_is gerr ErrNotFound
                    then (Inl (wrap_err ''ops: the key was reported taken, but nothing is there; retry'' e), w2)
                    else (Inl (Err ''ops: reading the taken key back failed; retry'' (err_sentinels e @ err_sentinels gerr)), w2)))"

section \<open>What to write\<close>

definition ForkShareMaxDepth :: nat where "ForkShareMaxDepth = 16"

definition segmentShadow :: "checkout \<Rightarrow> ref \<Rightarrow> ckOptions \<Rightarrow> (sumRecord \<times> bytes) option" where
  "segmentShadow co r opts =
     (if ckSnapshot opts \<or> rHeadTXID r + 1 \<le> 1 then None
      else case readSidecar (coSidecar co) of
             None \<Rightarrow> None
           | Some rec \<Rightarrow>
               if \<not> srShadow rec \<or> srPostApply rec = 0 \<or> srLineage rec \<noteq> rLineage r \<or>
                  srEpoch rec \<noteq> rHeadEpoch r \<or> srTXID rec \<noteq> rHeadTXID r
               then None
               else (case coShadow co of None \<Rightarrow> None | Some sh \<Rightarrow> Some (rec, sh)))"

definition planSegment :: "ltxLib \<Rightarrow> int \<Rightarrow> checkout \<Rightarrow> ref \<Rightarrow> chainMember list \<Rightarrow> ckOptions \<Rightarrow> (delta \<times> u64) option" where
  "planSegment lib every co r members opts =
     (case segmentShadow co r opts of
        None \<Rightarrow> None
      | Some (rec, sh) \<Rightarrow>
          let bound = (if every \<le> 0 then ForkShareMaxDepth else nat every) in
          if members = [] \<or> length members \<ge> bound then None
          else (case coFile co of
                  None \<Rightarrow> None
                | Some cur \<Rightarrow>
                    (case diffPages lib cur sh (srPostApply rec) of
                       Inl _ \<Rightarrow> None
                     | Inr d \<Rightarrow>
                         if dlCommit d \<ge> 64 \<and> 2 * fst (dlChanged d) \<ge> snd (dlChanged d) then None
                         else Some (d, srPostApply rec))))"

section \<open>A checkpoint\<close>

text \<open>
  What a call meets outside the store: its own holder, the clock at the acquire and at the writes that end it, the
  checkpoint's time stamp, the workspace's snapshot interval, the checkout as the call finds it and as quiescing it
  leaves it, what the renewals found before and after the upload, the pass that stamps the sidecar, the clone for
  the shadow, and the coding of objects.
\<close>

record ckEnv =
  ceHolder :: string
  ceNow :: int
  ceLater :: int
  ceStamp :: string
  ceEvery :: int
  ceFound :: checkout
  ceQuiesced :: "err + checkout"
  ceLostBefore :: "err option"
  ceLostAfter :: "err option"
  ceProbe :: probe
  ceClone :: "bytes option"
  ceLib :: ltxLib
  ceSha :: "bytes \<Rightarrow> string"
  ceBlock :: nat
  ceEncode :: "payload \<Rightarrow> content"
  ceTrailer :: "content \<Rightarrow> err + u64"

record ckResult =
  crTXID :: u64
  crKind :: string
  crPages :: nat

definition retryHint :: "err \<Rightarrow> err" where
  "retryHint e =
     (if errors_is e ErrCheckoutReplaced then wrap_err ''ops: lost a race with another operation (retry)'' e
      else if errors_is e ErrQuiesceBusy then wrap_err ''close connections and retry'' e
      else e)"

definition renewLost :: "err \<Rightarrow> err" where
  "renewLost e = wrap_err ''ops: checkpoint did not commit: its lease ended while it ran'' e"

definition objectChecksum :: "(content \<Rightarrow> err + u64) \<Rightarrow> err + content \<times> etag \<Rightarrow> u64 option" where
  "objectChecksum trailer got =
     (case got of
        Inl _ \<Rightarrow> None
      | Inr (data, _) \<Rightarrow> (case trailer data of Inl _ \<Rightarrow> None | Inr sm \<Rightarrow> Some sm))"

definition verifyOwnObject :: "(content \<Rightarrow> err + u64) \<Rightarrow> key \<Rightarrow> etag \<Rightarrow> u64 \<Rightarrow> world \<Rightarrow> u64 option \<times> world" where
  "verifyOwnObject trailer key ownEtag checksum w =
     (case storeHead key w of
        (Inl _, w1) \<Rightarrow> (Some checksum, w1)
      | (Inr etag, w1) \<Rightarrow>
          if ownEtag \<noteq> NoETag \<and> etag = ownEtag then (Some checksum, w1)
          else (case bGet key w1 of (got, w2) \<Rightarrow> (objectChecksum trailer got, w2)))"

text \<open>The object a checkpoint writes: what it holds, its key and checksum, the result, and the new head's chain.\<close>

definition planObject ::
  "ckEnv \<Rightarrow> checkout \<Rightarrow> lease \<Rightarrow> ref \<Rightarrow> ckOptions \<Rightarrow> chainMember list \<Rightarrow>
     err + payload \<times> key \<times> u64 \<times> ckResult \<times> key list" where
  "planObject env co l r opts members =
     (let txid = rHeadTXID r + 1 in
      case planSegment (ceLib env) (ceEvery env) co r members opts of
        Some (d, pre) \<Rightarrow>
          (case EncodeSegment (ceLib env) (dlPageSize d) (dlCommit d) txid txid pre (dlPost d) (dlPages d) of
             Inl e \<Rightarrow> Inl e
           | Inr sg \<Rightarrow>
               let key = SegmentKey (rLineage r) (lEpoch l) txid txid
               in Inr (SegmentOf sg, key, dlPost d, \<lparr>crTXID = txid, crKind = ''segment'', crPages = length (dlPages d)\<rparr>,
                       chainKeys members key))
      | None \<Rightarrow>
          (case coFile co of
             None \<Rightarrow> Inl (plain_err ''ltxio: read db header'')
           | Some f \<Rightarrow>
               (case EncodeSnapshot (ceLib env) (coWal co) f txid of
                  Inl e \<Rightarrow> Inl e
                | Inr (sn, checksum) \<Rightarrow>
                    let key = SnapshotKey (rLineage r) (lEpoch l) txid
                    in Inr (SnapshotOf sn, key, checksum, \<lparr>crTXID = txid, crKind = ''snapshot'', crPages = 0\<rparr>, [key]))))"

definition headMembers :: "checkout \<Rightarrow> ref \<Rightarrow> ckOptions \<Rightarrow> world \<Rightarrow> chainMember list \<times> world" where
  "headMembers co r opts w =
     (case segmentShadow co r opts of
        None \<Rightarrow> ([], w)
      | Some _ \<Rightarrow>
          (case headChain (coSidecar co) r w of (Inl _, w1) \<Rightarrow> ([], w1) | (Inr ms, w1) \<Rightarrow> (ms, w1)))"

text \<open>From the committed head on: the object is verified, the sidecar stamped, and the shadow renewed or dropped.\<close>

definition checkpointStamped ::
  "ckEnv \<Rightarrow> checkout \<Rightarrow> lease \<Rightarrow> ref \<Rightarrow> key \<Rightarrow> etag \<Rightarrow> u64 \<Rightarrow> ckResult \<Rightarrow> key list \<Rightarrow> world \<Rightarrow>
     (err + ckResult) \<times> checkout \<times> world" where
  "checkpointStamped env co l r key own checksum res chain w =
     (case verifyOwnObject (ceTrailer env) key own checksum w of (headSum, w1) \<Rightarrow>
        (case stampCheckpoint (ceSha env) (ceLib env) (ceBlock env) (ceProbe env) (rLineage r, lEpoch l, crTXID res) headSum chain of
           Inl e \<Rightarrow> (Inl (wrap_err ''ops: checkpoint committed, but the checkout fingerprint could not be refreshed'' e), co, w1)
         | Inr (trusted, rec) \<Rightarrow>
             let co1 = co\<lparr>coSidecar := Some rec\<rparr>
             in (Inr res, if trusted then refreshShadow (ceClone env) co1 else dropShadow co1, w1)))"

definition checkpointLeased ::
  "ckEnv \<Rightarrow> string \<Rightarrow> string \<Rightarrow> string \<Rightarrow> string byname \<Rightarrow> ckOptions \<Rightarrow> lease \<Rightarrow> ref \<Rightarrow> world \<Rightarrow>
     (err + ckResult) \<times> checkout \<times> world" where
  "checkpointLeased env db branch name meta opts l r w =
     (case ceQuiesced env of
        Inl e \<Rightarrow> (Inl (retryHint e), ceFound env, w)
      | Inr co \<Rightarrow>
          (case headMembers co r opts w of (members, w1) \<Rightarrow>
             (case planObject env co l r opts members of
                Inl e \<Rightarrow> (Inl e, co, w1)
              | Inr (pl, key, checksum, res, chain) \<Rightarrow>
                  let c = \<lparr>ccDB = db, ccBranch = branch, ccName = name, ccMeta = meta, ccKind = crKind res, ccLease = l,
                           ccLineage = rLineage r, ccTXID = crTXID res\<rparr>
                  in (case ceLostBefore env of
                        Some e \<Rightarrow> (Inl (renewLost e), co, w1)
                      | None \<Rightarrow>
                          (case putCheckpointObject key (ceEncode env pl) w1 of
                             (Inl e, w2) \<Rightarrow> (Inl e, co, w2)
                           | (Inr own, w2) \<Rightarrow>
                               (case ceLostAfter env of
                                  Some e \<Rightarrow> (Inl (renewLost e), co, bestEffortDelete key w2)
                                | None \<Rightarrow>
                                    (case commitCheckpoint c (ceStamp env) (ceLater env) w2 of
                                       (Inl (deletable, e), w3) \<Rightarrow> (Inl e, co, if deletable then bestEffortDelete key w3 else w3)
                                     | (Inr _, w3) \<Rightarrow> checkpointStamped env co l r key own checksum res chain w3)))))))"

text \<open>What a checkpoint refuses on the ref its acquire reads; its own holder is no lease to refuse.\<close>

definition checkpointCheck :: "ckEnv \<Rightarrow> string \<Rightarrow> ckOptions \<Rightarrow> ref \<Rightarrow> err option" where
  "checkpointCheck env name opts r =
     (let guard = (if rLeaseHolder r = ceHolder env then r\<lparr>rLeaseHolder := [], rLeaseExpiry := NoStamp\<rparr> else r) in
      case refuseIfHeld (ceNow env) guard True False of
        Some e \<Rightarrow> Some e
      | None \<Rightarrow> checkpointPreconditions name (coFile (ceFound env) \<noteq> None) (coSidecar (ceFound env)) r opts)"

definition CheckpointWith ::
  "ckEnv \<Rightarrow> string \<Rightarrow> string \<Rightarrow> string \<Rightarrow> string byname \<Rightarrow> ckOptions \<Rightarrow> world \<Rightarrow>
     (err + ckResult) \<times> checkout \<times> world" where
  "CheckpointWith env db branch name meta opts w =
     (case ValidateName db of Some e \<Rightarrow> (Inl e, ceFound env, w) | None \<Rightarrow>
     (case ValidateName branch of Some e \<Rightarrow> (Inl e, ceFound env, w) | None \<Rightarrow>
     (case ValidateName name of Some e \<Rightarrow> (Inl e, ceFound env, w) | None \<Rightarrow>
     (case ValidateMeta meta of Some e \<Rightarrow> (Inl e, ceFound env, w) | None \<Rightarrow>
     (case acquireCheckpointLease db branch (ceHolder env) (leaseTTL opts) (ceNow env) (checkpointCheck env name opts) w of
        (Inl e, w1) \<Rightarrow> (Inl e, ceFound env, w1)
      | (Inr (l, r), w1) \<Rightarrow>
          (case checkpointLeased env db branch name meta opts l r w1 of
             (Inl e, co, w2) \<Rightarrow> (Inl e, co, releaseCheckpointLease (ceLater env) l w2)
           | (Inr res, co, w2) \<Rightarrow> (Inr res, co, w2)))))))"

end
