(* ===== verification/Checkpoint_Safety.thy ===== *)
theory Checkpoint_Safety
  imports Checkpoint
begin

text \<open>
  The head write of the at-rest checkpoint, in a store where other writers act between any two calls and a
  write may land though it reports a failure. A commit that succeeds moved the head of a ref that still was
  the one the checkpoint planned from, in one write, or found its own earlier write landed. An object the
  checkpoint may delete is one no head write of its own made the ref name.
\<close>

section \<open>What other writers keep\<close>

definition closed :: "(objs \<Rightarrow> bool) \<Rightarrow> world \<Rightarrow> bool" where
  "closed P w \<longleftrightarrow> list_all (\<lambda>e. case e of Event f _ \<Rightarrow> \<forall>s. P s \<longrightarrow> P (f s)) (wScript w)"

lemma tick_closed:
  assumes "closed P w"
  shows "closed P (snd (tick w))" "P (wObjs w) \<Longrightarrow> P (wObjs (snd (tick w)))"
  using assms by (auto simp: closed_def tick.simps split: list.split event.split)

lemma closed_objs [simp]: "closed P (w\<lparr>wObjs := s\<rparr>) = closed P w"
  by (simp add: closed_def)

lemma describeMissingRef_world: "snd (describeMissingRef db b w) = snd (tick w)"
  using bList_world [of "''refs/'' @ db @ ''/''" w]
  by (auto simp: describeMissingRef_def split: prod.splits sum.splits list.splits)

lemma GetRef_world: "snd (GetRef db b w) = snd (tick w) \<or> snd (GetRef db b w) = snd (tick (snd (tick w)))"
proof -
  obtain g w1 where g: "bGet (RefKey db b) w = (g, w1)" "w1 = snd (tick w)"
    using bGet_world [of "RefKey db b" w] by (cases "bGet (RefKey db b) w") simp
  then show ?thesis
    using describeMissingRef_world [of db b w1]
    by (auto simp: GetRef_def split: prod.splits sum.splits)
qed

lemma GetRef_closed:
  assumes "closed P w"
  shows "closed P (snd (GetRef db b w))" "P (wObjs w) \<Longrightarrow> P (wObjs (snd (GetRef db b w)))"
  using GetRef_world [of db b w] tick_closed [OF assms] tick_closed [OF tick_closed(1) [OF assms]] by auto

text \<open>A ref write that reports a failure did nothing, or landed.\<close>

definition refWritten :: "string \<Rightarrow> string \<Rightarrow> ref \<Rightarrow> world \<Rightarrow> world" where
  "refWritten db b r w = w\<lparr>wObjs := mput (RefKey db b) (marshalRef (stampRef r)) (wObjs w)\<rparr>"

lemma PutRef_Inl:
  assumes "PutRef db b r t w = (Inl e, w')"
  shows "w' \<in> {w, snd (tick w), refWritten db b r (snd (tick w))}"
  using assms
  by (auto simp: PutRef_def refWritten_def bPutIf_def localPutIf_def split: option.splits prod.splits fault.splits sum.splits if_splits)

lemma PutRef_Inl_closed:
  assumes "PutRef db b r t w = (Inl e, w')" "closed P w"
  shows "closed P w'"
  using PutRef_Inl [OF assms(1)] tick_closed(1) [OF assms(2)] assms(2) by (auto simp: refWritten_def)

section \<open>The ref and the object\<close>

text \<open>The ref does not name the checkpoint's object, by its head or by its checkpoint.\<close>

definition unnamed :: "ckCommit \<Rightarrow> objs \<Rightarrow> bool" where
  "unnamed c s \<longleftrightarrow>
     (case refAt s (ccDB c) (ccBranch c) of
        None \<Rightarrow> True
      | Some r \<Rightarrow> \<not> headUnderOurEpoch c r \<and> \<not> ckLanded c r)"

text \<open>Where the ref is on the checkpoint's lineage, its head has reached the checkpoint's transaction.\<close>

definition passed :: "ckCommit \<Rightarrow> objs \<Rightarrow> bool" where
  "passed c s \<longleftrightarrow>
     (case refAt s (ccDB c) (ccBranch c) of
        None \<Rightarrow> True
      | Some r \<Rightarrow> rLineage r = ccLineage c \<longrightarrow> rHeadTXID r \<ge> ccTXID c)"

lemma decodeCheckpoints_head:
  "decodeCheckpoints e ws r = Inr r' \<Longrightarrow> rLineage r' = rLineage r \<and> rHeadTXID r' = rHeadTXID r"
proof (induction ws arbitrary: r)
  case (Cons x ws)
  then show ?case by (cases x; cases "snd x") (auto simp: SetCheckpoint_def split: if_splits)
qed simp

lemma decodeRef_head:
  assumes "decodeRef (marshalRef r) = Inr r'"
  shows "rLineage r' = rLineage r" "rHeadTXID r' = rHeadTXID r"
  using assms decodeCheckpoints_head
  by (auto simp: decodeRef_def marshalRef_def decodeWire_def Let_def split: if_splits sum.splits)

lemma ckAdvance_fields [simp]:
  "rHeadTXID (ckAdvance c st now cur) = ccTXID c" "rHeadEpoch (ckAdvance c st now cur) = lEpoch (ccLease c)"
  "rLineage (ckAdvance c st now cur) = rLineage cur" "rEpoch (ckAdvance c st now cur) = rEpoch cur"
  "rLeaseHolder (ckAdvance c st now cur) = []" "rLeaseExpiry (ckAdvance c st now cur) = NoStamp"
  by (simp_all add: ckAdvance_def SetCheckpoint_def refTouch_def)

lemma ckAdvance_passed: "passed c (mput (RefKey (ccDB c) (ccBranch c)) (marshalRef (stampRef (ckAdvance c st now cur))) s)"
proof -
  have "rHeadTXID r = ccTXID c" if "decodeRef (marshalRef (stampRef (ckAdvance c st now cur))) = Inr r" for r
    using decodeRef_head(2) [OF that] by (simp add: stampRef_def Let_def)
  then show ?thesis by (simp add: passed_def refAt_def split: sum.split)
qed

section \<open>What may be deleted\<close>

lemma commitFrom_deletable:
  assumes "commitFrom left sent lastErr unsettled c st now w = (Inl (True, e), w')"
    and "closed (unnamed c) w" "closed (passed c) w" "unnamed c (wObjs w) \<or> sent \<and> passed c (wObjs w)"
  shows "unnamed c (wObjs w') \<and> closed (unnamed c) w'"
  using assms
proof (induction left sent lastErr unsettled c st now w rule: commitFrom.induct)
  case (1 left sent lastErr unsettled c st now w)
  obtain g w1 where g: "GetRef (ccDB c) (ccBranch c) w = (g, w1)" by fastforce
  have cl: "closed (unnamed c) w1" "closed (passed c) w1"
    using GetRef_closed(1) [OF "1.prems"(2), of "ccDB c" "ccBranch c"] GetRef_closed(1) [OF "1.prems"(3), of "ccDB c" "ccBranch c"] g
    by simp_all
  have inv: "unnamed c (wObjs w1) \<or> sent \<and> passed c (wObjs w1)"
    using GetRef_closed(2) [OF "1.prems"(2), of "ccDB c" "ccBranch c"] GetRef_closed(2) [OF "1.prems"(3), of "ccDB c" "ccBranch c"]
      "1.prems"(4) g by auto
  show ?case
  proof (cases g)
    case (Inl gerr)
    then have "\<not> sent" "w' = w1" using "1.prems"(1) g by (simp_all add: commitFrom.simps [of left] split: if_splits)
    then show ?thesis using inv cl(1) by simp
  next
    case (Inr re)
    then obtain cur etag where re: "g = Inr (cur, etag)" by (cases re) simp
    have at1: "refAt (wObjs w1) (ccDB c) (ccBranch c) = Some cur" using GetRef_refAt g re by simp
    note run = "1.prems"(1) [unfolded commitFrom.simps [of left] g re prod.case sum.case]
    show ?thesis
    proof (cases "ckPremise c cur")
      case False
      have "premiseFailed c sent lastErr cur = (True, e)" "w' = w1" using run False by (auto split: if_splits)
      then have "\<not> sent \<or> ckUnreferenced c cur" by (auto simp: premiseFailed_def split: if_splits)
      then have "unnamed c (wObjs w1)"
        using inv at1 by (auto simp: passed_def ckUnreferenced_def)
      then show ?thesis using cl(1) \<open>w' = w1\<close> by simp
    next
      case True
      obtain n where n: "left = Suc n" using run True by (cases left) (auto split: if_splits option.splits)
      obtain perr w2 where p: "PutRef (ccDB c) (ccBranch c) (ckAdvance c st now cur) etag w1 = (Inl perr, w2)"
        and rest: "commitFrom n True perr (if errors_is perr ErrCAS then unsettled else Some perr) c st now w2 = (Inl (True, e), w')"
        and "\<not> (sent \<and> ckLanded c cur)"
        using run True n by (auto simp: Let_def split: if_splits prod.splits sum.splits)
      have "unnamed c (wObjs w2) \<or> True \<and> passed c (wObjs w2)"
        using PutRef_Inl [OF p] inv tick_closed(2) [OF cl(1)] tick_closed(2) [OF cl(2)]
        by (auto simp: refWritten_def ckAdvance_passed)
      then show ?thesis
        using "1.IH" [OF g [symmetric] re] True n p rest PutRef_Inl_closed [OF p cl(1)] PutRef_Inl_closed [OF p cl(2)]
          \<open>\<not> (sent \<and> ckLanded c cur)\<close> by auto
    qed
  qed
qed

section \<open>What a commit is\<close>

lemma ckLanded_ckAdvance: "rLineage cur = ccLineage c \<Longrightarrow> ckLanded c (ckAdvance c st now cur)"
  by (simp add: ckLanded_def) (simp add: ckAdvance_def SetCheckpoint_def refTouch_def)

lemma commitFrom_Inr:
  assumes "commitFrom left sent lastErr unsettled c st now w = (Inr r, w')"
  shows "(\<exists>cur s. ckPremise c cur \<and> r = ckAdvance c st now cur \<and> replaced (ccDB c) (ccBranch c) cur (stampRef r) s (wObjs w')) \<or>
    ckLanded c r \<and> refAt (wObjs w') (ccDB c) (ccBranch c) = Some r"
  using assms
proof (induction left sent lastErr unsettled c st now w rule: commitFrom.induct)
  case (1 left sent lastErr unsettled c st now w)
  obtain g w1 where g: "GetRef (ccDB c) (ccBranch c) w = (g, w1)" by fastforce
  obtain cur etag where re: "g = Inr (cur, etag)"
    using "1.prems" g by (cases g) (auto simp: commitFrom.simps [of left] split: if_splits)
  note run = "1.prems" [unfolded commitFrom.simps [of left] g re prod.case sum.case]
  show ?case
  proof (cases "sent \<and> ckLanded c cur")
    case True
    then show ?thesis using run GetRef_refAt g re by simp
  next
    case False
    then have p: "ckPremise c cur" using run by (auto split: if_splits)
    obtain n where n: "left = Suc n" using run False p by (cases left) (auto split: option.splits)
    show ?thesis
    proof (cases "fst (PutRef (ccDB c) (ccBranch c) (ckAdvance c st now cur) etag w1)")
      case (Inl perr)
      then obtain w2 where pr: "PutRef (ccDB c) (ccBranch c) (ckAdvance c st now cur) etag w1 = (Inl perr, w2)"
        by (metis prod.collapse)
      then have "commitFrom n True perr (if errors_is perr ErrCAS then unsettled else Some perr) c st now w2 = (Inr r, w')"
        using run False p n by (simp add: Let_def)
      then show ?thesis using "1.IH" [OF g [symmetric] re] False p n pr by auto
    next
      case (Inr t)
      then obtain w2 where pr: "PutRef (ccDB c) (ccBranch c) (ckAdvance c st now cur) etag w1 = (Inr t, w2)"
        by (metis prod.collapse)
      then have "r = ckAdvance c st now cur" "w' = w2" using run False p n by (simp_all add: Let_def)
      then show ?thesis using PutRef_replaced [OF _ pr] g re p by blast
    qed
  qed
qed


text \<open>C13: \<^verbatim>\<open>commitCheckpoint\<close> reports its object deletable only when the ref does not name it, whether or not a head
  write of its own was sent and landed behind a reported failure. This needs of the other writers what the code
  relies on: none of them makes the ref name an object under the checkpoint's own epoch, and a lineage's head
  only advances. No later write of theirs names the object either.
\<close>

theorem commit_deletable_unnamed:
  assumes "closed (unnamed c) w" "closed (passed c) w" "unnamed c (wObjs w)"
    and "commitCheckpoint c st now w = (Inl (True, e), w')"
  shows "unnamed c (wObjs w') \<and> closed (unnamed c) w'"
  using commitFrom_deletable assms unfolding commitCheckpoint_def by blast

text \<open>A takeover: another writer clears the lease of the ref the checkpoint planned from.\<close>

definition sampleHeld :: ref where
  "sampleHeld = sampleRef\<lparr>rLeaseHolder := ''checkpoint:1'', rLeaseExpiry := At 99\<rparr>"

definition sampleTakeover :: "objs \<Rightarrow> objs" where
  "sampleTakeover s =
     (if map_of s ''refs/app/work'' = Some (marshalRef sampleHeld)
      then mput ''refs/app/work'' (marshalRef (sampleHeld\<lparr>rLeaseHolder := []\<rparr>)) s else s)"

definition sampleCommit :: ckCommit where
  "sampleCommit =
     \<lparr>ccDB = ''app'', ccBranch = ''work'', ccName = ''c4'', ccMeta = [], ccKind = ''snapshot'',
      ccLease = \<lparr>lDB = ''app'', lBranch = ''work'', lHolder = ''checkpoint:1'', lEpoch = rEpoch sampleRef, lExpiry = 99\<rparr>,
      ccLineage = rLineage sampleRef, ccTXID = rHeadTXID sampleRef + 1\<rparr>"

definition sampleContested :: world where
  "sampleContested =
     \<lparr>wObjs = [(''refs/app/work'', marshalRef sampleHeld)],
      wScript = [Event (\<lambda>s. s) Fine, Event sampleTakeover Fine], wCondDelete = True, wSettled = True\<rparr>"

lemma sampleTakeover_keeps:
  "unnamed sampleCommit s \<Longrightarrow> unnamed sampleCommit (sampleTakeover s)"
  "passed sampleCommit s \<Longrightarrow> passed sampleCommit (sampleTakeover s)"
proof -
  have key: "RefKey (ccDB sampleCommit) (ccBranch sampleCommit) = ''refs/app/work''" by code_simp
  have held: "decodeRef (marshalRef sampleHeld) = Inr sampleHeld"
    "decodeRef (marshalRef (sampleHeld\<lparr>rLeaseHolder := []\<rparr>)) = Inr (sampleHeld\<lparr>rLeaseHolder := []\<rparr>)" by code_simp+
  have facts: "\<not> headUnderOurEpoch sampleCommit (sampleHeld\<lparr>rLeaseHolder := []\<rparr>)"
    "\<not> ckLanded sampleCommit (sampleHeld\<lparr>rLeaseHolder := []\<rparr>)"
    "rLineage sampleHeld = ccLineage sampleCommit" "\<not> rHeadTXID sampleHeld \<ge> ccTXID sampleCommit" by code_simp+
  show "unnamed sampleCommit s \<Longrightarrow> unnamed sampleCommit (sampleTakeover s)"
    using facts(1,2) by (simp add: sampleTakeover_def unnamed_def refAt_def key held)
  show "passed sampleCommit s \<Longrightarrow> passed sampleCommit (sampleTakeover s)"
    using facts(3,4) by (auto simp: sampleTakeover_def passed_def refAt_def key held)
qed

theorem commit_deletable_unnamed_witness:
  "closed (unnamed sampleCommit) sampleContested \<and> closed (passed sampleCommit) sampleContested \<and>
   unnamed sampleCommit (wObjs sampleContested) \<and>
   (\<exists>e w'. commitCheckpoint sampleCommit ''t'' 7 sampleContested = (Inl (True, e), w') \<and> errors_is e ErrLeaseLost \<and>
      unnamed sampleCommit (wObjs w') \<and> closed (unnamed sampleCommit) w')"
proof -
  have c: "closed (unnamed sampleCommit) sampleContested" "closed (passed sampleCommit) sampleContested"
    using sampleTakeover_keeps by (simp_all add: closed_def sampleContested_def)
  have u: "unnamed sampleCommit (wObjs sampleContested)" by code_simp
  have r: "case commitCheckpoint sampleCommit ''t'' 7 sampleContested of
      (Inl (d, e), _) \<Rightarrow> d \<and> errors_is e ErrLeaseLost | _ \<Rightarrow> False" by code_simp
  then obtain e w' where run: "commitCheckpoint sampleCommit ''t'' 7 sampleContested = (Inl (True, e), w')" "errors_is e ErrLeaseLost"
    by (auto split: prod.splits sum.splits)
  show ?thesis using commit_deletable_unnamed [OF c u run(1)] c u run by blast
qed


end
