(* ===== verification/Reading.thy ===== *)
theory Reading
  imports Checkout Snapshots
begin

text \<open>
  Reading a chain of the store back into a file: \<^verbatim>\<open>internal/ops/materialize.go\<close>, and the by-chain cache of
  \<^verbatim>\<open>internal/ops/chainid.go\<close>, which keeps the file a chain materializes to under a hash of the chain's keys,
  clones it when the same chain is asked for again, and extends the longest prefix it has when a longer one is.

  What the LTX library makes of an object's bytes is a parameter. A file operation of the cache either succeeds
  or fails as its argument says; modes, temporary names and the eviction of cached descriptors are not modelled.

  The properties are that reading member by member and reading after fetching everything give the same file, and
  that the cache never shows: a cache that holds what its chains materialize to answers as the store does and is
  still such a cache.
\<close>

section \<open>Fetching and applying\<close>

record ltxCode =
  lcLib :: ltxLib
  lcSnapshot :: decoder
  lcObject :: "content \<Rightarrow> payload option"

definition asSegment :: "ltxCode \<Rightarrow> content \<Rightarrow> err + segment" where
  "asSegment lc c = (case lcObject lc c of Some (SegmentOf sg) \<Rightarrow> Inr sg | _ \<Rightarrow> Inl (plain_err ''ltxio: decode segment''))"

definition asSnapshot :: "ltxCode \<Rightarrow> content \<Rightarrow> err + snapshot" where
  "asSnapshot lc c = (case lcObject lc c of Some (SnapshotOf sn) \<Rightarrow> Inr sn | _ \<Rightarrow> Inl (plain_err ''ltxio: decode snapshot''))"

text \<open>\<^verbatim>\<open>applySegments\<close> over lazy readers: each member is fetched when its turn comes.\<close>

fun applyMembers ::
  "ltxCode \<Rightarrow> u32 \<Rightarrow> bool \<Rightarrow> u64 \<Rightarrow> u32 \<Rightarrow> u64 \<Rightarrow> chainMember list \<Rightarrow> bytes \<Rightarrow> world \<Rightarrow>
     (err + (u64 \<times> u64) \<times> bytes) \<times> world" where
  "applyMembers lc ps first prevMax prevCommit running [] f w = (Inr ((prevMax, running), f), w)"
| "applyMembers lc ps first prevMax prevCommit running (m # ms) f w =
     (case bGet (cmKey m) w of
        (Inl e, w1) \<Rightarrow> (Inl (wrap_err ''ops: opening segment'' e), w1)
      | (Inr (data, _), w1) \<Rightarrow>
          (case asSegment lc data of
             Inl e \<Rightarrow> (Inl e, w1)
           | Inr sg \<Rightarrow>
               (case applySegment (lcLib lc) ps (if first \<and> prevMax = 0 then sgMin sg - 1 else prevMax) prevCommit running sg f of
                  Inl e \<Rightarrow> (Inl e, w1)
                | Inr f1 \<Rightarrow> applyMembers lc ps False (sgMax sg) (sgCommit sg) (sgPost sg) ms f1 w1)))"

definition materializeMembersAtStreaming :: "ltxCode \<Rightarrow> chainMember list \<Rightarrow> world \<Rightarrow> (err + u64 \<times> bytes) \<times> world" where
  "materializeMembersAtStreaming lc members w =
     (case members of
        [] \<Rightarrow> (Inl (plain_err ''index out of range''), w)
      | m # ms \<Rightarrow>
          (case bGet (cmKey m) w of
             (Inl e, w1) \<Rightarrow> (Inl (wrap_err ''ops: materializing chain'' e), w1)
           | (Inr (data, _), w1) \<Rightarrow>
               (case asSnapshot lc data of
                  Inl e \<Rightarrow> (Inl (wrap_err ''ops: materializing chain'' e), w1)
                | Inr sn \<Rightarrow>
                    (case decodeSnapshot (lcSnapshot lc) sn of
                       Inl e \<Rightarrow> (Inl (wrap_err ''ops: materializing chain'' e), w1)
                     | Inr f \<Rightarrow>
                         (case applyMembers lc (snPageSize sn) True (snMax sn) (snCommit sn) (snPost sn) ms f w1 of
                            (Inl e, w2) \<Rightarrow> (Inl (wrap_err ''ops: materializing chain'' e), w2)
                          | (Inr ((_, checksum), f1), w2) \<Rightarrow> (Inr (checksum, f1), w2))))))"

fun fetchSegments :: "chainMember list \<Rightarrow> world \<Rightarrow> (err + content list) \<times> world" where
  "fetchSegments [] w = (Inr [], w)"
| "fetchSegments (m # ms) w =
     (case bGet (cmKey m) w of
        (Inl e, w1) \<Rightarrow> (Inl (wrap_err ''ops: fetching segment'' e), w1)
      | (Inr (data, _), w1) \<Rightarrow>
          (case fetchSegments ms w1 of
             (Inl e, w2) \<Rightarrow> (Inl e, w2)
           | (Inr ds, w2) \<Rightarrow> (Inr (data # ds), w2)))"

fun decodeAll :: "ltxCode \<Rightarrow> content list \<Rightarrow> err + segment list" where
  "decodeAll lc [] = Inr []"
| "decodeAll lc (d # ds) =
     (case asSegment lc d of
        Inl e \<Rightarrow> Inl e
      | Inr sg \<Rightarrow> (case decodeAll lc ds of Inl e \<Rightarrow> Inl e | Inr sgs \<Rightarrow> Inr (sg # sgs)))"

text \<open>\<^verbatim>\<open>MaterializeChain\<close> on the bytes fetched; a segment that does not decode fails it wherever it is.\<close>

definition materializeBytes :: "ltxCode \<Rightarrow> content \<Rightarrow> content list \<Rightarrow> err + u64 \<times> bytes" where
  "materializeBytes lc snap segs =
     (case asSnapshot lc snap of
        Inl e \<Rightarrow> Inl e
      | Inr sn \<Rightarrow>
          (case decodeAll lc segs of
             Inl e \<Rightarrow> Inl e
           | Inr sgs \<Rightarrow>
               (case MaterializeChain (lcLib lc) (lcSnapshot lc) sn sgs of
                  Inl e \<Rightarrow> Inl e
                | Inr ((_, checksum), f) \<Rightarrow> Inr (checksum, f))))"

definition materializeMembersAtBuffered :: "ltxCode \<Rightarrow> chainMember list \<Rightarrow> world \<Rightarrow> (err + u64 \<times> bytes) \<times> world" where
  "materializeMembersAtBuffered lc members w =
     (case members of
        [] \<Rightarrow> (Inl (plain_err ''index out of range''), w)
      | m # ms \<Rightarrow>
          (case bGet (cmKey m) w of
             (Inl e, w1) \<Rightarrow> (Inl (wrap_err ''ops: fetching snapshot'' e), w1)
           | (Inr (data, _), w1) \<Rightarrow>
               (case fetchSegments ms w1 of
                  (Inl e, w2) \<Rightarrow> (Inl e, w2)
                | (Inr ds, w2) \<Rightarrow>
                    (case materializeBytes lc data ds of
                       Inl e \<Rightarrow> (Inl (wrap_err ''ops: materializing chain'' e), w2)
                     | Inr r \<Rightarrow> (Inr r, w2)))))"

text \<open>Whether the backend streams its objects decides which is used.\<close>

definition materializeMembersAt :: "bool \<Rightarrow> ltxCode \<Rightarrow> chainMember list \<Rightarrow> world \<Rightarrow> (err + u64 \<times> bytes) \<times> world" where
  "materializeMembersAt streams lc members w =
     (if streams then materializeMembersAtStreaming lc members w else materializeMembersAtBuffered lc members w)"

definition resolveChain :: "ref \<Rightarrow> u64 \<Rightarrow> world \<Rightarrow> (err + chainMember list) \<times> world" where
  "resolveChain r txid w =
     (case readView w of (v, w1) \<Rightarrow>
        (case Chain v (rLineage r) txid of
           Inl e \<Rightarrow> (Inl (wrap_err ''ops: resolving chain'' e), w1)
         | Inr ms \<Rightarrow> (Inr ms, w1)))"

text \<open>The hash of the keys, joined by newlines; \<^verbatim>\<open>sha\<close> is SHA-256 in hexadecimal.\<close>

fun joinLines :: "string list \<Rightarrow> string" where
  "joinLines [] = []"
| "joinLines [k] = k"
| "joinLines (k # ks) = k @ CHR 0x0A # joinLines ks"

definition chainID :: "(string \<Rightarrow> string) \<Rightarrow> chainMember list \<Rightarrow> string" where
  "chainID sha members = sha (joinLines (map cmKey members))"

definition materializeChainAt ::
  "bool \<Rightarrow> ltxCode \<Rightarrow> (string \<Rightarrow> string) \<Rightarrow> ref \<Rightarrow> u64 \<Rightarrow> world \<Rightarrow> (err + (u64 \<times> string) \<times> bytes) \<times> world" where
  "materializeChainAt streams lc sha r txid w =
     (case resolveChain r txid w of
        (Inl e, w1) \<Rightarrow> (Inl e, w1)
      | (Inr ms, w1) \<Rightarrow>
          (case materializeMembersAt streams lc ms w1 of
             (Inl e, w2) \<Rightarrow> (Inl e, w2)
           | (Inr (checksum, f), w2) \<Rightarrow> (Inr ((checksum, chainID sha ms), f), w2)))"

section \<open>The by-chain cache\<close>

definition DefaultByChainMaxEntries :: nat where "DefaultByChainMaxEntries = 64"

record chainEntry =
  enFile :: "bytes option"
  enSum :: "sumRecord option"
  enUsed :: int

type_synonym chainCache = "chainEntry byname"

text \<open>Which file operations work: cloning out of the cache, the probe of \<^verbatim>\<open>canCloneByChain\<close>, staging a new entry
  and stamping it; and the clock that \<^verbatim>\<open>touchLastUsed\<close> records.\<close>

record cacheIO =
  ioClone :: bool
  ioProbe :: bool
  ioStage :: bool
  ioStamp :: bool
  ioNow :: int

definition byChainEntry :: "chainCache \<Rightarrow> string \<Rightarrow> (chainEntry \<times> sumRecord) option" where
  "byChainEntry cache cid =
     (case map_of cache cid of
        None \<Rightarrow> None
      | Some e \<Rightarrow>
          (case readSidecar (enSum e) of
             None \<Rightarrow> None
           | Some rec \<Rightarrow> if srChainID rec \<noteq> cid \<or> srPostApply rec = 0 then None else Some (e, rec)))"

definition touchLastUsed :: "cacheIO \<Rightarrow> string \<Rightarrow> chainCache \<Rightarrow> chainCache" where
  "touchLastUsed io cid cache =
     (case map_of cache cid of None \<Rightarrow> cache | Some e \<Rightarrow> mput cid (e\<lparr>enUsed := ioNow io\<rparr>) cache)"

text \<open>\<^verbatim>\<open>ApplySegments\<close> from a cached file, with its segments fetched as they are applied.\<close>

definition extendEntry :: "ltxCode \<Rightarrow> bytes option \<Rightarrow> u64 \<Rightarrow> chainMember list \<Rightarrow> world \<Rightarrow> (err + u64 \<times> bytes) \<times> world" where
  "extendEntry lc start startChecksum ms w =
     (if ms = [] then (Inl (plain_err ''ltxio: ApplySegments needs at least one segment''), w)
      else case start of
             None \<Rightarrow> (Inl (plain_err ''open''), w)
           | Some f \<Rightarrow>
               (case readDBHeader f of
                  Inl e \<Rightarrow> (Inl e, w)
                | Inr (ps, n) \<Rightarrow>
                    (case applyMembers lc ps True 0 n startChecksum ms f w of
                       (Inl e, w1) \<Rightarrow> (Inl e, w1)
                     | (Inr ((_, checksum), f1), w1) \<Rightarrow> (Inr (checksum, f1), w1))))"

text \<open>The prefixes of length \<^verbatim>\<open>k\<close> and less, longest first; the first one cached decides.\<close>

fun prefixFrom ::
  "nat \<Rightarrow> ltxCode \<Rightarrow> (string \<Rightarrow> string) \<Rightarrow> cacheIO \<Rightarrow> chainMember list \<Rightarrow> chainCache \<Rightarrow> world \<Rightarrow>
     (u64 \<times> bytes) option \<times> chainCache \<times> world" where
  "prefixFrom 0 lc sha io members cache w = (None, cache, w)"
| "prefixFrom (Suc k) lc sha io members cache w =
     (let cid = chainID sha (take (Suc k) members) in
      case byChainEntry cache cid of
        None \<Rightarrow> prefixFrom k lc sha io members cache w
      | Some (e, rec) \<Rightarrow>
          (case extendEntry lc (enFile e) (srPostApply rec) (drop (Suc k) members) w of
             (Inl _, w1) \<Rightarrow> (None, cache, w1)
           | (Inr r, w1) \<Rightarrow> (Some r, touchLastUsed io cid cache, w1)))"

definition applyLongestPrefix ::
  "ltxCode \<Rightarrow> (string \<Rightarrow> string) \<Rightarrow> cacheIO \<Rightarrow> chainMember list \<Rightarrow> chainCache \<Rightarrow> world \<Rightarrow>
     (u64 \<times> bytes) option \<times> chainCache \<times> world" where
  "applyLongestPrefix lc sha io members cache w = prefixFrom (length members - 1) lc sha io members cache w"

definition stampEntry ::
  "(bytes \<Rightarrow> string) \<Rightarrow> cacheIO \<Rightarrow> string \<Rightarrow> u64 \<Rightarrow> bytes \<Rightarrow> chainCache \<Rightarrow> (sumRecord option) \<times> chainCache" where
  "stampEntry fsha io cid checksum f cache =
     (let old = (case map_of cache cid of None \<Rightarrow> None | Some e \<Rightarrow> enSum e);
          used = (case map_of cache cid of None \<Rightarrow> ioNow io | Some e \<Rightarrow> enUsed e);
          renamed = mput cid \<lparr>enFile = Some f, enSum = old, enUsed = used\<rparr> cache in
      if \<not> ioStamp io then (None, renamed)
      else case StampSum (Some (f, ioNow io)) (ioNow io) (fsha f) ([], 0, 0) checksum cid of
             Inl _ \<Rightarrow> (None, renamed)
           | Inr rec \<Rightarrow> (Some rec, mput cid \<lparr>enFile = Some f, enSum = Some rec, enUsed = used\<rparr> cache))"

definition buildByChainEntry ::
  "bool \<Rightarrow> ltxCode \<Rightarrow> (string \<Rightarrow> string) \<Rightarrow> (bytes \<Rightarrow> string) \<Rightarrow> cacheIO \<Rightarrow> chainMember list \<Rightarrow> chainCache \<Rightarrow> world \<Rightarrow>
     (string \<times> sumRecord) option \<times> chainCache \<times> world" where
  "buildByChainEntry streams lc sha fsha io members cache w =
     (if \<not> ioStage io then (None, cache, w)
      else case applyLongestPrefix lc sha io members cache w of
             (Some (checksum, f), cache1, w1) \<Rightarrow>
               (case stampEntry fsha io (chainID sha members) checksum f cache1 of
                  (None, cache2) \<Rightarrow> (None, cache2, w1)
                | (Some rec, cache2) \<Rightarrow> (Some (''clone+segments'', rec), cache2, w1))
           | (None, cache1, w1) \<Rightarrow>
               (case materializeMembersAt streams lc members w1 of
                  (Inl _, w2) \<Rightarrow> (None, cache1, w2)
                | (Inr (checksum, f), w2) \<Rightarrow>
                    (case stampEntry fsha io (chainID sha members) checksum f cache1 of
                       (None, cache2) \<Rightarrow> (None, cache2, w2)
                     | (Some rec, cache2) \<Rightarrow> (Some (''materialize'', rec), cache2, w2))))"

definition cloneIntoPlace :: "cacheIO \<Rightarrow> chainCache \<Rightarrow> string \<Rightarrow> bytes option" where
  "cloneIntoPlace io cache cid =
     (if \<not> ioClone io then None else case map_of cache cid of None \<Rightarrow> None | Some e \<Rightarrow> enFile e)"

text \<open>How the file came about, its checksum, its SHA-256 where an entry has it on record, and the file.\<close>

type_synonym placement = "string \<times> u64 \<times> string \<times> bytes"

definition materializeFromChain ::
  "bool \<Rightarrow> ltxCode \<Rightarrow> (string \<Rightarrow> string) \<Rightarrow> (bytes \<Rightarrow> string) \<Rightarrow> cacheIO \<Rightarrow> chainMember list \<Rightarrow> chainCache \<Rightarrow> world \<Rightarrow>
     (err + placement) \<times> chainCache \<times> world" where
  "materializeFromChain streams lc sha fsha io members cache w =
     (let cid = chainID sha members;
          direct = (\<lambda>cache1 w1. case materializeMembersAt streams lc members w1 of
                      (Inl e, w2) \<Rightarrow> (Inl e, cache1, w2)
                    | (Inr (checksum, f), w2) \<Rightarrow> (Inr (''materialize'', checksum, [], f), cache1, w2));
          populate = (\<lambda>cache1 w1. if \<not> ioProbe io then direct cache1 w1
                      else case buildByChainEntry streams lc sha fsha io members cache1 w1 of
                             (None, cache2, w2) \<Rightarrow> direct cache2 w2
                           | (Some (kind, rec), cache2, w2) \<Rightarrow>
                               (case cloneIntoPlace io cache2 cid of
                                  None \<Rightarrow> direct cache2 w2
                                | Some f \<Rightarrow> (Inr (kind, srPostApply rec, srHash rec, f), cache2, w2)))
      in case byChainEntry cache cid of
           None \<Rightarrow> populate cache w
         | Some (_, rec) \<Rightarrow>
             (case cloneIntoPlace io cache cid of
                None \<Rightarrow> populate cache w
              | Some f \<Rightarrow> (Inr (''clone'', srPostApply rec, srHash rec, f), touchLastUsed io cid cache, w)))"

text \<open>The least recently used entries above the bound go, ties by path; the cache is in the order of its paths.\<close>

definition pruneByChain :: "nat \<Rightarrow> chainCache \<Rightarrow> chainCache" where
  "pruneByChain most cache =
     (let entries = filter (\<lambda>(_, e). enFile e \<noteq> None) cache in
      if length entries \<le> most then cache
      else fold mdel (map fst (take (length entries - most) (sort_key (\<lambda>(_, e). enUsed e) entries))) cache)"

definition refreshFromChain ::
  "bool \<Rightarrow> ltxCode \<Rightarrow> (string \<Rightarrow> string) \<Rightarrow> (bytes \<Rightarrow> string) \<Rightarrow> cacheIO \<Rightarrow> ref \<Rightarrow> chainCache \<Rightarrow> world \<Rightarrow>
     (err + (u64 \<times> string) \<times> bytes) \<times> chainCache \<times> world" where
  "refreshFromChain streams lc sha fsha io r cache w =
     (case resolveChain r (rHeadTXID r) w of
        (Inl e, w1) \<Rightarrow> (Inl e, cache, w1)
      | (Inr ms, w1) \<Rightarrow>
          (case materializeFromChain streams lc sha fsha io ms cache w1 of
             (Inl e, cache1, w2) \<Rightarrow> (Inl e, cache1, w2)
           | (Inr (kind, checksum, _, f), cache1, w2) \<Rightarrow>
               (Inr ((checksum, chainID sha ms), f),
                if kind \<noteq> ''clone'' then pruneByChain DefaultByChainMaxEntries cache1 else cache1, w2)))"

section \<open>What a chain materializes to\<close>

text \<open>The segments of a chain applied to a state: page size, position, page count, checksum and file.\<close>

fun applyContents ::
  "ltxCode \<Rightarrow> u32 \<Rightarrow> bool \<Rightarrow> u64 \<Rightarrow> u32 \<Rightarrow> u64 \<Rightarrow> content list \<Rightarrow> bytes \<Rightarrow> err + (u64 \<times> u32 \<times> u64) \<times> bytes" where
  "applyContents lc ps first pm pc run [] f = Inr ((pm, pc, run), f)"
| "applyContents lc ps first pm pc run (c # cs) f =
     (case asSegment lc c of
        Inl e \<Rightarrow> Inl e
      | Inr sg \<Rightarrow>
          (case applySegment (lcLib lc) ps (if first \<and> pm = 0 then sgMin sg - 1 else pm) pc run sg f of
             Inl e \<Rightarrow> Inl e
           | Inr f1 \<Rightarrow> applyContents lc ps False (sgMax sg) (sgCommit sg) (sgPost sg) cs f1))"

definition chainRun :: "ltxCode \<Rightarrow> content list \<Rightarrow> err + u32 \<times> (u64 \<times> u32 \<times> u64) \<times> bytes" where
  "chainRun lc cs =
     (case cs of
        [] \<Rightarrow> Inl (plain_err ''index out of range'')
      | c # cs' \<Rightarrow>
          (case asSnapshot lc c of
             Inl e \<Rightarrow> Inl e
           | Inr sn \<Rightarrow>
               (case decodeSnapshot (lcSnapshot lc) sn of
                  Inl e \<Rightarrow> Inl e
                | Inr f \<Rightarrow>
                    (case applyContents lc (snPageSize sn) True (snMax sn) (snCommit sn) (snPost sn) cs' f of
                       Inl e \<Rightarrow> Inl e
                     | Inr st \<Rightarrow> Inr (snPageSize sn, st)))))"

text \<open>\<^verbatim>\<open>obj\<close> is what each key has ever held: an object is written once.\<close>

definition contentsOf :: "(key \<Rightarrow> content option) \<Rightarrow> chainMember list \<Rightarrow> content list" where
  "contentsOf obj ms = map (\<lambda>m. the (obj (cmKey m))) ms"

definition stored :: "objs \<Rightarrow> (key \<Rightarrow> content option) \<Rightarrow> chainMember list \<Rightarrow> bool" where
  "stored s obj ms \<longleftrightarrow> (\<forall>m \<in> set ms. \<exists>c t. localGet s (cmKey m) = Inr (c, t) \<and> obj (cmKey m) = Some c)"

lemma stored_get: "stored s obj (m # ms) \<Longrightarrow> \<exists>t. localGet s (cmKey m) = Inr (the (obj (cmKey m)), t)"
  by (auto simp: stored_def)

lemma stored_tl: "stored s obj (m # ms) \<Longrightarrow> stored s obj ms"
  by (simp add: stored_def)

definition forgetCommit :: "err + (u64 \<times> u32 \<times> u64) \<times> bytes \<Rightarrow> err + (u64 \<times> u64) \<times> bytes" where
  "forgetCommit x = (case x of Inl e \<Rightarrow> Inl e | Inr ((pm, pc, run), f) \<Rightarrow> Inr ((pm, run), f))"

lemma forgetCommit_simps [simp]:
  "forgetCommit (Inl e) = Inl e" "forgetCommit (Inr ((pm, pc, run), f)) = Inr ((pm, run), f)"
  by (simp_all add: forgetCommit_def)

lemma applyMembers_quiet:
  assumes "quiet w" "stored (wObjs w) obj ms"
  shows "applyMembers lc ps first pm pc run ms f w =
    (forgetCommit (applyContents lc ps first pm pc run (contentsOf obj ms) f), w)"
  using assms(2)
proof (induction ms arbitrary: first pm pc run f)
  case (Cons m ms)
  obtain t where t: "localGet (wObjs w) (cmKey m) = Inr (the (obj (cmKey m)), t)" using stored_get [OF Cons.prems] by blast
  note IH = Cons.IH [OF stored_tl [OF Cons.prems], unfolded contentsOf_def]
  show ?case
  proof (cases "asSegment lc (the (obj (cmKey m)))")
    case (Inl e)
    then show ?thesis by (simp add: contentsOf_def quiet_calls assms(1) t)
  next
    case (Inr sg)
    show ?thesis
      by (cases "applySegment (lcLib lc) ps (if first \<and> pm = 0 then sgMin sg - 1 else pm) pc run sg f")
        (simp_all add: contentsOf_def quiet_calls assms(1) t Inr IH del: if_split)
  qed
qed (simp add: contentsOf_def)

lemma applyContents_append:
  "applyContents lc ps first pm pc run (cs @ ds) f =
     (case applyContents lc ps first pm pc run cs f of
        Inl e \<Rightarrow> Inl e
      | Inr ((pm', pc', run'), f') \<Rightarrow> applyContents lc ps (first \<and> cs = []) pm' pc' run' ds f')"
  by (induction cs arbitrary: first pm pc run f) (auto split: sum.split)

lemma applySegment_position: "applySegment lib ps pm pc run sg f = Inr f' \<Longrightarrow> pm = sgMin sg - 1"
  by (auto simp: applySegment_def segmentRefusal_def split: option.splits if_splits)

text \<open>A run from an unknown position is the run from the known one, when that one is accepted.\<close>

lemma applyContents_unknown:
  assumes "applyContents lc ps first pm pc run (c # cs) f = Inr st"
  shows "applyContents lc ps True 0 pc run (c # cs) f = Inr st"
proof -
  obtain sg where sg: "asSegment lc c = Inr sg" using assms by (auto split: sum.splits)
  obtain f1 where f1: "applySegment (lcLib lc) ps (if first \<and> pm = 0 then sgMin sg - 1 else pm) pc run sg f = Inr f1"
    "applyContents lc ps False (sgMax sg) (sgCommit sg) (sgPost sg) cs f1 = Inr st"
    using assms by (simp add: sg split: sum.splits)
  show ?thesis using f1(2) f1(1) [unfolded applySegment_position [OF f1(1)]] by (simp add: sg)
qed

lemma applyContents_loop:
  assumes "decodeAll lc cs = Inr sgs"
  shows "forgetCommit (applyContents lc ps False pm pc run cs f) = applyLoop (lcLib lc) ps pm pc run sgs f"
  using assms
proof (induction cs arbitrary: sgs pm pc run f)
  case (Cons c cs)
  obtain sg sgs' where sg: "asSegment lc c = Inr sg" "decodeAll lc cs = Inr sgs'" "sgs = sg # sgs'"
    using Cons.prems by (auto split: sum.splits)
  show ?case by (cases "applySegment (lcLib lc) ps pm pc run sg f") (simp_all add: sg Cons.IH [OF sg(2)])
qed simp

lemma applyContents_decodes:
  "applyContents lc ps first pm pc run cs f = Inr st \<Longrightarrow> \<exists>sgs. decodeAll lc cs = Inr sgs"
proof (induction cs arbitrary: first pm pc run f)
  case (Cons c cs)
  obtain sg where sg: "asSegment lc c = Inr sg" using Cons.prems by (auto split: sum.splits)
  then obtain f1 where "applyContents lc ps False (sgMax sg) (sgCommit sg) (sgPost sg) cs f1 = Inr st"
    using Cons.prems by (simp split: sum.splits)
  then obtain sgs where "decodeAll lc cs = Inr sgs" using Cons.IH by blast
  then show ?case using sg by simp
qed simp

lemma applyContents_segments:
  assumes "decodeAll lc cs = Inr sgs"
  shows "forgetCommit (applyContents lc ps True pm pc run cs f) = applySegments (lcLib lc) ps pm pc run sgs f"
proof (cases cs)
  case (Cons c cs')
  obtain sg sgs' where sg: "asSegment lc c = Inr sg" "decodeAll lc cs' = Inr sgs'" "sgs = sg # sgs'"
    using assms Cons by (auto split: sum.splits)
  show ?thesis
    by (cases "applySegment (lcLib lc) ps (if pm = 0 then sgMin sg - 1 else pm) pc run sg f")
      (simp_all add: applySegments_def sg Cons applyContents_loop [OF sg(2)] del: if_split)
qed (use assms in \<open>simp add: applySegments_def\<close>)

lemma contentsOf_simps [simp]:
  "contentsOf obj [] = []" "contentsOf obj (m # ms) = the (obj (cmKey m)) # contentsOf obj ms"
  "contentsOf obj (ms @ ns) = contentsOf obj ms @ contentsOf obj ns"
  by (simp_all add: contentsOf_def)

lemma contentsOf_Nil [simp]: "contentsOf obj ms = [] \<longleftrightarrow> ms = []"
  by (simp add: contentsOf_def)

definition runResult :: "err + u32 \<times> (u64 \<times> u32 \<times> u64) \<times> bytes \<Rightarrow> (u64 \<times> bytes) option" where
  "runResult x = (case x of Inl _ \<Rightarrow> None | Inr (_, (_, _, run), f) \<Rightarrow> Some (run, f))"

definition asOption :: "err + 'a \<Rightarrow> 'a option" where
  "asOption x = (case x of Inl _ \<Rightarrow> None | Inr y \<Rightarrow> Some y)"

lemma asOption_simps [simp]: "asOption (Inl e) = None" "asOption (Inr y) = Some y"
  by (simp_all add: asOption_def)

lemma streaming_quiet:
  assumes "quiet w" "stored (wObjs w) obj ms"
  shows "snd (materializeMembersAtStreaming lc ms w) = w"
    "asOption (fst (materializeMembersAtStreaming lc ms w)) = runResult (chainRun lc (contentsOf obj ms))"
proof -
  have "snd (materializeMembersAtStreaming lc ms w) = w \<and>
      asOption (fst (materializeMembersAtStreaming lc ms w)) = runResult (chainRun lc (contentsOf obj ms))"
  proof (cases ms)
    case Nil
    then show ?thesis by (simp add: materializeMembersAtStreaming_def chainRun_def runResult_def)
  next
    case (Cons m ns)
    obtain t where t: "localGet (wObjs w) (cmKey m) = Inr (the (obj (cmKey m)), t)"
      using stored_get assms(2) Cons by blast
    have "stored (wObjs w) obj ns" using assms(2) stored_tl Cons by blast
    note run = applyMembers_quiet [OF assms(1) this]
    show ?thesis
      by (auto simp: materializeMembersAtStreaming_def Cons quiet_calls assms(1) t chainRun_def run forgetCommit_def
          runResult_def split: sum.splits)
  qed
  then show "snd (materializeMembersAtStreaming lc ms w) = w"
    "asOption (fst (materializeMembersAtStreaming lc ms w)) = runResult (chainRun lc (contentsOf obj ms))" by simp_all
qed

lemma fetchSegments_quiet:
  assumes "quiet w" "stored (wObjs w) obj ms"
  shows "fetchSegments ms w = (Inr (contentsOf obj ms), w)"
  using assms(2)
proof (induction ms)
  case (Cons m ms)
  obtain t where "localGet (wObjs w) (cmKey m) = Inr (the (obj (cmKey m)), t)" using stored_get [OF Cons.prems] by blast
  then show ?case using Cons.IH [OF stored_tl [OF Cons.prems]] by (simp add: quiet_calls assms(1))
qed simp

lemma materializeBytes_run: "asOption (materializeBytes lc c cs) = runResult (chainRun lc (c # cs))"
proof (cases "decodeAll lc cs")
  case (Inl e)
  then have "\<exists>e. applyContents lc ps True pm pc run cs f = Inl e" for ps pm pc run f
    using applyContents_decodes [of lc ps True pm pc run cs f] by (cases "applyContents lc ps True pm pc run cs f") auto
  then have "runResult (chainRun lc (c # cs)) = None"
    by (auto simp: chainRun_def runResult_def split: sum.split) (metis Inl_Inr_False)
  then show ?thesis by (simp add: materializeBytes_def Inl split: sum.split)
next
  case (Inr sgs)
  have step: "asOption (case applySegments (lcLib lc) ps pm pc run sgs f of Inl e \<Rightarrow> Inl e | Inr ((_, checksum), f) \<Rightarrow> Inr (checksum, f)) =
      runResult (case applyContents lc ps True pm pc run cs f of Inl e \<Rightarrow> Inl e | Inr st \<Rightarrow> Inr (ps, st))" for ps pm pc run f
    unfolding applyContents_segments [OF Inr, symmetric]
    by (cases "applyContents lc ps True pm pc run cs f") (auto simp: runResult_def)
  show ?thesis
  proof (cases "asSnapshot lc c")
    case (Inl e)
    then show ?thesis by (simp add: materializeBytes_def chainRun_def runResult_def)
  next
    case sn: (Inr sn)
    show ?thesis
    proof (cases "decodeSnapshot (lcSnapshot lc) sn")
      case (Inl e)
      then show ?thesis by (simp add: materializeBytes_def chainRun_def runResult_def sn Inr MaterializeChain_def)
    next
      case f: (Inr f)
      show ?thesis
        using step [of "snPageSize sn" "snMax sn" "snCommit sn" "snPost sn" f]
        by (simp add: materializeBytes_def chainRun_def sn Inr MaterializeChain_def f)
    qed
  qed
qed

lemma buffered_quiet:
  assumes "quiet w" "stored (wObjs w) obj ms"
  shows "snd (materializeMembersAtBuffered lc ms w) = w"
    "asOption (fst (materializeMembersAtBuffered lc ms w)) = runResult (chainRun lc (contentsOf obj ms))"
proof -
  have "snd (materializeMembersAtBuffered lc ms w) = w \<and>
      asOption (fst (materializeMembersAtBuffered lc ms w)) = runResult (chainRun lc (contentsOf obj ms))"
  proof (cases ms)
    case Nil
    then show ?thesis by (simp add: materializeMembersAtBuffered_def chainRun_def runResult_def)
  next
    case (Cons m ns)
    obtain t where t: "localGet (wObjs w) (cmKey m) = Inr (the (obj (cmKey m)), t)"
      using stored_get assms(2) Cons by blast
    have "fetchSegments ns w = (Inr (contentsOf obj ns), w)"
      using fetchSegments_quiet [OF assms(1)] assms(2) stored_tl Cons by blast
    then show ?thesis
      using materializeBytes_run [of lc "the (obj (cmKey m))" "contentsOf obj ns"]
      by (cases "materializeBytes lc (the (obj (cmKey m))) (contentsOf obj ns)")
        (auto simp: materializeMembersAtBuffered_def Cons quiet_calls assms(1) t)
  qed
  then show "snd (materializeMembersAtBuffered lc ms w) = w"
    "asOption (fst (materializeMembersAtBuffered lc ms w)) = runResult (chainRun lc (contentsOf obj ms))" by simp_all
qed

lemma materializeMembersAt_quiet:
  assumes "quiet w" "stored (wObjs w) obj ms"
  shows "snd (materializeMembersAt streams lc ms w) = w"
    "asOption (fst (materializeMembersAt streams lc ms w)) = runResult (chainRun lc (contentsOf obj ms))"
  using streaming_quiet [OF assms] buffered_quiet [OF assms] by (simp_all add: materializeMembersAt_def)

section \<open>A chain and its prefixes\<close>

text \<open>Every state a chain passes through is a database whose header states its page size and page count.\<close>

definition wholeStates :: "ltxCode \<Rightarrow> content list \<Rightarrow> bool" where
  "wholeStates lc cs \<longleftrightarrow>
     (\<forall>k \<in> {1..length cs}. case chainRun lc (take k cs) of
        Inl _ \<Rightarrow> False
      | Inr (ps, (_, pc, _), f) \<Rightarrow> readDBHeader f = Inr (ps, pc))"

lemma wholeStates_prefix:
  assumes "wholeStates lc cs" "1 \<le> k" "k \<le> length cs"
  obtains ps pm pc run f where "chainRun lc (take k cs) = Inr (ps, (pm, pc, run), f)" "readDBHeader f = Inr (ps, pc)"
proof -
  have "case chainRun lc (take k cs) of Inl _ \<Rightarrow> False | Inr (ps, (_, pc, _), f) \<Rightarrow> readDBHeader f = Inr (ps, pc)"
    using assms unfolding wholeStates_def by simp
  then show ?thesis using that by (cases "chainRun lc (take k cs)") auto
qed

lemma chainRun_append:
  assumes "chainRun lc cs = Inr (ps, (pm, pc, run), f)"
  shows "\<exists>first. chainRun lc (cs @ ds) =
    (case applyContents lc ps first pm pc run ds f of Inl e \<Rightarrow> Inl e | Inr st \<Rightarrow> Inr (ps, st))"
proof -
  obtain c cs' sn f0 where c: "cs = c # cs'" "asSnapshot lc c = Inr sn" "decodeSnapshot (lcSnapshot lc) sn = Inr f0"
    and run: "applyContents lc (snPageSize sn) True (snMax sn) (snCommit sn) (snPost sn) cs' f0 = Inr ((pm, pc, run), f)"
      "ps = snPageSize sn"
    using assms by (auto simp: chainRun_def split: list.splits sum.splits)
  show ?thesis unfolding run(2) by (intro exI [of _ "cs' = []"]) (simp add: chainRun_def c run(1) applyContents_append)
qed

text \<open>Extending the file of a prefix gives what the whole chain gives.\<close>

lemma extendEntry_run:
  assumes "quiet w" "stored (wObjs w) obj ms" "wholeStates lc (contentsOf obj ms)" "1 \<le> k" "k < length ms"
    and "runResult (chainRun lc (contentsOf obj (take k ms))) = Some (sm, f)"
  shows "\<exists>r. runResult (chainRun lc (contentsOf obj ms)) = Some r \<and> extendEntry lc (Some f) sm (drop k ms) w = (Inr r, w)"
proof -
  have split: "contentsOf obj ms = contentsOf obj (take k ms) @ contentsOf obj (drop k ms)"
    unfolding contentsOf_simps(3) [symmetric] append_take_drop_id ..
  have pre: "take k (contentsOf obj ms) = contentsOf obj (take k ms)" by (simp add: contentsOf_def take_map)
  have len: "length (contentsOf obj ms) = length ms" by (simp add: contentsOf_def)
  have le: "k \<le> length (contentsOf obj ms)" "1 \<le> length (contentsOf obj ms)" using assms(4,5) len by simp_all
  obtain ps pm pc run g where st: "chainRun lc (contentsOf obj (take k ms)) = Inr (ps, (pm, pc, run), g)" "readDBHeader g = Inr (ps, pc)"
    by (rule wholeStates_prefix [OF assms(3,4) le(1), unfolded pre])
  then have sm: "sm = run" "f = g" using assms(6) by (simp_all add: runResult_def)
  obtain ps2 pm2 pc2 run2 g2 where full: "chainRun lc (contentsOf obj ms) = Inr (ps2, (pm2, pc2, run2), g2)"
    by (rule wholeStates_prefix [OF assms(3) le(2) le_refl]) simp
  obtain m ns where dr: "drop k ms = m # ns" using assms(5) by (cases "drop k ms") simp_all
  obtain first where "(case applyContents lc ps first pm pc run (contentsOf obj (drop k ms)) g of Inl e \<Rightarrow> Inl e | Inr st \<Rightarrow> Inr (ps, st)) =
      Inr (ps2, (pm2, pc2, run2), g2)"
    using chainRun_append [OF st(1), of "contentsOf obj (drop k ms)"] full unfolding split by auto
  then have "applyContents lc ps first pm pc run (contentsOf obj (drop k ms)) g = Inr ((pm2, pc2, run2), g2)"
    by (cases "applyContents lc ps first pm pc run (contentsOf obj (drop k ms)) g") simp_all
  then have "applyContents lc ps True 0 pc run (contentsOf obj (drop k ms)) g = Inr ((pm2, pc2, run2), g2)"
    unfolding dr contentsOf_simps by (rule applyContents_unknown)
  moreover have "stored (wObjs w) obj (drop k ms)" using assms(2) by (auto simp: stored_def dest: in_set_dropD)
  ultimately have "applyMembers lc ps True 0 pc run (drop k ms) g w = (Inr ((pm2, run2), g2), w)"
    using applyMembers_quiet [OF assms(1)] by simp
  then show ?thesis using full dr sm st(2) by (simp add: extendEntry_def runResult_def)
qed

section \<open>Chain identifiers\<close>

definition goodKeys :: "chainMember list \<Rightarrow> bool" where
  "goodKeys ms \<longleftrightarrow> ms \<noteq> [] \<and> (\<forall>m \<in> set ms. cmKey m \<noteq> [] \<and> CHR 0x0A \<notin> set (cmKey m))"

lemma joinLines_takeWhile:
  assumes "CHR 0x0A \<notin> set k"
  shows "takeWhile (\<lambda>c. c \<noteq> CHR 0x0A) (joinLines (k # ks)) = k"
    "dropWhile (\<lambda>c. c \<noteq> CHR 0x0A) (joinLines (k # ks)) = (if ks = [] then [] else CHR 0x0A # joinLines ks)"
proof -
  have all: "takeWhile (\<lambda>c. c \<noteq> CHR 0x0A) k = k" "dropWhile (\<lambda>c. c \<noteq> CHR 0x0A) k = []"
    using assms by (induction k) auto
  show "takeWhile (\<lambda>c. c \<noteq> CHR 0x0A) (joinLines (k # ks)) = k"
    using assms all by (cases ks) (auto simp: takeWhile_append2)
  show "dropWhile (\<lambda>c. c \<noteq> CHR 0x0A) (joinLines (k # ks)) = (if ks = [] then [] else CHR 0x0A # joinLines ks)"
    using assms all by (cases ks) (auto simp: dropWhile_append2)
qed

lemma joinLines_inj:
  "ks \<noteq> [] \<Longrightarrow> ks' \<noteq> [] \<Longrightarrow> \<forall>k \<in> set ks \<union> set ks'. CHR 0x0A \<notin> set k \<Longrightarrow> joinLines ks = joinLines ks' \<Longrightarrow> ks = ks'"
proof (induction ks arbitrary: ks')
  case (Cons k ks)
  obtain k' ls where ks': "ks' = k' # ls" using Cons.prems(2) by (cases ks') simp_all
  have nl: "CHR 0x0A \<notin> set k" "CHR 0x0A \<notin> set k'" using Cons.prems(3) ks' by simp_all
  have eq: "joinLines (k # ks) = joinLines (k' # ls)" using Cons.prems(4) ks' by simp
  have "k = k'" using joinLines_takeWhile(1) [OF nl(1), of ks] joinLines_takeWhile(1) [OF nl(2), of ls] eq by simp
  moreover have "(if ks = [] then [] else CHR 0x0A # joinLines ks) = (if ls = [] then [] else CHR 0x0A # joinLines ls)"
    using joinLines_takeWhile(2) [OF nl(1), of ks] joinLines_takeWhile(2) [OF nl(2), of ls] eq by simp
  then have "ks = ls" using Cons.IH [of ls] Cons.prems(3) ks' by (auto split: if_splits)
  ultimately show ?case by (simp add: ks')
qed simp

lemma chainID_inj:
  assumes "inj sha" "goodKeys ms" "goodKeys ns" "chainID sha ms = chainID sha ns"
  shows "contentsOf obj ms = contentsOf obj ns"
proof -
  have "joinLines (map cmKey ms) = joinLines (map cmKey ns)" using assms(1,4) by (simp add: chainID_def inj_eq)
  then have "map cmKey ms = map cmKey ns"
    using assms(2,3) by (intro joinLines_inj) (auto simp: goodKeys_def)
  then have "map (\<lambda>k. the (obj k)) (map cmKey ms) = map (\<lambda>k. the (obj k)) (map cmKey ns)" by simp
  then show ?thesis by (simp add: contentsOf_def comp_def)
qed

section \<open>The cache does not show\<close>

text \<open>Every entry the cache would use is the file its chain materializes to, under that file's checksum and hash.\<close>

definition entryHonest :: "(bytes \<Rightarrow> string) \<Rightarrow> (u64 \<times> bytes) option \<Rightarrow> (chainEntry \<times> sumRecord) option \<Rightarrow> bool" where
  "entryHonest fsha result entry \<longleftrightarrow>
     (case entry of
        None \<Rightarrow> True
      | Some (e, rec) \<Rightarrow>
          (case result of
             None \<Rightarrow> False
           | Some (sm, f) \<Rightarrow> srPostApply rec = sm \<and> srHash rec = fsha f \<and> enFile e \<in> {None, Some f}))"

definition honest :: "ltxCode \<Rightarrow> (string \<Rightarrow> string) \<Rightarrow> (bytes \<Rightarrow> string) \<Rightarrow> (key \<Rightarrow> content option) \<Rightarrow> chainCache \<Rightarrow> bool" where
  "honest lc sha fsha obj cache \<longleftrightarrow>
     (\<forall>ms. goodKeys ms \<longrightarrow> entryHonest fsha (runResult (chainRun lc (contentsOf obj ms))) (byChainEntry cache (chainID sha ms)))"

lemma honestD:
  "honest lc sha fsha obj cache \<Longrightarrow> goodKeys ms \<Longrightarrow>
     entryHonest fsha (runResult (chainRun lc (contentsOf obj ms))) (byChainEntry cache (chainID sha ms))"
  by (simp add: honest_def)

lemma byChainEntry_touch:
  "byChainEntry (touchLastUsed io cid cache) cid' =
     (case byChainEntry cache cid' of
        None \<Rightarrow> None
      | Some (e, rec) \<Rightarrow> Some (if cid' = cid then e\<lparr>enUsed := ioNow io\<rparr> else e, rec))"
  by (auto simp: byChainEntry_def touchLastUsed_def split: option.splits if_splits)

lemma honest_touch: "honest lc sha fsha obj cache \<Longrightarrow> honest lc sha fsha obj (touchLastUsed io cid cache)"
  by (auto simp: honest_def entryHonest_def byChainEntry_touch split: option.splits)

text \<open>Storing the file of a chain under its identifier, with a sidecar that is the old one or a new stamp.\<close>

lemma honest_put:
  assumes "honest lc sha fsha obj cache" "inj sha" "goodKeys ms" "runResult (chainRun lc (contentsOf obj ms)) = Some (sm, f)"
    and "x = (case map_of cache (chainID sha ms) of None \<Rightarrow> None | Some e \<Rightarrow> enSum e) \<or> (\<exists>rec. x = Some rec \<and> srPostApply rec = sm \<and> srHash rec = fsha f)"
  shows "honest lc sha fsha obj (mput (chainID sha ms) \<lparr>enFile = Some f, enSum = x, enUsed = u\<rparr> cache)"
  unfolding honest_def
proof (intro allI impI)
  fix ns
  assume ns: "goodKeys ns"
  let ?cache = "mput (chainID sha ms) \<lparr>enFile = Some f, enSum = x, enUsed = u\<rparr> cache"
  show "entryHonest fsha (runResult (chainRun lc (contentsOf obj ns))) (byChainEntry ?cache (chainID sha ns))"
  proof (cases "chainID sha ns = chainID sha ms")
    case False
    then show ?thesis using honestD [OF assms(1) ns] by (simp add: byChainEntry_def)
  next
    case True
    then have same: "runResult (chainRun lc (contentsOf obj ns)) = Some (sm, f)"
      using chainID_inj [OF assms(2) ns assms(3)] assms(4) by metis
    have "srPostApply rec = sm \<and> srHash rec = fsha f" if rs: "readSidecar x = Some rec" "srChainID rec = chainID sha ms" "srPostApply rec \<noteq> 0" for rec
      using assms(5)
    proof
      assume x: "x = (case map_of cache (chainID sha ms) of None \<Rightarrow> None | Some e \<Rightarrow> enSum e)"
      then obtain e where "map_of cache (chainID sha ms) = Some e" "enSum e = x"
        using rs(1) by (cases "map_of cache (chainID sha ms)") (auto simp: readSidecar_def)
      then have "byChainEntry cache (chainID sha ms) = Some (e, rec)" using rs by (simp add: byChainEntry_def)
      then show ?thesis using honestD [OF assms(1,3)] assms(4) by (simp add: entryHonest_def)
    next
      assume "\<exists>rec. x = Some rec \<and> srPostApply rec = sm \<and> srHash rec = fsha f"
      then show ?thesis using readSidecar_Some [OF rs(1)] by auto
    qed
    then show ?thesis using True by (auto simp: entryHonest_def same byChainEntry_def split: option.splits)
  qed
qed

lemma stampEntry_honest:
  assumes "honest lc sha fsha obj cache" "inj sha" "goodKeys ms" "runResult (chainRun lc (contentsOf obj ms)) = Some (sm, f)"
    and "stampEntry fsha io (chainID sha ms) sm f cache = (x, cache')"
  shows "honest lc sha fsha obj cache'" "x = Some rec \<Longrightarrow> srPostApply rec = sm \<and> srHash rec = fsha f \<and> cloneIntoPlace io cache' (chainID sha ms) \<in> {None, Some f}"
proof -
  have post: "srPostApply rec = sm \<and> srHash rec = h" if "StampSum g n h i sm c = Inr rec" for g n h i c rec
    using that by (auto simp: StampSum_def stampSumWithFingerprint_def Let_def split: option.splits)
  show "honest lc sha fsha obj cache'"
    using assms(5) post by (auto simp: stampEntry_def Let_def split: if_splits sum.splits intro!: honest_put [OF assms(1-4)])
  show "x = Some rec \<Longrightarrow> srPostApply rec = sm \<and> srHash rec = fsha f \<and> cloneIntoPlace io cache' (chainID sha ms) \<in> {None, Some f}"
    using assms(5) post by (auto simp: stampEntry_def Let_def cloneIntoPlace_def split: if_splits sum.splits)
qed

lemma goodKeys_take: "goodKeys ms \<Longrightarrow> 1 \<le> k \<Longrightarrow> goodKeys (take k ms)"
  unfolding goodKeys_def by (auto dest: in_set_takeD)

lemma prefixFrom_honest:
  assumes "quiet w" "stored (wObjs w) obj ms" "wholeStates lc (contentsOf obj ms)" "goodKeys ms" "honest lc sha fsha obj cache"
    and "k < length ms" "prefixFrom k lc sha io ms cache w = (x, cache', w')"
  shows "w' = w \<and> honest lc sha fsha obj cache' \<and> x \<in> {None, runResult (chainRun lc (contentsOf obj ms))}"
  using assms(6,7)
proof (induction k)
  case (Suc k)
  let ?cid = "chainID sha (take (Suc k) ms)"
  show ?case
  proof (cases "byChainEntry cache ?cid")
    case None
    then show ?thesis using Suc by (simp add: Let_def)
  next
    case (Some er)
    obtain e rec where er: "er = (e, rec)" by (cases er)
    have "entryHonest fsha (runResult (chainRun lc (contentsOf obj (take (Suc k) ms)))) (Some (e, rec))"
      using honestD [OF assms(5) goodKeys_take [OF assms(4), of "Suc k"]] Some er by simp
    then obtain f where f: "runResult (chainRun lc (contentsOf obj (take (Suc k) ms))) = Some (srPostApply rec, f)"
      "enFile e \<in> {None, Some f}" by (auto simp: entryHonest_def split: option.splits)
    obtain r where r: "runResult (chainRun lc (contentsOf obj ms)) = Some r"
      "extendEntry lc (Some f) (srPostApply rec) (drop (Suc k) ms) w = (Inr r, w)"
      using extendEntry_run [OF assms(1-3) _ Suc.prems(1) f(1)] by auto
    have none: "extendEntry lc None (srPostApply rec) (drop (Suc k) ms) w = (Inl (plain_err ''open''), w)"
      using Suc.prems(1) by (simp add: extendEntry_def)
    show ?thesis
      using Suc.prems(2) f(2) r none honest_touch [OF assms(5)] assms(5) by (auto simp: Let_def Some er)
  qed
qed (use assms(5) in simp)

lemma applyLongestPrefix_honest:
  assumes "quiet w" "stored (wObjs w) obj ms" "wholeStates lc (contentsOf obj ms)" "goodKeys ms" "honest lc sha fsha obj cache"
    and "applyLongestPrefix lc sha io ms cache w = (x, cache', w')"
  shows "w' = w" "honest lc sha fsha obj cache'" "x \<in> {None, runResult (chainRun lc (contentsOf obj ms))}"
  using prefixFrom_honest [OF assms(1-5), of "length ms - 1" io x cache' w'] assms(4,6)
  by (auto simp: applyLongestPrefix_def goodKeys_def)

lemma wholeStates_result:
  assumes "wholeStates lc (contentsOf obj ms)" "goodKeys ms"
  shows "\<exists>sm f. runResult (chainRun lc (contentsOf obj ms)) = Some (sm, f)"
proof -
  have len: "1 \<le> length (contentsOf obj ms)" using assms(2) by (cases ms) (simp_all add: goodKeys_def)
  obtain ps pm pc run f where "chainRun lc (contentsOf obj ms) = Inr (ps, (pm, pc, run), f)"
    by (rule wholeStates_prefix [OF assms(1) len le_refl]) simp
  then show ?thesis by (simp add: runResult_def)
qed

lemma materializeMembersAt_Some:
  assumes "quiet w" "stored (wObjs w) obj ms" "runResult (chainRun lc (contentsOf obj ms)) = Some r"
  shows "materializeMembersAt streams lc ms w = (Inr r, w)"
  using materializeMembersAt_quiet [OF assms(1,2), of streams lc] assms(3)
  by (cases "materializeMembersAt streams lc ms w"; cases "fst (materializeMembersAt streams lc ms w)") auto

lemma buildByChainEntry_honest:
  assumes "quiet w" "stored (wObjs w) obj ms" "wholeStates lc (contentsOf obj ms)" "goodKeys ms" "honest lc sha fsha obj cache" "inj sha"
    and "buildByChainEntry streams lc sha fsha io ms cache w = (x, cache', w')"
    and r: "runResult (chainRun lc (contentsOf obj ms)) = Some (sm, f)"
  shows "w' = w" "honest lc sha fsha obj cache'"
    "x = Some (kind, rec) \<Longrightarrow> srPostApply rec = sm \<and> srHash rec = fsha f \<and> cloneIntoPlace io cache' (chainID sha ms) \<in> {None, Some f}"
proof -
  obtain y cache1 w1 where l: "applyLongestPrefix lc sha io ms cache w = (y, cache1, w1)" by (metis prod_cases3)
  note h = applyLongestPrefix_honest [OF assms(1-5) l]
  obtain z cache2 where st: "stampEntry fsha io (chainID sha ms) sm f cache1 = (z, cache2)" by fastforce
  note sh = stampEntry_honest [OF h(2) assms(6,4) r st]
  have m: "materializeMembersAt streams lc ms w1 = (Inr (sm, f), w)"
    using materializeMembersAt_Some [OF assms(1,2) r] h(1) by simp
  have y: "y = None \<or> y = Some (sm, f)" using h(3) r by simp
  have "\<not> ioStage io \<and> x = None \<and> cache' = cache \<and> w' = w \<or>
      cache' = cache2 \<and> w' = w \<and> (z = None \<and> x = None \<or> (\<exists>k rec'. z = Some rec' \<and> x = Some (k, rec')))"
    using assms(7) y h(1) m st by (auto simp: buildByChainEntry_def l split: if_splits option.splits)
  then show "w' = w" "honest lc sha fsha obj cache'"
    "x = Some (kind, rec) \<Longrightarrow> srPostApply rec = sm \<and> srHash rec = fsha f \<and> cloneIntoPlace io cache' (chainID sha ms) \<in> {None, Some f}"
    using assms(5) sh by auto
qed

lemma materializeFromChain_run:
  assumes "quiet w" "stored (wObjs w) obj ms" "wholeStates lc (contentsOf obj ms)" "goodKeys ms" "inj sha"
    and "honest lc sha fsha obj cache"
  shows "\<exists>kind sm hash f cache'.
    materializeFromChain streams lc sha fsha io ms cache w = (Inr (kind, sm, hash, f), cache', w) \<and>
    materializeMembersAt streams lc ms w = (Inr (sm, f), w) \<and> hash \<in> {[], fsha f} \<and> honest lc sha fsha obj cache'"
proof -
  obtain sm f where r: "runResult (chainRun lc (contentsOf obj ms)) = Some (sm, f)"
    using wholeStates_result [OF assms(3,4)] by blast
  have m: "materializeMembersAt streams lc ms w = (Inr (sm, f), w)" by (rule materializeMembersAt_Some [OF assms(1,2) r])
  obtain x cache2 w2 where b: "buildByChainEntry streams lc sha fsha io ms cache w = (x, cache2, w2)" by (metis prod_cases3)
  note h = buildByChainEntry_honest [OF assms(1-4,6,5) b r]
  have entry: "srPostApply rec = sm \<and> srHash rec = fsha f \<and> cloneIntoPlace io cache (chainID sha ms) \<in> {None, Some f}"
    if "byChainEntry cache (chainID sha ms) = Some (e, rec)" for e rec
    using honestD [OF assms(6,4)] that r
    by (auto simp: entryHonest_def cloneIntoPlace_def byChainEntry_def split: option.splits if_splits)
  obtain res cache' w' where run: "materializeFromChain streams lc sha fsha io ms cache w = (res, cache', w')" by (metis prod_cases3)
  have "w' = w \<and> honest lc sha fsha obj cache' \<and> (\<exists>kind hash. res = Inr (kind, sm, hash, f) \<and> hash \<in> {[], fsha f})"
    using run m h b entry assms(6) honest_touch [OF assms(6)]
    by (auto simp: materializeFromChain_def Let_def split: option.splits if_splits prod.splits)
  then show ?thesis using run m by blast
qed

text \<open>C16: the by-chain cache does not show. For a chain whose objects the store holds and whose every state is a
  database, a cache whose entries are what their chains materialize to makes \<^verbatim>\<open>materializeFromChain\<close> return the
  file and the checksum that fetching and applying the whole chain returns, whether it cloned an entry, extended
  the longest cached prefix, built an entry or could do none of these; the hash it returns, if any, is the file's, and
  the cache it leaves is again such a cache. SHA-256 is taken to have no collisions.
\<close>

theorem byChain_cache_transparent:
  assumes "quiet w" "stored (wObjs w) obj ms" "wholeStates lc (contentsOf obj ms)" "goodKeys ms" "inj sha"
    and "honest lc sha fsha obj cache"
  shows "\<exists>kind sm hash f cache'.
    materializeFromChain streams lc sha fsha io ms cache w = (Inr (kind, sm, hash, f), cache', w) \<and>
    materializeMembersAt streams lc ms w = (Inr (sm, f), w) \<and> hash \<in> {[], fsha f} \<and> honest lc sha fsha obj cache'"
  by (rule materializeFromChain_run [OF assms])

definition sampleSnapshot :: snapshot where
  "sampleSnapshot = \<lparr>snPageSize = 512, snCommit = 1, snMax = 1, snPages = [], snPost = 9223372036854776069\<rparr>"

definition sampleCode :: "segment \<Rightarrow> ltxCode" where
  "sampleCode sg =
     \<lparr>lcLib = sampleLib, lcSnapshot = (\<lambda>_. Inr (samplePage 5)),
      lcObject = (\<lambda>c. if Some c = map_of sampleStore (cmKey snap1) then Some (SnapshotOf sampleSnapshot) else Some (SegmentOf sg))\<rparr>"

lemma sample_segment:
  "\<exists>sg. applySegment sampleLib 512 1 1 9223372036854776069 sg (samplePage 5) = Inr (samplePage 4) \<and> sgMax sg = 2 \<and> sgCommit sg = 1"
proof -
  obtain d where d: "diffPages sampleLib (samplePage 4) (samplePage 5) 9223372036854776069 = Inr d" "dlCommit d = 1"
    using sampleDiff by blast
  let ?sg = "\<lparr>sgPageSize = 512, sgCommit = dlCommit d, sgMin = 2, sgMax = 2, sgPre = 9223372036854776069, sgPages = dlPages d, sgPost = dlPost d\<rparr>"
  have whole: "wholeDb 512 1 (samplePage t)" for t by (simp add: wholeDb_def samplePage_facts)
  obtain f where f: "applySegment sampleLib 512 (2 - 1) 1 9223372036854776069 ?sg (samplePage 5) = Inr f" "wholeDb 512 (dlCommit d) f"
    "\<forall>p \<in> dataPages sampleLib 512 (dlCommit d). pageOf 512 f p = pageOf 512 (samplePage 4) p"
    using diffPages_applies [OF d(1) _ samplePage_header(2) whole _ refl, of 2] by (elim exE conjE meta_impE) simp_all
  have lock: "(1 :: u32) < lxLockPgno sampleLib 512" by code_simp
  have "f = samplePage 4"
  proof (rule whole_eq)
    show "wholeDb 512 1 f" "wholeDb 512 1 (samplePage 4)" using f(2) whole d(2) by simp_all
    show "pageOf 512 f p = pageOf 512 (samplePage 4) p" if "1 \<le> p" "p \<le> 1" for p
    proof -
      have "p \<in> dataPages sampleLib 512 (dlCommit d)" unfolding dataPages_def d(2) mem_Collect_eq
        using that lock by (metis order.strict_iff_not order_antisym)
      then show ?thesis by (rule bspec [OF f(3)])
    qed
  qed
  then show ?thesis using f(1) d(2) by (intro exI [of _ ?sg]) simp
qed

lemma sample_states:
  "\<exists>lc. stored (wObjs sampleWorld) (map_of sampleStore) [snap1, seg2] \<and> wholeStates lc (contentsOf (map_of sampleStore) [snap1, seg2])"
proof -
  obtain sg where sg: "applySegment sampleLib 512 1 1 9223372036854776069 sg (samplePage 5) = Inr (samplePage 4)"
    "sgMax sg = 2" "sgCommit sg = 1" using sample_segment by blast
  let ?lc = "sampleCode sg"
  have obj: "map_of sampleStore (cmKey snap1) = Some (CRaw ''A'')" "map_of sampleStore (cmKey seg2) = Some (CRaw ''B'')" by code_simp+
  have "localGet sampleStore (cmKey snap1) = Inr (CRaw ''A'', ETagOf (CRaw ''A''))"
    "localGet sampleStore (cmKey seg2) = Inr (CRaw ''B'', ETagOf (CRaw ''B''))" by code_simp+
  then have st: "stored (wObjs sampleWorld) (map_of sampleStore) [snap1, seg2]"
    by (simp add: stored_def sampleWorld_def obj)
  have ab: "asSnapshot ?lc (CRaw ''A'') = Inr sampleSnapshot" "asSegment ?lc (CRaw ''B'') = Inr sg"
    by (simp_all add: asSnapshot_def asSegment_def sampleCode_def obj)
  have run: "chainRun ?lc [CRaw ''A''] = Inr (512, (1, 1, 9223372036854776069), samplePage 5)"
    "chainRun ?lc [CRaw ''A'', CRaw ''B''] = Inr (512, (2, 1, sgPost sg), samplePage 4)"
    using ab sg by (simp_all add: chainRun_def decodeSnapshot_def) (simp_all add: sampleCode_def sampleSnapshot_def)
  have whole: "wholeStates ?lc (contentsOf (map_of sampleStore) [snap1, seg2])"
  proof -
    have "{1..Suc (Suc 0)} = {1, 2}" by auto
    then show ?thesis by (simp add: wholeStates_def obj run samplePage_header numeral_2_eq_2)
  qed
  show ?thesis using st whole by blast
qed

theorem byChain_cache_transparent_witness:
  "\<exists>lc. quiet sampleWorld \<and> stored (wObjs sampleWorld) (map_of sampleStore) [snap1, seg2] \<and>
     wholeStates lc (contentsOf (map_of sampleStore) [snap1, seg2]) \<and> goodKeys [snap1, seg2] \<and> inj (\<lambda>x :: string. x) \<and>
     honest lc (\<lambda>x. x) sampleSha (map_of sampleStore) [] \<and>
     (\<exists>kind sm hash f cache'.
        materializeFromChain True lc (\<lambda>x. x) sampleSha
          \<lparr>ioClone = True, ioProbe = True, ioStage = True, ioStamp = True, ioNow = 5\<rparr> [snap1, seg2] [] sampleWorld =
          (Inr (kind, sm, hash, f), cache', sampleWorld) \<and> honest lc (\<lambda>x. x) sampleSha (map_of sampleStore) cache')"
proof -
  obtain lc where st: "stored (wObjs sampleWorld) (map_of sampleStore) [snap1, seg2]"
    and whole: "wholeStates lc (contentsOf (map_of sampleStore) [snap1, seg2])" using sample_states by blast
  have good: "goodKeys [snap1, seg2]" by code_simp
  have hon: "honest lc (\<lambda>x. x) sampleSha (map_of sampleStore) []" by (simp add: honest_def entryHonest_def byChainEntry_def)
  have ij: "inj (\<lambda>x :: string. x)" by (simp add: inj_def)
  show ?thesis using byChain_cache_transparent [OF sampleWorld_quiet st whole good ij hon] sampleWorld_quiet st whole good ij hon
    by (intro exI [of _ lc]) blast
qed

end
