(* ===== verification/Repoint.thy ===== *)
theory Repoint
  imports Branches Checkpoint_Safety Reading
begin

text \<open>
  Operations that put a branch on a fresh lineage: \<^verbatim>\<open>createFromQuiesced\<close>, \<^verbatim>\<open>forkWith\<close>, \<^verbatim>\<open>RollbackWith\<close>,
  \<^verbatim>\<open>PromoteWith\<close> and \<^verbatim>\<open>CompactWith\<close> of \<^verbatim>\<open>internal/ops/ops.go\<close>, with the share-or-copy decision of
  \<^verbatim>\<open>newLineageAt\<close>, the safety fork, and \<^verbatim>\<open>settleRepoint\<close>, which tells what became of a ref write that reported
  a failure. A new lineage is either a base pointer into the old one or a self-contained snapshot.

  The world is that of \<^verbatim>\<open>Backend\<close>. What a call meets outside the store is its environment: clocks, the lineage
  it mints, the workspace's snapshot interval, the coding of objects, the source checkout's sidecar. Warnings,
  observers and test hooks are left out; messages are shortened. Go ranges over the kept checkpoints in no fixed
  order, the model in the order of their names.
\<close>

section \<open>Environment\<close>

record repointEnv =
  reNow :: int
  reTouch :: int
  reStamp :: string
  reFresh :: string
  reEvery :: int
  reV2 :: bool
  reSidecar :: "sumRecord option"
  reStreams :: bool
  reCode :: ltxCode
  reEncode :: "payload \<Rightarrow> content"

definition headCheckpoint :: "ref \<Rightarrow> checkpoint" where
  "headCheckpoint r = \<lparr>cpTXID = rHeadTXID r, cpEpoch = rHeadEpoch r, cpCreatedAt = [], cpMeta = [], cpKind = []\<rparr>"

definition errNoCheckpoint :: err where
  "errNoCheckpoint = plain_err ''ops: no such checkpoint on the branch''"

text \<open>\<^verbatim>\<open>Store.Chain\<close> as these operations call it.\<close>

definition storeChain :: "string \<Rightarrow> u64 \<Rightarrow> world \<Rightarrow> (err + chainMember list) \<times> world" where
  "storeChain lineage txid w =
     (case readView w of (v, w1) \<Rightarrow>
        (case Chain v lineage txid of
           Inl e \<Rightarrow> (Inl (wrap_err ''ops: resolving chain'' e), w1)
         | Inr ms \<Rightarrow> (Inr ms, w1)))"

text \<open>The chain at a checkpoint: at head the checkout's record may serve it.\<close>

definition chainAtCheckpoint :: "repointEnv \<Rightarrow> ref \<Rightarrow> checkpoint \<Rightarrow> world \<Rightarrow> (err + chainMember list) \<times> world" where
  "chainAtCheckpoint env r cp w =
     (if cpTXID cp = rHeadTXID r
      then (case headChain (reSidecar env) r w of
              (Inl e, w1) \<Rightarrow> (Inl (wrap_err ''ops: resolving chain'' e), w1)
            | (Inr ms, w1) \<Rightarrow> (Inr ms, w1))
      else storeChain (rLineage r) (cpTXID cp) w)"

section \<open>Settling a ref write\<close>

datatype repointVerdict = RepointLanded | RepointNotLanded | RepointUnknown

definition settleRepoint ::
  "string \<Rightarrow> string \<Rightarrow> string \<Rightarrow> string \<Rightarrow> err \<Rightarrow> world \<Rightarrow> (err + repointVerdict) \<times> world" where
  "settleRepoint db branch lineage prevLineage putErr w =
     (case GetRef db branch w of
        (Inl gerr, w1) \<Rightarrow>
          if errors_is gerr ErrNotFound then (Inr RepointUnknown, w1)
          else (Inl (wrap_err ''ops: the ref write failed and the ref could not be re-read; the write may have landed'' putErr), w1)
      | (Inr (r, _), w1) \<Rightarrow>
          if rLineage r = lineage then (Inr RepointLanded, w1)
          else if prevLineage \<noteq> [] \<and> rLineage r = prevLineage then (Inr RepointNotLanded, w1)
          else (Inr RepointUnknown, w1))"

definition cleanupKeys :: "key list \<Rightarrow> world \<Rightarrow> world" where
  "cleanupKeys ks w = fold bestEffortDelete ks w"

text \<open>The ref write of rollback, promote and compact with what follows a failure of it: \<^verbatim>\<open>None\<close> when the branch
  is on its new lineage.\<close>

definition repointRef ::
  "string \<Rightarrow> string \<Rightarrow> ref \<Rightarrow> etag \<Rightarrow> string \<Rightarrow> key list \<Rightarrow> string \<Rightarrow> world \<Rightarrow> err option \<times> world" where
  "repointRef db branch r etag prevLineage copies lost w =
     (case PutRef db branch r etag w of
        (Inr _, w1) \<Rightarrow> (None, w1)
      | (Inl e, w1) \<Rightarrow>
          (case settleRepoint db branch (rLineage r) prevLineage e w1 of
             (Inl serr, w2) \<Rightarrow> (Some serr, w2)
           | (Inr RepointLanded, w2) \<Rightarrow> (None, w2)
           | (Inr RepointNotLanded, w2) \<Rightarrow> (Some (wrap_err lost e), cleanupKeys copies w2)
           | (Inr RepointUnknown, w2) \<Rightarrow> (Some (wrap_err lost e), w2)))"

text \<open>The create-only ref write of fork and create, which has no previous lineage.\<close>

definition createRef :: "string \<Rightarrow> string \<Rightarrow> ref \<Rightarrow> string \<Rightarrow> string \<Rightarrow> world \<Rightarrow> err option \<times> world" where
  "createRef db branch r exists verb w =
     (case PutRef db branch r NoETag w of
        (Inr _, w1) \<Rightarrow> (None, w1)
      | (Inl e, w1) \<Rightarrow>
          (case settleRepoint db branch (rLineage r) [] e w1 of
             (Inl serr, w2) \<Rightarrow> (Some serr, w2)
           | (Inr v, w2) \<Rightarrow>
               if v = RepointLanded then (None, w2)
               else if errors_is e ErrCAS then (Some (plain_err exists), w2)
               else (Some (wrap_err verb e), w2)))"

section \<open>A fresh lineage\<close>

definition copySnapshotIntoLineageFromChain ::
  "repointEnv \<Rightarrow> chainMember list \<Rightarrow> checkpoint \<Rightarrow> string \<Rightarrow> world \<Rightarrow> (err + key) \<times> world" where
  "copySnapshotIntoLineageFromChain env members cp dst w =
     (case materializeMembersAt (reStreams env) (reCode env) members w of
        (Inl e, w1) \<Rightarrow> (Inl (wrap_err ''ops: materializing for copy'' e), w1)
      | (Inr (_, f), w1) \<Rightarrow>
          (case EncodeSnapshot (lcLib (reCode env)) 0 f (cpTXID cp) of
             Inl e \<Rightarrow> (Inl e, w1)
           | Inr (sn, _) \<Rightarrow>
               let key = SnapshotKey dst 1 (cpTXID cp) in
               (case bPutIf key (reEncode env (SnapshotOf sn)) NoETag w1 of
                  (Inl e, w2) \<Rightarrow> (Inl e, w2)
                | (Inr _, w2) \<Rightarrow> (Inr key, w2))))"

definition copySnapshotIntoLineage ::
  "repointEnv \<Rightarrow> ref \<Rightarrow> checkpoint \<Rightarrow> string \<Rightarrow> world \<Rightarrow> (err + key) \<times> world" where
  "copySnapshotIntoLineage env src cp lineage w =
     (case storeChain (rLineage src) (cpTXID cp) w of
        (Inl e, w1) \<Rightarrow> (Inl e, w1)
      | (Inr ms, w1) \<Rightarrow> copySnapshotIntoLineageFromChain env ms cp lineage w1)"

definition tryFastForkCopy :: "chainMember list \<Rightarrow> checkpoint \<Rightarrow> string \<Rightarrow> world \<Rightarrow> (err + bool) \<times> world" where
  "tryFastForkCopy members cp lineage w =
     (case members of
        [m] \<Rightarrow>
          if \<not> cmSnapshot m then (Inr False, w)
          else (case bCopyObject (SnapshotKey lineage 1 (cpTXID cp)) (cmKey m) w of
                  (Some e, w1) \<Rightarrow>
                    if errors_is e ErrCopyUnsupported then (Inr False, w1)
                    else (Inl (wrap_err ''ops: fast-path fork copy'' e), w1)
                | (None, w1) \<Rightarrow>
                    (case storeChain lineage (cpTXID cp) w1 of
                       (Inl e, w2) \<Rightarrow> (Inl (wrap_err ''ops: fast-path fork copy: child chain did not resolve'' e), w2)
                     | (Inr _, w2) \<Rightarrow> (Inr True, w2)))
      | _ \<Rightarrow> (Inr False, w))"

definition copySnapshotToNewLineageFromChain ::
  "repointEnv \<Rightarrow> checkpoint \<Rightarrow> chainMember list \<Rightarrow> world \<Rightarrow> (err + string \<times> bool) \<times> world" where
  "copySnapshotToNewLineageFromChain env cp members w =
     (let lineage = reFresh env in
      case tryFastForkCopy members cp lineage w of
        (Inl e, w1) \<Rightarrow> (Inl e, w1)
      | (Inr True, w1) \<Rightarrow> (Inr (lineage, True), w1)
      | (Inr False, w1) \<Rightarrow>
          (case copySnapshotIntoLineageFromChain env members cp lineage w1 of
             (Inl e, w2) \<Rightarrow> (Inl e, w2)
           | (Inr _, w2) \<Rightarrow> (Inr (lineage, False), w2)))"

definition copySnapshotToNewLineage ::
  "repointEnv \<Rightarrow> ref \<Rightarrow> checkpoint \<Rightarrow> world \<Rightarrow> (err + string \<times> bool) \<times> world" where
  "copySnapshotToNewLineage env src cp w =
     (case storeChain (rLineage src) (cpTXID cp) w of
        (Inl e, w1) \<Rightarrow> (Inl e, w1)
      | (Inr ms, w1) \<Rightarrow> copySnapshotToNewLineageFromChain env cp ms w1)"

definition shareBound :: "repointEnv \<Rightarrow> nat" where
  "shareBound env = (if reEvery env > 0 then nat (reEvery env) else ForkShareMaxDepth)"

definition materializes :: "repointEnv \<Rightarrow> chainMember list \<Rightarrow> bool \<Rightarrow> bool" where
  "materializes env members materialize \<longleftrightarrow> materialize \<or> length members \<ge> shareBound env"

text \<open>\<^verbatim>\<open>EnsureLayoutV2\<close> with one round more than there are events left, which is always enough.\<close>

definition ensureLayout :: "bool \<Rightarrow> world \<Rightarrow> err option \<times> world" where
  "ensureLayout atLeastV2 w =
     (case EnsureLayoutV2 (Suc (length (wScript w))) atLeastV2 w of
        Some ((e, _), w1) \<Rightarrow> (e, w1)
      | None \<Rightarrow> (Some (plain_err ''unreachable''), w))"

text \<open>The lineage, its base pointer when it shares, and whether a copy took the fast path.\<close>

definition newLineageAt ::
  "repointEnv \<Rightarrow> ref \<Rightarrow> checkpoint \<Rightarrow> chainMember list \<Rightarrow> bool \<Rightarrow> world \<Rightarrow>
     (err + string \<times> basePointer option \<times> bool) \<times> world" where
  "newLineageAt env src cp members materialize w =
     (if materializes env members materialize
      then (case copySnapshotToNewLineageFromChain env cp members w of
              (Inl e, w1) \<Rightarrow> (Inl e, w1)
            | (Inr (lineage, fast), w1) \<Rightarrow> (Inr (lineage, None, fast), w1))
      else (case readView w of (v, w1) \<Rightarrow>
              (case CollapseBase v (rLineage src) (cpTXID cp) of
                 Inl e \<Rightarrow> (Inl (wrap_err ''ops: resolving base'' e), w1)
               | Inr baseLineage \<Rightarrow>
                   (case ensureLayout (reV2 env) w1 of
                      (Some e, w2) \<Rightarrow> (Inl (wrap_err ''ops'' e), w2)
                    | (None, w2) \<Rightarrow>
                        let bp = \<lparr>bpLineage = baseLineage, bpTXID = cpTXID cp\<rparr> in
                        (case WriteLineageBase (reFresh env) bp w2 of
                           (Some e, w3) \<Rightarrow> (Inl (wrap_err ''ops'' e), w3)
                         | (None, w3) \<Rightarrow> (Inr (reFresh env, Some bp, False), w3))))))"

section \<open>Create and fork\<close>

definition blankRef :: ref where
  "blankRef =
     \<lparr>rSchema = 0, rLineage = [], rEpoch = 0, rHeadTXID = 0, rHeadEpoch = 0, rCheckpoints = [], rParent = [],
      rProtected = False, rLeaseHolder = [], rLeaseExpiry = NoStamp, rTTL = NoTTL, rTouchedAt = NoStamp,
      rReaping = False, rDeleting = False, rDeletingAt = NoStamp, rMeta = [], rBase = None\<rparr>"

definition snapshotTo :: "repointEnv \<Rightarrow> nat \<Rightarrow> bytes \<Rightarrow> u64 \<Rightarrow> world \<Rightarrow> (err + string) \<times> world" where
  "snapshotTo env wal f txid w =
     (case EncodeSnapshot (lcLib (reCode env)) wal f txid of
        Inl e \<Rightarrow> (Inl e, w)
      | Inr (sn, _) \<Rightarrow>
          (case bPutIf (SnapshotKey (reFresh env) 1 txid) (reEncode env (SnapshotOf sn)) NoETag w of
             (Inl e, w1) \<Rightarrow> (Inl e, w1)
           | (Inr _, w1) \<Rightarrow> (Inr (reFresh env), w1)))"

definition createdRef :: "repointEnv \<Rightarrow> ref" where
  "createdRef env =
     SetCheckpoint ''init'' \<lparr>cpTXID = 1, cpEpoch = 1, cpCreatedAt = reStamp env, cpMeta = [], cpKind = ''snapshot''\<rparr>
       (blankRef\<lparr>rLineage := reFresh env, rEpoch := 1, rHeadTXID := 1, rProtected := True\<rparr>)"

definition createFromQuiesced :: "repointEnv \<Rightarrow> string \<Rightarrow> nat \<Rightarrow> bytes \<Rightarrow> world \<Rightarrow> err option \<times> world" where
  "createFromQuiesced env db wal f w =
     (case bList (RefKey db []) w of
        (Inl e, w1) \<Rightarrow> (Some (wrap_err ''ops: create'' e), w1)
      | (Inr keys, w1) \<Rightarrow>
          if keys \<noteq> [] then (Some (plain_err ''ops: database already exists''), w1)
          else (case snapshotTo env wal f 1 w1 of
                  (Inl e, w2) \<Rightarrow> (Some e, w2)
                | (Inr _, w2) \<Rightarrow>
                    createRef db ''main'' (createdRef env) ''ops: database already exists'' ''ops: create'' w2))"

definition forkedRef ::
  "repointEnv \<Rightarrow> string \<Rightarrow> string \<Rightarrow> int \<Rightarrow> string byname \<Rightarrow> u64 \<Rightarrow> string \<Rightarrow> basePointer option \<Rightarrow> ref" where
  "forkedRef env db srcBranch ttl meta txid lineage base =
     SetCheckpoint ''fork'' \<lparr>cpTXID = txid, cpEpoch = 1, cpCreatedAt = reStamp env, cpMeta = [], cpKind = []\<rparr>
       (refTouch (reTouch env)
          (blankRef\<lparr>rLineage := lineage, rEpoch := 1, rHeadTXID := txid, rHeadEpoch := 1,
                    rParent := db @ ''@'' @ srcBranch @ ''@'' @ fmtD txid, rMeta := meta, rBase := base,
                    rTTL := (if ttl > 0 then TTL ttl else NoTTL)\<rparr>))"

text \<open>The checkpoint a fork starts from: head, or the one \<^verbatim>\<open>at\<close> names.\<close>

definition forkPoint :: "ref \<Rightarrow> string \<Rightarrow> err + checkpoint" where
  "forkPoint src at =
     (if at = [] then Inr (headCheckpoint src)
      else case ValidateName at of
             Some e \<Rightarrow> Inl e
           | None \<Rightarrow> (case map_of (rCheckpoints src) at of None \<Rightarrow> Inl errNoCheckpoint | Some c \<Rightarrow> Inr c))"

text \<open>A materialized fork refuses a taken name before it copies anything.\<close>

definition forkNameFree :: "repointEnv \<Rightarrow> string \<Rightarrow> string \<Rightarrow> chainMember list \<Rightarrow> world \<Rightarrow> err option \<times> world" where
  "forkNameFree env db newBranch members w =
     (if \<not> materializes env members False then (None, w)
      else case bGet (RefKey db newBranch) w of
             (Inr _, w1) \<Rightarrow> (Some (plain_err ''ops: branch already exists''), w1)
           | (Inl e, w1) \<Rightarrow> if errors_is e ErrNotFound then (None, w1) else (Some (wrap_err ''ops: fork'' e), w1))"

definition forkAt ::
  "repointEnv \<Rightarrow> string \<Rightarrow> string \<Rightarrow> string \<Rightarrow> int \<Rightarrow> string byname \<Rightarrow> ref \<Rightarrow> checkpoint \<Rightarrow> world \<Rightarrow> (err + u64) \<times> world" where
  "forkAt env db srcBranch newBranch ttl meta src cp w =
     (case chainAtCheckpoint env src cp w of
        (Inl e, w1) \<Rightarrow> (Inl e, w1)
      | (Inr members, w1) \<Rightarrow>
          (case forkNameFree env db newBranch members w1 of
             (Some e, w2) \<Rightarrow> (Inl e, w2)
           | (None, w2) \<Rightarrow>
               (case newLineageAt env src cp members False w2 of
                  (Inl e, w3) \<Rightarrow> (Inl e, w3)
                | (Inr (lineage, base, _), w3) \<Rightarrow>
                    (case createRef db newBranch (forkedRef env db srcBranch ttl meta (cpTXID cp) lineage base)
                            ''ops: branch already exists'' ''ops: fork'' w3 of
                       (Some e, w4) \<Rightarrow> (Inl e, w4)
                     | (None, w4) \<Rightarrow> (Inr (cpTXID cp), w4)))))"

definition forkWith ::
  "repointEnv \<Rightarrow> string \<Rightarrow> string \<Rightarrow> string \<Rightarrow> string \<Rightarrow> int \<Rightarrow> string byname \<Rightarrow> world \<Rightarrow> (err + u64) \<times> world" where
  "forkWith env db srcBranch newBranch at ttl meta w =
     (if ttl < 0 then (Inl (plain_err ''ops: fork ttl must be zero (no TTL) or positive''), w)
      else case ValidateName newBranch of
        Some e \<Rightarrow> (Inl e, w)
      | None \<Rightarrow>
          (case ValidateMeta meta of
             Some e \<Rightarrow> (Inl e, w)
           | None \<Rightarrow>
               (case GetRef db srcBranch w of
                  (Inl e, w1) \<Rightarrow> (Inl e, w1)
                | (Inr (src, _), w1) \<Rightarrow>
                    (case forkPoint src at of
                       Inl e \<Rightarrow> (Inl e, w1)
                     | Inr cp \<Rightarrow> forkAt env db srcBranch newBranch ttl meta src cp w1))))"

section \<open>The safety fork\<close>

definition RollbackBackupSuffix :: string where "RollbackBackupSuffix = ''-pre-rollback''"
definition RollbackBackupMetaKey :: string where "RollbackBackupMetaKey = ''offshoot.pre-rollback''"
definition PromoteBackupSuffix :: string where "PromoteBackupSuffix = ''-pre-promote''"
definition PromoteBackupMetaKey :: string where "PromoteBackupMetaKey = ''offshoot.pre-promote''"
definition DefaultPromoteBackupTTL :: int where "DefaultPromoteBackupTTL = 24 * 3600 * 1000000000"

definition metaAt :: "ref \<Rightarrow> string \<Rightarrow> string" where
  "metaAt r k = (case map_of (rMeta r) k of None \<Rightarrow> [] | Some v \<Rightarrow> v)"

text \<open>\<^verbatim>\<open>Some\<close> is a refusal; \<^verbatim>\<open>None\<close> means that the name is free now.\<close>

definition replaceSafetyFork :: "destroyEnv \<Rightarrow> string \<Rightarrow> string \<Rightarrow> string \<Rightarrow> string \<Rightarrow> world \<Rightarrow> err option \<times> world" where
  "replaceSafetyFork denv db branch name metaKey w =
     (case GetRef db name w of
        (Inl e, w1) \<Rightarrow> if errors_is e ErrNotFound then (None, w1) else (Some e, w1)
      | (Inr (existing, _), w1) \<Rightarrow>
          if metaAt existing metaKey \<noteq> branch
          then (Some (plain_err ''ops: already exists and is not a safety fork of the branch''), w1)
          else (case Destroy denv db name False w1 of
                  (Some e, w2) \<Rightarrow> (Some (plain_err (''ops: replacing the previous safety fork: '' @ err_text e)), w2)
                | (None, w2) \<Rightarrow> (None, w2)))"

definition safetyFork ::
  "repointEnv \<Rightarrow> destroyEnv \<Rightarrow> string \<Rightarrow> string \<Rightarrow> string \<Rightarrow> string \<Rightarrow> int \<Rightarrow> world \<Rightarrow> (err + string) \<times> world" where
  "safetyFork env denv db branch suffix metaKey ttl w =
     (let name = branch @ suffix in
      case ValidateName name of
        Some e \<Rightarrow> (Inl (wrap_err ''ops: cannot name the safety fork'' e), w)
      | None \<Rightarrow>
          (case replaceSafetyFork denv db branch name metaKey w of
             (Some e, w1) \<Rightarrow> (Inl e, w1)
           | (None, w1) \<Rightarrow>
               (case forkWith env db branch name [] (if ttl \<le> 0 then DefaultPromoteBackupTTL else ttl) [(metaKey, branch)] w1 of
                  (Inl e, w2) \<Rightarrow> (Inl (wrap_err ''ops: safety fork'' e), w2)
                | (Inr _, w2) \<Rightarrow> (Inr name, w2))))"

definition promoteBackup :: "repointEnv \<Rightarrow> destroyEnv \<Rightarrow> string \<Rightarrow> string \<Rightarrow> int \<Rightarrow> world \<Rightarrow> (err + string) \<times> world" where
  "promoteBackup env denv db target ttl w =
     safetyFork env denv db target PromoteBackupSuffix PromoteBackupMetaKey ttl w"

section \<open>Refreshing the checkout\<close>

text \<open>What the checkout's files answer: whether the file is there, what quiescing it and making its directory say,
  the pass that stamps it, the clone for the shadow, the cache's file operations and the hashes.\<close>

record refreshEnv =
  rfExists :: bool
  rfQuiesce :: "err option"
  rfMkdir :: "err option"
  rfProbe :: probe
  rfClone :: "bytes option"
  rfIO :: cacheIO
  rfSha :: "string \<Rightarrow> string"
  rfFileSha :: "bytes \<Rightarrow> string"

type_synonym local = "checkout \<times> chainCache"

definition refreshFailed :: "string \<Rightarrow> err \<Rightarrow> err" where
  "refreshFailed what e =
     (if errors_is e ErrQuiesceBusy then wrap_err (what @ '', but its checkout is in use and was NOT refreshed'') e
      else wrap_err (what @ '', but its checkout was NOT refreshed'') e)"

text \<open>Place the chain of the ref's head, stamp the sidecar with the ref's identity, renew the shadow.\<close>

definition placeHead :: "repointEnv \<Rightarrow> refreshEnv \<Rightarrow> ref \<Rightarrow> local \<Rightarrow> world \<Rightarrow> err option \<times> local \<times> world" where
  "placeHead env rf r = (\<lambda>(co, cache) w.
     (case refreshFromChain (reStreams env) (reCode env) (rfSha rf) (rfFileSha rf) (rfIO rf) r cache w of
        (Inl e, cache1, w1) \<Rightarrow> (Some e, (co, cache1), w1)
      | (Inr ((checksum, chain), f), cache1, w1) \<Rightarrow>
          let co1 = co\<lparr>coFile := Some f, coWal := 0\<rparr> in
          (case writeSum (rfFileSha rf) (rfProbe rf) (rLineage r, rHeadEpoch r, rHeadTXID r) checksum chain of
             Inl e \<Rightarrow> (Some e, (co1, cache1), w1)
           | Inr rec \<Rightarrow> (None, (refreshShadow (rfClone rf) (co1\<lparr>coSidecar := Some rec\<rparr>), cache1), w1))))"

text \<open>The refresh of promote and compact, for a checkout that is there.\<close>

definition refreshExisting ::
  "repointEnv \<Rightarrow> refreshEnv \<Rightarrow> string \<Rightarrow> ref \<Rightarrow> local \<Rightarrow> world \<Rightarrow> err option \<times> local \<times> world" where
  "refreshExisting env rf what r l w =
     (if \<not> rfExists rf then (None, l, w)
      else case rfQuiesce rf of
             Some e \<Rightarrow> (Some (refreshFailed what e), l, w)
           | None \<Rightarrow>
               (case placeHead env rf r l w of
                  (Some e, l1, w1) \<Rightarrow> (Some (wrap_err (what @ '', but its checkout could not be refreshed'') e), l1, w1)
                | (None, l1, w1) \<Rightarrow> (None, l1, w1)))"

section \<open>Rollback\<close>

text \<open>A kept checkpoint's entry once its copy is in the new lineage.\<close>

definition relocated :: "checkpoint \<Rightarrow> checkpoint" where
  "relocated c = c\<lparr>cpEpoch := 1, cpKind := ''snapshot''\<rparr>"

text \<open>Copy each kept checkpoint whose transaction has no copy yet; what was copied so far comes back either way.\<close>

fun copyKept ::
  "repointEnv \<Rightarrow> ref \<Rightarrow> string \<Rightarrow> u64 list \<Rightarrow> checkpoint byname \<Rightarrow> key list \<Rightarrow> world \<Rightarrow> (err option \<times> key list) \<times> world" where
  "copyKept env src lineage seen [] copied w = ((None, copied), w)"
| "copyKept env src lineage seen ((name, c) # rest) copied w =
     (if cpTXID c \<in> set seen then copyKept env src lineage seen rest copied w
      else case copySnapshotIntoLineage env src c lineage w of
             (Inl e, w1) \<Rightarrow> ((Some (wrap_err ''ops: copying checkpoint snapshot'' e), copied), w1)
           | (Inr key, w1) \<Rightarrow> copyKept env src lineage (cpTXID c # seen) rest (copied @ [key]) w1)"

text \<open>The checkpoints of a copied lineage and the keys a cleanup would delete; a failed copy cleans up at once.\<close>

definition copyCheckpoints ::
  "repointEnv \<Rightarrow> ref \<Rightarrow> string \<Rightarrow> u64 \<Rightarrow> checkpoint byname \<Rightarrow> world \<Rightarrow> (err + checkpoint byname \<times> key list) \<times> world" where
  "copyCheckpoints env src lineage txid kept w =
     (case copyKept env src lineage [txid] kept [SnapshotKey lineage 1 txid] w of
        ((Some e, copied), w1) \<Rightarrow> (Inl e, cleanupKeys copied w1)
      | ((None, copied), w1) \<Rightarrow> (Inr (map (\<lambda>(n, c). (n, relocated c)) kept, copied), w1))"

record rollbackOptions =
  roForce :: bool
  roNoBackup :: bool
  roBackupTTL :: int
  roMaterialize :: bool

record rollbackResult =
  rrBackup :: string
  rrShared :: bool
  rrBackupIsTarget :: bool
  rrAbandonedFrom :: u64
  rrAbandonedTo :: u64

definition keptUpTo :: "u64 \<Rightarrow> checkpoint byname \<Rightarrow> checkpoint byname" where
  "keptUpTo txid cps = filter (\<lambda>(_, c). cpTXID c \<le> txid) cps"

definition rolledBack :: "int \<Rightarrow> ref \<Rightarrow> string \<Rightarrow> u64 \<Rightarrow> checkpoint byname \<Rightarrow> basePointer option \<Rightarrow> ref" where
  "rolledBack now r lineage txid kept base =
     refTouch now
       (r\<lparr>rLineage := lineage, rEpoch := 1, rHeadTXID := txid, rHeadEpoch := 1, rCheckpoints := kept, rBase := base,
          rLeaseHolder := [], rLeaseExpiry := NoStamp\<rparr>)"

text \<open>The new lineage with the checkpoints the branch keeps, its base pointer, and the keys a cleanup would delete.\<close>

definition rollbackLineage ::
  "repointEnv \<Rightarrow> bool \<Rightarrow> ref \<Rightarrow> checkpoint \<Rightarrow> world \<Rightarrow>
     (err + string \<times> basePointer option \<times> checkpoint byname \<times> key list) \<times> world" where
  "rollbackLineage env materialize r cp w =
     (case chainAtCheckpoint env r cp w of
        (Inl e, w1) \<Rightarrow> (Inl e, w1)
      | (Inr members, w1) \<Rightarrow>
          (case newLineageAt env r cp members materialize w1 of
             (Inl e, w2) \<Rightarrow> (Inl e, w2)
           | (Inr (lineage, base, _), w2) \<Rightarrow>
               let kept = keptUpTo (cpTXID cp) (rCheckpoints r) in
               (case base of
                  Some _ \<Rightarrow> (Inr (lineage, base, kept, [BaseKey lineage]), w2)
                | None \<Rightarrow>
                    (case copyCheckpoints env r lineage (cpTXID cp) kept w2 of
                       (Inl e, w3) \<Rightarrow> (Inl e, w3)
                     | (Inr (cps, copied), w3) \<Rightarrow> (Inr (lineage, None, cps, copied), w3)))))"

text \<open>Everything up to and including the ref write: the ref the branch is on then and whether it shares.\<close>

definition rollbackTo ::
  "repointEnv \<Rightarrow> bool \<Rightarrow> string \<Rightarrow> string \<Rightarrow> ref \<Rightarrow> etag \<Rightarrow> checkpoint \<Rightarrow> world \<Rightarrow> (err + ref) \<times> world" where
  "rollbackTo env materialize db branch r etag cp w =
     (case rollbackLineage env materialize r cp w of
        (Inl e, w1) \<Rightarrow> (Inl e, w1)
      | (Inr (lineage, base, kept, copies), w1) \<Rightarrow>
          let r1 = rolledBack (reTouch env) r lineage (cpTXID cp) kept base in
          (case repointRef db branch r1 etag (rLineage r) copies ''ops: rollback lost a race (retry)'' w1 of
             (Some e, w2) \<Rightarrow> (Inl e, w2)
           | (None, w2) \<Rightarrow> (Inr r1, w2)))"

text \<open>The refresh after a rollback, which makes the checkout when there is none.\<close>

definition refreshRolledBack :: "repointEnv \<Rightarrow> refreshEnv \<Rightarrow> ref \<Rightarrow> local \<Rightarrow> world \<Rightarrow> err option \<times> local \<times> world" where
  "refreshRolledBack env rf r l w =
     (case (if rfExists rf then rfQuiesce rf else None) of
        Some e \<Rightarrow> (Some e, l, w)
      | None \<Rightarrow> (case rfMkdir rf of Some e \<Rightarrow> (Some e, l, w) | None \<Rightarrow> placeHead env rf r l w))"

definition rollbackBackup ::
  "repointEnv \<Rightarrow> destroyEnv \<Rightarrow> string \<Rightarrow> string \<Rightarrow> rollbackOptions \<Rightarrow> world \<Rightarrow> (err + string) \<times> world" where
  "rollbackBackup env denv db branch opts w =
     (if roNoBackup opts then (Inr [], w)
      else safetyFork env denv db branch RollbackBackupSuffix RollbackBackupMetaKey (roBackupTTL opts) w)"

text \<open>The safety fork has an environment of its own, since it mints a lineage of its own.\<close>

definition RollbackWith ::
  "repointEnv \<Rightarrow> repointEnv \<Rightarrow> destroyEnv \<Rightarrow> refreshEnv \<Rightarrow> string \<Rightarrow> string \<Rightarrow> string \<Rightarrow> rollbackOptions \<Rightarrow>
     local \<Rightarrow> world \<Rightarrow> (err + rollbackResult) \<times> local \<times> world" where
  "RollbackWith env fenv denv rf db branch cpName opts l w =
     (case ValidateName db of Some e \<Rightarrow> (Inl e, l, w) | None \<Rightarrow>
     (case ValidateName branch of Some e \<Rightarrow> (Inl e, l, w) | None \<Rightarrow>
     (case ValidateName cpName of Some e \<Rightarrow> (Inl e, l, w) | None \<Rightarrow>
     (case GetRef db branch w of
        (Inl e, w1) \<Rightarrow> (Inl e, l, w1)
      | (Inr (r, etag), w1) \<Rightarrow>
     (case refuseIfHeld (reNow env) r False (roForce opts) of Some e \<Rightarrow> (Inl e, l, w1) | None \<Rightarrow>
     (case map_of (rCheckpoints r) cpName of
        None \<Rightarrow> (Inl errNoCheckpoint, l, w1)
      | Some cp \<Rightarrow>
     (case rollbackBackup fenv denv db branch opts w1 of
        (Inl e, w2) \<Rightarrow> (Inl e, l, w2)
      | (Inr backup, w2) \<Rightarrow>
     (case rollbackTo env (roMaterialize opts) db branch r etag cp w2 of
        (Inl e, w3) \<Rightarrow> (Inl e, l, w3)
      | (Inr r1, w3) \<Rightarrow>
     (case refreshRolledBack env rf r1 l w3 of
        (Some e, l1, w4) \<Rightarrow>
          (Inl (wrap_err ''ops: branch repointed to checkpoint, but the checkout could not be refreshed'' e), l1, w4)
      | (None, l1, w4) \<Rightarrow>
          (Inr \<lparr>rrBackup = backup, rrShared = (rBase r1 \<noteq> None), rrBackupIsTarget = (rHeadTXID r = cpTXID cp),
                rrAbandonedFrom = (if rHeadTXID r > cpTXID cp then cpTXID cp + 1 else 0),
                rrAbandonedTo = (if rHeadTXID r > cpTXID cp then rHeadTXID r else 0)\<rparr>, l1, w4))))))))))"

section \<open>Promote\<close>

record promoteOptions =
  prForce :: bool
  prNoBackup :: bool
  prBackupTTL :: int
  prMaterialize :: bool

record promoteResult =
  psTXID :: u64
  psBackup :: string
  psShared :: bool

definition promotedRef :: "repointEnv \<Rightarrow> string \<Rightarrow> string \<Rightarrow> ref \<Rightarrow> string \<Rightarrow> u64 \<Rightarrow> basePointer option \<Rightarrow> ref" where
  "promotedRef env db source tgt lineage txid base =
     refTouch (reTouch env)
       (SetCheckpoint ''promote'' \<lparr>cpTXID = txid, cpEpoch = 1, cpCreatedAt = reStamp env, cpMeta = [], cpKind = []\<rparr>
          (tgt\<lparr>rLineage := lineage, rEpoch := 1, rHeadTXID := txid, rHeadEpoch := 1, rBase := base, rCheckpoints := [],
               rParent := db @ ''@'' @ source @ ''@'' @ fmtD txid, rLeaseHolder := [], rLeaseExpiry := NoStamp\<rparr>))"

definition promoteTo ::
  "repointEnv \<Rightarrow> bool \<Rightarrow> string \<Rightarrow> string \<Rightarrow> string \<Rightarrow> ref \<Rightarrow> ref \<Rightarrow> etag \<Rightarrow> world \<Rightarrow> (err + ref) \<times> world" where
  "promoteTo env materialize db source target src tgt etag w =
     (let cp = headCheckpoint src in
      case chainAtCheckpoint env src cp w of
        (Inl e, w1) \<Rightarrow> (Inl e, w1)
      | (Inr members, w1) \<Rightarrow>
          (case newLineageAt env src cp members materialize w1 of
             (Inl e, w2) \<Rightarrow> (Inl e, w2)
           | (Inr (lineage, base, _), w2) \<Rightarrow>
               let r1 = promotedRef env db source tgt lineage (cpTXID cp) base;
                   copies = [if base \<noteq> None then BaseKey lineage else SnapshotKey lineage 1 (cpTXID cp)] in
               (case repointRef db target r1 etag (rLineage tgt) copies ''ops: promote lost a race (retry)'' w2 of
                  (Some e, w3) \<Rightarrow> (Inl e, w3)
                | (None, w3) \<Rightarrow> (Inr r1, w3))))"

text \<open>Promoting a target's own safety fork back is the undo, which mints no new one.\<close>

definition promoteKeeps ::
  "repointEnv \<Rightarrow> destroyEnv \<Rightarrow> string \<Rightarrow> string \<Rightarrow> string \<Rightarrow> ref \<Rightarrow> promoteOptions \<Rightarrow> world \<Rightarrow> (err + string) \<times> world" where
  "promoteKeeps env denv db source target src opts w =
     (if prNoBackup opts \<or> source = target @ PromoteBackupSuffix \<and> metaAt src PromoteBackupMetaKey = target
      then (Inr [], w)
      else promoteBackup env denv db target (prBackupTTL opts) w)"

text \<open>The result comes with an error when the target was repointed but its checkout not refreshed.\<close>

definition PromoteWith ::
  "repointEnv \<Rightarrow> repointEnv \<Rightarrow> destroyEnv \<Rightarrow> refreshEnv \<Rightarrow> string \<Rightarrow> string \<Rightarrow> string \<Rightarrow> promoteOptions \<Rightarrow>
     local \<Rightarrow> world \<Rightarrow> (err + promoteResult \<times> err option) \<times> local \<times> world" where
  "PromoteWith env fenv denv rf db source target opts l w =
     (if source = target then (Inl (plain_err ''ops: cannot promote a branch onto itself''), l, w)
      else
     (case ValidateName db of Some e \<Rightarrow> (Inl e, l, w) | None \<Rightarrow>
     (case ValidateName source of Some e \<Rightarrow> (Inl e, l, w) | None \<Rightarrow>
     (case ValidateName target of Some e \<Rightarrow> (Inl e, l, w) | None \<Rightarrow>
     (case GetRef db source w of
        (Inl e, w1) \<Rightarrow> (Inl e, l, w1)
      | (Inr (src, _), w1) \<Rightarrow>
     (case GetRef db target w1 of
        (Inl e, w2) \<Rightarrow> (Inl e, l, w2)
      | (Inr (tgt, etag), w2) \<Rightarrow>
     (case refuseIfHeld (reNow env) tgt False (prForce opts) of Some e \<Rightarrow> (Inl e, l, w2) | None \<Rightarrow>
     (if rProtected tgt \<and> \<not> prForce opts then (Inl (plain_err ''ops: protected; use --force''), l, w2)
      else
     (case promoteKeeps fenv denv db source target src opts w2 of
        (Inl e, w3) \<Rightarrow> (Inl e, l, w3)
      | (Inr backup, w3) \<Rightarrow>
     (case promoteTo env (prMaterialize opts) db source target src tgt etag w3 of
        (Inl e, w4) \<Rightarrow> (Inl e, l, w4)
      | (Inr r1, w4) \<Rightarrow>
     (case refreshExisting env rf ''ops: promoted'' r1 l w4 of
        (e, l1, w5) \<Rightarrow>
          (Inr (\<lparr>psTXID = rHeadTXID src, psBackup = backup, psShared = (rBase r1 \<noteq> None)\<rparr>, e), l1, w5))))))))))))"

section \<open>Compact\<close>

definition compactedCheckpoints :: "string \<Rightarrow> u64 \<Rightarrow> checkpoint byname \<Rightarrow> checkpoint byname" where
  "compactedCheckpoints stamp txid kept =
     (if map_of kept ''compact'' \<noteq> None then kept
      else mput ''compact'' \<lparr>cpTXID = txid, cpEpoch = 1, cpCreatedAt = stamp, cpMeta = [], cpKind = ''snapshot''\<rparr> kept)"

definition compactTo :: "repointEnv \<Rightarrow> string \<Rightarrow> string \<Rightarrow> ref \<Rightarrow> etag \<Rightarrow> world \<Rightarrow> (err + ref) \<times> world" where
  "compactTo env db branch r etag w =
     (let cp = headCheckpoint r; txid = cpTXID cp in
      case copySnapshotToNewLineage env r cp w of
        (Inl e, w1) \<Rightarrow> (Inl e, w1)
      | (Inr (lineage, _), w1) \<Rightarrow>
          (case copyCheckpoints env r lineage txid (rCheckpoints r) w1 of
             (Inl e, w2) \<Rightarrow> (Inl e, w2)
           | (Inr (cps, copied), w2) \<Rightarrow>
               let r1 = rolledBack (reTouch env) r lineage txid (compactedCheckpoints (reStamp env) txid cps) None in
               (case repointRef db branch r1 etag (rLineage r) copied ''ops: compact lost a race (retry)'' w2 of
                  (Some e, w3) \<Rightarrow> (Inl e, w3)
                | (None, w3) \<Rightarrow> (Inr r1, w3))))"

definition CompactWith ::
  "repointEnv \<Rightarrow> refreshEnv \<Rightarrow> string \<Rightarrow> string \<Rightarrow> bool \<Rightarrow> local \<Rightarrow> world \<Rightarrow> (err + u64 \<times> err option) \<times> local \<times> world" where
  "CompactWith env rf db branch force l w =
     (case ValidateName db of Some e \<Rightarrow> (Inl e, l, w) | None \<Rightarrow>
     (case ValidateName branch of Some e \<Rightarrow> (Inl e, l, w) | None \<Rightarrow>
     (case GetRef db branch w of
        (Inl e, w1) \<Rightarrow> (Inl e, l, w1)
      | (Inr (r, etag), w1) \<Rightarrow>
     (case refuseIfHeld (reNow env) r False force of Some e \<Rightarrow> (Inl e, l, w1) | None \<Rightarrow>
     (case readView w1 of (v, w2) \<Rightarrow>
     (case BaseSpine v (rLineage r) of
        Inl e \<Rightarrow> (Inl (wrap_err ''ops: compact: resolving base spine'' e), l, w2)
      | Inr [] \<Rightarrow> (Inr (rHeadTXID r, None), l, w2)
      | Inr _ \<Rightarrow>
     (case compactTo env db branch r etag w2 of
        (Inl e, w3) \<Rightarrow> (Inl e, l, w3)
      | (Inr r1, w3) \<Rightarrow>
     (case refreshExisting env rf ''ops: compacted'' r1 l w3 of
        (e, l1, w4) \<Rightarrow> (Inr (rHeadTXID r, e), l1, w4)))))))))"

end
