(* ===== verification/Repoint_Safety.thy ===== *)
theory Repoint_Safety
  imports Repoint
begin

text \<open>
  What holds of the operations of \<^verbatim>\<open>Repoint\<close> whatever other writers do between two calls. A ref write that
  reports a failure may have landed: the objects of the new lineage are deleted only when nothing in the store
  names that lineage, and nothing will. And every ref these operations leave is one the next read accepts.
\<close>

section \<open>Deleting the objects of a lineage\<close>

definition mentions :: "string \<Rightarrow> content \<Rightarrow> bool" where
  "mentions l c = (case c of CRef r \<Rightarrow> rLineage r = l | CBase b \<Rightarrow> bpLineage b = l | _ \<Rightarrow> False)"

text \<open>No ref is on the lineage and no base pointer leads into it.\<close>

definition unmentioned :: "string \<Rightarrow> objs \<Rightarrow> bool" where
  "unmentioned l s \<longleftrightarrow> list_all (\<lambda>(_, c). \<not> mentions l c) s"

text \<open>The branch is not, or no longer, on its previous lineage.\<close>

definition movedOn :: "string \<Rightarrow> string \<Rightarrow> string \<Rightarrow> objs \<Rightarrow> bool" where
  "movedOn db b prev s \<longleftrightarrow> (case refAt s db b of None \<Rightarrow> True | Some r \<Rightarrow> rLineage r \<noteq> prev)"

definition hasAll :: "key list \<Rightarrow> objs \<Rightarrow> bool" where
  "hasAll ks s \<longleftrightarrow> list_all (\<lambda>k. map_of s k \<noteq> None) ks"

lemma hasAll_mput: "hasAll ks s \<Longrightarrow> hasAll ks (mput k c s)"
  by (auto simp: hasAll_def list_all_iff)

lemma unmentioned_mdel: "unmentioned l s \<Longrightarrow> unmentioned l (mdel k s)"
  by (auto simp: unmentioned_def list_all_iff mdel_def)

lemma localDelete_unmentioned: "unmentioned l s \<Longrightarrow> unmentioned l (snd (localDelete s k))"
  by (auto simp: localDelete_def unmentioned_mdel split: option.split)

lemma bestEffortDelete_unmentioned:
  assumes "closed (unmentioned l) w" "unmentioned l (wObjs w)"
  shows "closed (unmentioned l) (bestEffortDelete k w)" "unmentioned l (wObjs (bestEffortDelete k w))"
  using tick_closed [OF assms(1)] assms(2) localDelete_unmentioned
  by (auto simp: bestEffortDelete_def bDelete_def split: prod.splits fault.splits) (metis snd_conv)+

lemma cleanupKeys_unmentioned:
  assumes "closed (unmentioned l) w" "unmentioned l (wObjs w)"
  shows "closed (unmentioned l) (cleanupKeys ks w) \<and> unmentioned l (wObjs (cleanupKeys ks w))"
  using assms
proof (induction ks arbitrary: w)
  case (Cons k ks)
  then show ?case using bestEffortDelete_unmentioned [OF Cons.prems] by (simp add: cleanupKeys_def)
qed (simp add: cleanupKeys_def)

lemma refAt_written:
  assumes "refAt (mput (RefKey db b) (marshalRef r) s) db b = Some r'"
  shows "rLineage r' = rLineage r"
  using assms decodeRef_head(1) by (auto simp: refAt_def split: sum.splits)

lemma refWritten_movedOn: "rLineage r \<noteq> prev \<Longrightarrow> movedOn db b prev (wObjs (refWritten db b r w))"
  using refAt_written [of db b "stampRef r"] by (auto simp: movedOn_def refWritten_def split: option.split)

lemma settleRepoint_landed:
  "settleRepoint db b l prev e w = (Inr RepointLanded, w1) \<Longrightarrow> \<exists>r. refAt (wObjs w1) db b = Some r \<and> rLineage r = l"
  by (auto simp: settleRepoint_def split: prod.splits sum.splits if_splits dest: GetRef_refAt)

lemma repointRef_failed:
  assumes "PutRef db b r etag w = (Inl e, w1)" "settleRepoint db b (rLineage r) prev e w1 = (v, w2)"
    and "closed (unmentioned (rLineage r)) w" "closed (movedOn db b prev) w" "closed (hasAll copies) w"
    and "unmentioned (rLineage r) (wObjs w)" "hasAll copies (wObjs w)" "rLineage r \<noteq> prev"
  shows "hasAll copies (wObjs w2) \<and> closed (unmentioned (rLineage r)) w2 \<and>
    (v = Inr RepointNotLanded \<longrightarrow> unmentioned (rLineage r) (wObjs w2))"
proof -
  have all1: "hasAll copies (wObjs w1)"
    using PutRef_Inl [OF assms(1)] assms(7) tick_closed(2) [OF assms(5,7)] by (auto simp: refWritten_def hasAll_mput)
  have inv: "unmentioned (rLineage r) (wObjs w1) \<or> movedOn db b prev (wObjs w1)"
    using PutRef_Inl [OF assms(1)] assms(6) tick_closed(2) [OF assms(3,6)] refWritten_movedOn [OF assms(8)] by auto
  note cl = assms(3-5) [THEN PutRef_Inl_closed [OF assms(1)]]
  have w2: "w2 = snd (GetRef db b w1)"
    using assms(2) by (auto simp: settleRepoint_def split: prod.splits sum.splits if_splits)
  have inv2: "unmentioned (rLineage r) (wObjs w2) \<or> movedOn db b prev (wObjs w2)"
    using inv GetRef_closed(2) [OF cl(1)] GetRef_closed(2) [OF cl(2)] unfolding w2 by blast
  have "unmentioned (rLineage r) (wObjs w2)" if not_landed: "v = Inr RepointNotLanded"
  proof -
    obtain r' t where g: "GetRef db b w1 = (Inr (r', t), w2)" "rLineage r' = prev"
      using assms(2) not_landed by (auto simp: settleRepoint_def split: prod.splits sum.splits if_splits)
    then show ?thesis using inv2 GetRef_refAt [OF g(1)] by (simp add: movedOn_def)
  qed
  then show ?thesis using GetRef_closed(2) [OF cl(3) all1] GetRef_closed(1) [OF cl(1)] unfolding w2 by blast
qed

text \<open>C2: A repoint never leaves a branch on objects it deleted. When rollback, promote or compact reports success, the
  branch is on the new lineage and the lineage's objects are there. When it reports a failure, which the ref write
  may report though it landed, either the objects are still there, or nothing in the store names the lineage and no
  later write of another process will. This needs of the others what the code relies on: they do not name a lineage
  that nothing names, do not take a branch back to a lineage it left, and do not delete the new objects themselves.
\<close>

theorem repoint_never_breaks:
  assumes "closed (unmentioned (rLineage r)) w" "closed (movedOn db b prev) w" "closed (hasAll copies) w"
    and "unmentioned (rLineage r) (wObjs w)" "hasAll copies (wObjs w)" "rLineage r \<noteq> prev" "ref_wf r"
    and "repointRef db b r etag prev copies lost w = (res, w')"
  shows "case res of
      None \<Rightarrow> hasAll copies (wObjs w') \<and> (\<exists>r'. refAt (wObjs w') db b = Some r' \<and> rLineage r' = rLineage r)
    | Some e \<Rightarrow> hasAll copies (wObjs w') \<or> unmentioned (rLineage r) (wObjs w') \<and> closed (unmentioned (rLineage r)) w'"
proof (cases "PutRef db b r etag w")
  case (Pair x w1)
  show ?thesis
  proof (cases x)
    case (Inr t)
    note p = PutRef_Inr(4) [OF Pair [unfolded Inr]]
    have "res = None" "w' = w1" using assms(8) Pair Inr by (simp_all add: repointRef_def)
    then show ?thesis
      using p hasAll_mput [OF tick_closed(2) [OF assms(3,5)]] refAt_put [OF assms(7), of db b] by simp
  next
    case (Inl e)
    note p = Pair [unfolded Inl]
    obtain v w2 where v: "settleRepoint db b (rLineage r) prev e w1 = (v, w2)" by fastforce
    note f = repointRef_failed [OF p v assms(1-6)]
    show ?thesis
    proof (cases "v = Inr RepointNotLanded")
      case True
      then have "w' = cleanupKeys copies w2" "res \<noteq> None" using assms(8) p v by (auto simp: repointRef_def)
      then show ?thesis using cleanupKeys_unmentioned [of "rLineage r" w2 copies] f True by auto
    next
      case False
      then have "w' = w2" "res = None \<Longrightarrow> v = Inr RepointLanded"
        using assms(8) p v by (auto simp: repointRef_def split: sum.splits repointVerdict.splits)
      then show ?thesis using f v settleRepoint_landed by (cases res) auto
    qed
  qed
qed

text \<open>A promote that shares, with its base pointer written; the ref write that follows is refused.\<close>

definition sampleRefused :: world where
  "sampleRefused =
     sampleWorld\<lparr>wObjs := mput (BaseKey ''l9'') (CBase \<lparr>bpLineage = ''l1'', bpTXID = 2\<rparr>) sampleStore,
                 wScript := [Event (\<lambda>s. s) (Refused (plain_err ''timeout''))]\<rparr>"

definition sampleMoved :: ref where
  "sampleMoved = rolledBack 7 sampleRef ''l9'' 2 [] (Some \<lparr>bpLineage = ''l1'', bpTXID = 2\<rparr>)"

theorem repoint_never_breaks_witness:
  "\<exists>e w'. repointRef ''app'' ''work'' sampleMoved (ETagOf (marshalRef sampleRef)) ''l2'' [BaseKey ''l9''] ''lost'' sampleRefused =
      (Some e, w') \<and> \<not> hasAll [BaseKey ''l9''] (wObjs w') \<and> unmentioned ''l9'' (wObjs w')"
proof -
  let ?run = "repointRef ''app'' ''work'' sampleMoved (ETagOf (marshalRef sampleRef)) ''l2'' [BaseKey ''l9''] ''lost'' sampleRefused"
  have l: "rLineage sampleMoved = ''l9''" by (simp add: sampleMoved_def rolledBack_def refTouch_def)
  have cl: "closed P sampleRefused" for P by (simp add: closed_def sampleRefused_def)
  have facts: "unmentioned ''l9'' (wObjs sampleRefused)" "hasAll [BaseKey ''l9''] (wObjs sampleRefused)" "ref_wf sampleMoved"
    by code_simp+
  have r: "fst ?run \<noteq> None \<and> \<not> hasAll [BaseKey ''l9''] (wObjs (snd ?run))" by code_simp
  then obtain e w' where run: "?run = (Some e, w')" "\<not> hasAll [BaseKey ''l9''] (wObjs w')" by (cases ?run) auto
  show ?thesis
    using repoint_never_breaks [OF cl cl cl _ facts(2) _ facts(3) run(1)] facts(1) run by (simp add: l)
qed

section \<open>Every operation keeps an invariant of the store\<close>

text \<open>A ref the next read accepts: its checkpoints and its head name transactions.\<close>

definition soundRef :: "ref \<Rightarrow> bool" where
  "soundRef r \<longleftrightarrow> ref_wf r \<and> rHeadTXID r \<noteq> 0"

definition holds :: "(objs \<Rightarrow> bool) \<Rightarrow> world \<Rightarrow> bool" where
  "holds P w \<longleftrightarrow> P (wObjs w) \<and> closed P w"

lemma holds_tick: "holds P w \<Longrightarrow> tick w = (x, w1) \<Longrightarrow> holds P w1"
  using tick_closed [of P w] by (simp add: holds_def)

lemma holds_objs: "holds P w \<Longrightarrow> P s \<Longrightarrow> holds P (w\<lparr>wObjs := s\<rparr>)"
  by (simp add: holds_def)

lemmas cases_splits = prod.splits sum.splits option.splits if_splits

lemma claimedRef_sound: "soundRef r \<Longrightarrow> soundRef (claimedRef t r)"
  by (simp add: soundRef_def ref_wf_def claimedRef_def)

lemma createdRef_sound: "soundRef (createdRef env)"
  by (auto simp: createdRef_def soundRef_def SetCheckpoint_def ref_wf_def blankRef_def)

lemma forkedRef_sound: "t \<noteq> 0 \<Longrightarrow> soundRef (forkedRef env db b ttl meta t l base)"
  by (simp add: forkedRef_def soundRef_def SetCheckpoint_def ref_wf_def blankRef_def refTouch_def)

lemma checkpoint_sound: "soundRef r \<Longrightarrow> map_of (rCheckpoints r) n = Some cp \<Longrightarrow> cpTXID cp \<noteq> 0"
  by (auto simp: soundRef_def ref_wf_def list_all_iff dest: map_of_SomeD)

lemma forkPoint_sound: "forkPoint r at = Inr cp \<Longrightarrow> soundRef r \<Longrightarrow> cpTXID cp \<noteq> 0"
  by (auto simp: forkPoint_def headCheckpoint_def checkpoint_sound split: cases_splits) (simp_all add: soundRef_def)

text \<open>The checkpoints of a sound ref, and that what a repoint makes of them is sound again.\<close>

definition soundCheckpoints :: "checkpoint byname \<Rightarrow> bool" where
  "soundCheckpoints cps \<longleftrightarrow> msorted cps \<and> list_all (\<lambda>(n, c). cpTXID c \<noteq> 0) cps"

lemma soundRef_checkpoints: "soundRef r \<Longrightarrow> soundCheckpoints (rCheckpoints r)"
  by (simp add: soundRef_def ref_wf_def soundCheckpoints_def)

lemma soundCheckpoints_kept: "soundCheckpoints cps \<Longrightarrow> soundCheckpoints (keptUpTo t cps)"
  by (auto simp: soundCheckpoints_def keptUpTo_def list_all_iff sorted_wrt_map intro: sorted_wrt_filter)

lemma soundCheckpoints_relocated: "soundCheckpoints cps \<Longrightarrow> soundCheckpoints (map (\<lambda>(n, c). (n, relocated c)) cps)"
  by (auto simp: soundCheckpoints_def list_all_iff relocated_def sorted_wrt_map case_prod_beta)

lemma soundCheckpoints_compacted: "soundCheckpoints cps \<Longrightarrow> t \<noteq> 0 \<Longrightarrow> soundCheckpoints (compactedCheckpoints st t cps)"
  using set_mput [of "''compact''" "\<lparr>cpTXID = t, cpEpoch = 1, cpCreatedAt = st, cpMeta = [], cpKind = ''snapshot''\<rparr>" cps]
  by (auto simp: soundCheckpoints_def compactedCheckpoints_def list_all_iff)

lemma rolledBack_sound: "soundCheckpoints cps \<Longrightarrow> t \<noteq> 0 \<Longrightarrow> soundRef (rolledBack now r l t cps base)"
  by (simp add: rolledBack_def soundRef_def soundCheckpoints_def ref_wf_def refTouch_def)

lemma promotedRef_sound: "t \<noteq> 0 \<Longrightarrow> soundRef (promotedRef env db b r l t base)"
  by (simp add: promotedRef_def soundRef_def SetCheckpoint_def ref_wf_def refTouch_def)

text \<open>An invariant that sound refs, base pointers, members and manifests written under their keys keep, as does
  any delete, and that makes every ref of the store sound.\<close>

locale store_typing =
  fixes P :: "objs \<Rightarrow> bool"
  assumes put_ref: "P s \<Longrightarrow> soundRef r \<Longrightarrow> P (mput (RefKey db b) (marshalRef (stampRef r)) s)"
    and put_base: "P s \<Longrightarrow> bpLineage p \<noteq> l \<Longrightarrow> P (mput (BaseKey l) (CBase p) s)"
    and put_snapshot: "P s \<Longrightarrow> P (mput (SnapshotKey l e t) c s)"
    and put_manifest: "P s \<Longrightarrow> mLayoutVersion m \<le> LayoutVersion \<Longrightarrow> P (mput manifestKey (CManifest m) s)"
    and del: "P s \<Longrightarrow> P (mdel k s)"
    and read: "P s \<Longrightarrow> refAt s db b = Some r \<Longrightarrow> soundRef r"
begin

lemma GetRef_holds: "GetRef db b w = (x, w1) \<Longrightarrow> holds P w \<Longrightarrow> holds P w1"
  using GetRef_closed [of P w db b] by (auto simp: holds_def)

lemma GetRef_sound: "GetRef db b w = (Inr (r, t), w1) \<Longrightarrow> holds P w \<Longrightarrow> soundRef r"
  using GetRef_holds GetRef_refAt read unfolding holds_def by blast

lemma bPutIf_holds:
  assumes "bPutIf k c t w = (x, w1)" "holds P w" "\<And>s. P s \<Longrightarrow> P (mput k c s)"
  shows "holds P w1"
proof (cases "tick w")
  case (Pair f w0)
  then show ?thesis using assms(1) holds_tick [OF assms(2) Pair]
    by (cases f) (auto simp: bPutIf_def localPutIf_def holds_def assms(3) split: option.splits if_splits)
qed

lemma PutRef_holds: "PutRef db b r t w = (x, w1) \<Longrightarrow> holds P w \<Longrightarrow> soundRef r \<Longrightarrow> holds P w1"
  by (auto simp: PutRef_def put_ref split: option.splits elim!: bPutIf_holds)

lemma bDelete_holds:
  assumes "bDelete k w = (x, w1)" "holds P w"
  shows "holds P w1"
proof (cases "tick w")
  case (Pair f w0)
  then show ?thesis using assms(1) holds_tick [OF assms(2) Pair]
    by (cases f) (auto simp: bDelete_def localDelete_def holds_def del split: option.splits)
qed

lemma bDeleteIf_holds:
  assumes "bDeleteIf k t w = (x, w1)" "holds P w"
  shows "holds P w1"
proof (cases "tick w")
  case (Pair f w0)
  then show ?thesis using assms(1) holds_tick [OF assms(2) Pair]
    by (cases f) (auto simp: bDeleteIf_def localDeleteIf_def holds_def del split: option.splits if_splits)
qed

lemma bCopyObject_holds:
  assumes "bCopyObject (SnapshotKey l e t) k w = (x, w1)" "holds P w"
  shows "holds P w1"
proof (cases "tick w")
  case (Pair f w0)
  then show ?thesis using assms(1) holds_tick [OF assms(2) Pair]
    by (cases f) (auto simp: bCopyObject_def localCopyObject_def holds_def put_snapshot split: option.splits)
qed

lemma read_holds:
  assumes "holds P w"
  shows "bGet k w = (x1, w1) \<Longrightarrow> holds P w1" "bList p w = (x2, w1) \<Longrightarrow> holds P w1" "readView w = (x3, w1) \<Longrightarrow> holds P w1"
proof -
  obtain f w0 where t: "tick w = (f, w0)" by (cases "tick w")
  note h = holds_tick [OF assms t]
  show "bGet k w = (x1, w1) \<Longrightarrow> holds P w1" using t h by (cases f) (auto simp: bGet_def)
  show "bList p w = (x2, w1) \<Longrightarrow> holds P w1" using t h by (cases f) (auto simp: bList_def)
  show "readView w = (x3, w1) \<Longrightarrow> holds P w1" using t h by (cases f) (auto simp: readView_def)
qed

lemma GetRef_Inr_holds: "GetRef db b w = (Inr (r, t), w1) \<Longrightarrow> holds P w \<Longrightarrow> holds P w1 \<and> soundRef r"
  using GetRef_holds GetRef_sound by blast

lemma GetRef_Inl_holds: "GetRef db b w = (Inl e, w1) \<Longrightarrow> holds P w \<Longrightarrow> holds P w1"
  by (rule GetRef_holds)

subsection \<open>Destroy\<close>

lemma unwindAttempts_holds: "holds P w \<Longrightarrow> holds P (unwindAttempts n db b at w)"
proof (induction n arbitrary: w)
  case (Suc n)
  obtain x w1 where g: "GetRef db b w = (x, w1)" by (cases "GetRef db b w")
  note h = GetRef_holds [OF g Suc.prems]
  show ?case
  proof (cases x)
    case (Inr p)
    obtain r t where p: "p = (r, t)" by (cases p)
    let ?r = "r\<lparr>rDeleting := False, rDeletingAt := NoStamp\<rparr>"
    obtain y w2 where put: "PutRef db b ?r t w1 = (y, w2)" by (cases "PutRef db b ?r t w1")
    have "soundRef ?r" using GetRef_sound g Inr p Suc.prems by (auto simp: soundRef_def ref_wf_def)
    then have "holds P w2" using PutRef_holds [OF put h] by simp
    then show ?thesis using Suc.IH g Inr p put h by (cases y) auto
  qed (use g h in simp)
qed simp

lemma settleReads_holds: "settleReads n db b t w = (x, w1) \<Longrightarrow> holds P w \<Longrightarrow> holds P w1"
proof (induction n arbitrary: w)
  case 0
  then show ?case using GetRef_holds by simp
next
  case (Suc n)
  obtain y w2 where g: "GetRef db b w = (y, w2)" by (cases "GetRef db b w")
  then show ?case using Suc GetRef_holds [OF g Suc.prems(2)] by (auto split: sum.splits if_splits)
qed

lemma landedClaim_holds: "landedClaim db b c t force e now w = (x, w1) \<Longrightarrow> holds P w \<Longrightarrow> holds P w1"
  by (auto simp: landedClaim_def Let_def unwindDeletingClaim_def unwindAttempts_holds split: cases_splits dest!: settleReads_holds)

lemma DeleteRefIf_holds: "DeleteRefIf db b t w = (x, w1) \<Longrightarrow> holds P w \<Longrightarrow> holds P w1"
  using bDeleteIf_holds bDelete_holds by (auto simp: DeleteRefIf_def split: if_splits)

lemma deleteAttempts_holds: "deleteAttempts n db b c t force clk w = (x, w1) \<Longrightarrow> holds P w \<Longrightarrow> holds P w1"
proof (induction n arbitrary: t w)
  case 0
  then show ?case
    by (subst (asm) deleteAttempts.simps) (auto simp: Let_def split: cases_splits dest!: DeleteRefIf_holds)
next
  case (Suc n)
  obtain y w2 where d: "DeleteRefIf db b t w = (y, w2)" by (cases "DeleteRefIf db b t w")
  note h = DeleteRefIf_holds [OF d Suc.prems(2)]
  obtain z w3 where g: "GetRef db b w2 = (z, w3)" by (cases "GetRef db b w2")
  note h3 = GetRef_holds [OF g h]
  show ?case
    using Suc.prems(1) Suc.IH h h3 d g
    by (subst (asm) deleteAttempts.simps) (auto simp: Let_def split: option.splits if_splits sum.splits)
qed

lemma destroyClaimed_holds: "destroyClaimed env db b force c t w = (x, w1) \<Longrightarrow> holds P w \<Longrightarrow> holds P w1"
  by (auto simp: destroyClaimed_def unwindDeletingClaim_def deleteClaimedRef_def unwindAttempts_holds
      split: cases_splits dest!: deleteAttempts_holds)

lemma Destroy_holds: "Destroy env db b force w = (x, w1) \<Longrightarrow> holds P w \<Longrightarrow> holds P w1"
  by (auto simp: Destroy_def Let_def claimedRef_sound split: cases_splits
      dest!: GetRef_Inr_holds GetRef_Inl_holds PutRef_holds landedClaim_holds destroyClaimed_holds)

subsection \<open>Settling and the fresh lineage\<close>

lemma settleRepoint_holds: "settleRepoint db b l prev e w = (x, w1) \<Longrightarrow> holds P w \<Longrightarrow> holds P w1"
  by (auto simp: settleRepoint_def split: cases_splits dest!: GetRef_Inl_holds GetRef_Inr_holds)

lemma cleanupKeys_holds: "holds P w \<Longrightarrow> holds P (cleanupKeys ks w)"
proof (induction ks arbitrary: w)
  case (Cons k ks)
  then show ?case using bDelete_holds [of k w "fst (bDelete k w)"] by (simp add: cleanupKeys_def bestEffortDelete_def)
qed (simp add: cleanupKeys_def)

lemma repointRef_holds:
  "repointRef db b r t prev ks lost w = (x, w1) \<Longrightarrow> holds P w \<Longrightarrow> soundRef r \<Longrightarrow> holds P w1"
  by (auto simp: repointRef_def cleanupKeys_holds split: cases_splits repointVerdict.splits
      dest!: PutRef_holds settleRepoint_holds)

lemma createRef_holds: "createRef db b r ex verb w = (x, w1) \<Longrightarrow> holds P w \<Longrightarrow> soundRef r \<Longrightarrow> holds P w1"
  by (auto simp: createRef_def split: cases_splits dest!: PutRef_holds settleRepoint_holds)

lemma storeChain_holds: "storeChain l t w = (x, w1) \<Longrightarrow> holds P w \<Longrightarrow> holds P w1"
  using read_holds(3) by (auto simp: storeChain_def split: cases_splits)

lemma headChain_holds: "headChain sc r w = (x, w1) \<Longrightarrow> holds P w \<Longrightarrow> holds P w1"
  using read_holds(3) by (auto simp: headChain_def split: cases_splits)

lemma chainAtCheckpoint_holds: "chainAtCheckpoint env r cp w = (x, w1) \<Longrightarrow> holds P w \<Longrightarrow> holds P w1"
  by (auto simp: chainAtCheckpoint_def split: cases_splits dest!: storeChain_holds headChain_holds)

lemma fetchSegments_holds: "fetchSegments ms w = (x, w1) \<Longrightarrow> holds P w \<Longrightarrow> holds P w1"
proof (induction ms arbitrary: w x w1)
  case (Cons m ms)
  obtain y w2 where g: "bGet (cmKey m) w = (y, w2)" by (cases "bGet (cmKey m) w")
  obtain z w3 where f: "fetchSegments ms w2 = (z, w3)" by (cases "fetchSegments ms w2")
  show ?case
    using Cons.prems Cons.IH [OF f] g f read_holds(1) [OF Cons.prems(2) g] by (auto split: sum.splits)
qed simp

lemma applyMembers_holds:
  "applyMembers lc ps fst0 pm pc run ms f w = (x, w1) \<Longrightarrow> holds P w \<Longrightarrow> holds P w1"
proof (induction lc ps fst0 pm pc run ms f w rule: applyMembers.induct)
  case (2 lc ps fst0 pm pc run m ms f w)
  obtain y w2 where g: "bGet (cmKey m) w = (y, w2)" by (cases "bGet (cmKey m) w")
  note h = read_holds(1) [OF "2.prems"(2) g]
  show ?case
  proof (cases y)
    case (Inr p)
    then show ?thesis
      using "2.prems"(1) "2.IH" [OF g [symmetric] Inr] g h by (cases p) (auto split: sum.splits)
  qed (use "2.prems" g h in auto)
qed simp

lemma materializeMembersAt_holds: "materializeMembersAt st lc ms w = (x, w1) \<Longrightarrow> holds P w \<Longrightarrow> holds P w1"
  by (auto simp: materializeMembersAt_def materializeMembersAtStreaming_def materializeMembersAtBuffered_def
      split: cases_splits list.splits dest: read_holds(1) dest!: fetchSegments_holds applyMembers_holds)

lemma copyInto_holds: "copySnapshotIntoLineageFromChain env ms cp l w = (x, w1) \<Longrightarrow> holds P w \<Longrightarrow> holds P w1"
  by (auto simp: copySnapshotIntoLineageFromChain_def Let_def put_snapshot split: cases_splits
      dest!: materializeMembersAt_holds elim!: bPutIf_holds)

lemma copySnapshotIntoLineage_holds: "copySnapshotIntoLineage env r cp l w = (x, w1) \<Longrightarrow> holds P w \<Longrightarrow> holds P w1"
  by (auto simp: copySnapshotIntoLineage_def split: cases_splits dest!: storeChain_holds copyInto_holds)

lemma tryFastForkCopy_holds: "tryFastForkCopy ms cp l w = (x, w1) \<Longrightarrow> holds P w \<Longrightarrow> holds P w1"
  by (auto simp: tryFastForkCopy_def split: cases_splits list.splits dest!: bCopyObject_holds storeChain_holds)

lemma copyToNew_holds: "copySnapshotToNewLineageFromChain env cp ms w = (x, w1) \<Longrightarrow> holds P w \<Longrightarrow> holds P w1"
  by (auto simp: copySnapshotToNewLineageFromChain_def Let_def split: cases_splits bool.splits
      dest!: tryFastForkCopy_holds copyInto_holds)

lemma copySnapshotToNewLineage_holds: "copySnapshotToNewLineage env r cp w = (x, w1) \<Longrightarrow> holds P w \<Longrightarrow> holds P w1"
  by (auto simp: copySnapshotToNewLineage_def split: cases_splits dest!: storeChain_holds copyToNew_holds)

lemma ensureLayoutBody_holds: "ensureLayoutBody w = (x, w1) \<Longrightarrow> holds P w \<Longrightarrow> holds P w1"
  by (auto simp: ensureLayoutBody_def put_manifest split: cases_splits dest: read_holds(1) elim!: bPutIf_holds)

lemma retryLoop_holds:
  assumes "\<And>w x w1. body w = (x, w1) \<Longrightarrow> holds P w \<Longrightarrow> holds P w1"
  shows "retryLoop n body w = Some (x, w1) \<Longrightarrow> holds P w \<Longrightarrow> holds P w1"
proof (induction n arbitrary: w)
  case (Suc n)
  obtain y w2 where b: "body w = (y, w2)" by (cases "body w")
  show ?case using Suc.prems(1) Suc.IH [of w2] b assms [OF b Suc.prems(2)] by (cases y) auto
qed simp

lemma ensureLayout_holds: "ensureLayout v w = (x, w1) \<Longrightarrow> holds P w \<Longrightarrow> holds P w1"
  using retryLoop_holds [of ensureLayoutBody, OF ensureLayoutBody_holds]
  by (auto simp: ensureLayout_def EnsureLayoutV2_def simp del: retryLoop.simps split: option.splits if_splits)

lemma WriteLineageBase_holds: "WriteLineageBase l p w = (x, w1) \<Longrightarrow> holds P w \<Longrightarrow> holds P w1"
  by (auto simp: WriteLineageBase_def put_base split: cases_splits elim!: bPutIf_holds)

lemma newLineageAt_holds: "newLineageAt env r cp ms mat w = (x, w1) \<Longrightarrow> holds P w \<Longrightarrow> holds P w1"
  by (auto simp: newLineageAt_def Let_def split: cases_splits
      dest: read_holds(3) dest!: copyToNew_holds ensureLayout_holds WriteLineageBase_holds)

subsection \<open>Create and fork\<close>

lemma createFromQuiesced_holds: "createFromQuiesced env db wal f w = (x, w1) \<Longrightarrow> holds P w \<Longrightarrow> holds P w1"
  by (auto simp: createFromQuiesced_def snapshotTo_def put_snapshot createdRef_sound split: cases_splits
      dest: read_holds(2) dest!: createRef_holds elim!: bPutIf_holds)

lemma forkNameFree_holds: "forkNameFree env db b ms w = (x, w1) \<Longrightarrow> holds P w \<Longrightarrow> holds P w1"
  by (auto simp: forkNameFree_def split: cases_splits dest: read_holds(1))

lemma forkAt_holds:
  "forkAt env db sb nb ttl meta r cp w = (x, w1) \<Longrightarrow> holds P w \<Longrightarrow> cpTXID cp \<noteq> 0 \<Longrightarrow> holds P w1"
  by (auto simp: forkAt_def forkedRef_sound split: cases_splits
      dest!: chainAtCheckpoint_holds forkNameFree_holds newLineageAt_holds createRef_holds)

lemma forkWith_holds: "forkWith env db sb nb at ttl meta w = (x, w1) \<Longrightarrow> holds P w \<Longrightarrow> holds P w1"
  by (auto simp: forkWith_def forkPoint_sound split: cases_splits
      dest!: GetRef_Inr_holds GetRef_Inl_holds forkAt_holds)

lemma replaceSafetyFork_holds: "replaceSafetyFork denv db b n k w = (x, w1) \<Longrightarrow> holds P w \<Longrightarrow> holds P w1"
  by (auto simp: replaceSafetyFork_def split: cases_splits dest!: GetRef_Inr_holds GetRef_Inl_holds Destroy_holds)

lemma safetyFork_holds: "safetyFork env denv db b sfx k ttl w = (x, w1) \<Longrightarrow> holds P w \<Longrightarrow> holds P w1"
  by (auto simp: safetyFork_def Let_def split: cases_splits dest!: replaceSafetyFork_holds forkWith_holds)

subsection \<open>Refreshing a checkout\<close>

lemma applyLongestPrefix_holds: "applyLongestPrefix lc sha io ms cache w = (x, c1, w1) \<Longrightarrow> holds P w \<Longrightarrow> holds P w1"
proof -
  have "prefixFrom k lc sha io ms cache w = (x, c1, w1) \<Longrightarrow> holds P w \<Longrightarrow> holds P w1" for k
    by (induction k)
       (auto simp: Let_def extendEntry_def split: cases_splits dest!: applyMembers_holds)
  then show "applyLongestPrefix lc sha io ms cache w = (x, c1, w1) \<Longrightarrow> holds P w \<Longrightarrow> holds P w1"
    by (simp add: applyLongestPrefix_def)
qed

lemma buildByChainEntry_holds:
  "buildByChainEntry st lc sha fsha io ms cache w = (x, c1, w1) \<Longrightarrow> holds P w \<Longrightarrow> holds P w1"
  by (auto simp: buildByChainEntry_def split: cases_splits dest!: applyLongestPrefix_holds materializeMembersAt_holds)

lemma materializeFromChain_holds:
  "materializeFromChain st lc sha fsha io ms cache w = (x, c1, w1) \<Longrightarrow> holds P w \<Longrightarrow> holds P w1"
  by (auto simp: materializeFromChain_def Let_def split: cases_splits dest!: buildByChainEntry_holds materializeMembersAt_holds)

lemma refreshFromChain_holds:
  "refreshFromChain st lc sha fsha io r cache w = (x, c1, w1) \<Longrightarrow> holds P w \<Longrightarrow> holds P w1"
  by (auto simp: refreshFromChain_def resolveChain_def split: cases_splits dest: read_holds(3) dest!: materializeFromChain_holds)

lemma placeHead_holds: "placeHead env rf r l w = (x, l1, w1) \<Longrightarrow> holds P w \<Longrightarrow> holds P w1"
  by (auto simp: placeHead_def Let_def split: cases_splits dest!: refreshFromChain_holds)

lemma refresh_holds:
  "refreshExisting env rf what r l w = (x, l1, w1) \<Longrightarrow> holds P w \<Longrightarrow> holds P w1"
  "refreshRolledBack env rf r l w = (x, l1, w1) \<Longrightarrow> holds P w \<Longrightarrow> holds P w1"
  by (auto simp: refreshExisting_def refreshRolledBack_def split: cases_splits dest!: placeHead_holds)

subsection \<open>Rollback, promote and compact\<close>

lemma copyKept_holds: "copyKept env r l seen cps copied w = (x, w1) \<Longrightarrow> holds P w \<Longrightarrow> holds P w1"
proof (induction env r l seen cps copied w rule: copyKept.induct)
  case (2 env r l seen n c rest copied w)
  show ?case
  proof (cases "cpTXID c \<in> set seen")
    case False
    obtain y w2 where y: "copySnapshotIntoLineage env r c l w = (y, w2)" by (cases "copySnapshotIntoLineage env r c l w")
    then show ?thesis
      using "2.prems"(1) "2.IH"(2) [OF False y [symmetric]] False copySnapshotIntoLineage_holds [OF y "2.prems"(2)]
      by (cases y) auto
  qed (use 2 in simp)
qed simp

lemma copyCheckpoints_holds: "copyCheckpoints env r l t cps w = (x, w1) \<Longrightarrow> holds P w \<Longrightarrow> holds P w1"
  by (auto simp: copyCheckpoints_def cleanupKeys_holds split: cases_splits dest!: copyKept_holds)

lemma copyCheckpoints_cases:
  "copyCheckpoints env r l t cps w = (Inl e, w1) \<Longrightarrow> holds P w \<Longrightarrow> holds P w1"
  "copyCheckpoints env r l t cps w = (Inr (cps', ks), w1) \<Longrightarrow> holds P w \<Longrightarrow>
     holds P w1 \<and> cps' = map (\<lambda>(n, c). (n, relocated c)) cps"
  using copyCheckpoints_holds by (auto simp: copyCheckpoints_def split: cases_splits)

lemma rollbackLineage_holds: "rollbackLineage env mat r cp w = (x, w1) \<Longrightarrow> holds P w \<Longrightarrow> holds P w1"
  by (auto simp: rollbackLineage_def Let_def split: cases_splits
      dest!: chainAtCheckpoint_holds newLineageAt_holds copyCheckpoints_holds)

lemma rollbackTo_holds:
  assumes "rollbackTo env mat db b r t cp w = (x, w1)" "holds P w" "soundRef r" "cpTXID cp \<noteq> 0"
  shows "holds P w1"
proof (cases "rollbackLineage env mat r cp w")
  case (Pair y w2)
  note h = rollbackLineage_holds [OF Pair assms(2)]
  show ?thesis
  proof (cases y)
    case (Inr p)
    then obtain l base kept ks where p: "y = Inr (l, base, kept, ks)" by (cases p) auto
    then have "soundCheckpoints kept"
      using Pair soundCheckpoints_kept [OF soundRef_checkpoints [OF assms(3)], of "cpTXID cp"] soundCheckpoints_relocated
      by (auto simp: rollbackLineage_def copyCheckpoints_def Let_def split: cases_splits)
    then have "soundRef (rolledBack (reTouch env) r l (cpTXID cp) kept base)" using rolledBack_sound assms(4) by blast
    then show ?thesis
      using assms(1) Pair p h by (auto simp: rollbackTo_def Let_def split: cases_splits dest!: repointRef_holds)
  qed (use assms(1) Pair h in \<open>simp add: rollbackTo_def\<close>)
qed

lemma RollbackWith_holds: "RollbackWith env fenv denv rf db b cpn opts l w = (x, l1, w1) \<Longrightarrow> holds P w \<Longrightarrow> holds P w1"
  by (auto simp: RollbackWith_def rollbackBackup_def checkpoint_sound split: cases_splits
      dest!: GetRef_Inr_holds GetRef_Inl_holds safetyFork_holds rollbackTo_holds refresh_holds)

lemma promoteTo_holds: "promoteTo env mat db sb tb src tgt t w = (x, w1) \<Longrightarrow> holds P w \<Longrightarrow> soundRef src \<Longrightarrow> holds P w1"
proof -
  assume a: "promoteTo env mat db sb tb src tgt t w = (x, w1)" "holds P w" "soundRef src"
  have "cpTXID (headCheckpoint src) \<noteq> 0" using a(3) by (simp add: headCheckpoint_def soundRef_def)
  then show "holds P w1"
    using a(1,2) by (auto simp: promoteTo_def Let_def promotedRef_sound split: cases_splits
        dest!: chainAtCheckpoint_holds newLineageAt_holds repointRef_holds)
qed

lemma PromoteWith_holds: "PromoteWith env fenv denv rf db sb tb opts l w = (x, l1, w1) \<Longrightarrow> holds P w \<Longrightarrow> holds P w1"
  by (auto simp: PromoteWith_def promoteKeeps_def promoteBackup_def split: cases_splits
      dest!: GetRef_Inr_holds GetRef_Inl_holds safetyFork_holds promoteTo_holds refresh_holds)

lemma compactTo_holds:
  assumes "compactTo env db b r t w = (x, w1)" "holds P w" "soundRef r"
  shows "holds P w1"
proof -
  have "soundRef (rolledBack (reTouch env) r l (rHeadTXID r)
      (compactedCheckpoints (reStamp env) (rHeadTXID r) (map (\<lambda>(n, c). (n, relocated c)) (rCheckpoints r))) None)" for l
    using assms(3) by (intro rolledBack_sound soundCheckpoints_compacted soundCheckpoints_relocated soundRef_checkpoints)
      (simp_all add: soundRef_def)
  then show ?thesis
    using assms(1,2)
    by (auto simp: compactTo_def Let_def headCheckpoint_def split: cases_splits
        dest!: copySnapshotToNewLineage_holds copyCheckpoints_cases repointRef_holds)
qed

lemma CompactWith_holds: "CompactWith env rf db b force l w = (x, l1, w1) \<Longrightarrow> holds P w \<Longrightarrow> holds P w1"
  by (auto simp: CompactWith_def split: cases_splits list.splits dest: read_holds(3)
      dest!: GetRef_Inr_holds GetRef_Inl_holds compactTo_holds refresh_holds)

end

section \<open>Typed stores\<close>

definition isBaseKey :: "key \<Rightarrow> bool" where
  "isBaseKey k \<longleftrightarrow> hasPrefix k ''data/'' \<and> hasSuffix k ''/base.json''"

text \<open>What may be stored under a key: a sound ref, a base pointer that does not lead to its own lineage, a manifest
  of a known layout; the other objects are opaque to the store.\<close>

definition objectOk :: "key \<Rightarrow> content \<Rightarrow> bool" where
  "objectOk k c \<longleftrightarrow>
     (if hasPrefix k ''refs/'' then (case decodeRef c of Inl _ \<Rightarrow> False | Inr r \<Rightarrow> soundRef r)
      else if isBaseKey k then (case c of CBase p \<Rightarrow> k \<noteq> BaseKey (bpLineage p) | _ \<Rightarrow> False)
      else if k = manifestKey then (case c of CManifest m \<Rightarrow> mLayoutVersion m \<le> LayoutVersion | _ \<Rightarrow> False)
      else True)"

definition typed :: "objs \<Rightarrow> bool" where
  "typed s \<longleftrightarrow> msorted s \<and> list_all (\<lambda>(k, c). objectOk k c) s"

lemma typed_mput: "typed s \<Longrightarrow> objectOk k c \<Longrightarrow> typed (mput k c s)"
  using set_mput [of k c s] by (auto simp: typed_def list_all_iff)

lemma key_shapes:
  "hasPrefix (RefKey db b) ''refs/''" "\<not> hasPrefix (BaseKey l) ''refs/''" "isBaseKey (BaseKey l)"
  "\<not> hasPrefix (SnapshotKey l e t) ''refs/''" "\<not> isBaseKey (SnapshotKey l e t)" "SnapshotKey l e t \<noteq> manifestKey"
  "\<not> hasPrefix manifestKey ''refs/''" "\<not> isBaseKey manifestKey"
  by (auto simp: RefKey_def BaseKey_def SnapshotKey_def manifestKey_def isBaseKey_def hasPrefix_def hasSuffix_def)

interpretation typing: store_typing typed
proof (unfold_locales, goal_cases)
  case (1 s r db b)
  then show ?case using key_shapes by (intro typed_mput) (auto simp: objectOk_def soundRef_def decodeRef_marshalRef)
next
  case (2 s p l)
  then show ?case using key_shapes by (intro typed_mput) (auto simp: objectOk_def)
next
  case (3 s l e t c)
  then show ?case using key_shapes by (intro typed_mput) (auto simp: objectOk_def)
next
  case (4 s m)
  then show ?case using key_shapes by (intro typed_mput) (auto simp: objectOk_def)
next
  case (5 s k)
  then show ?case by (auto simp: typed_def mdel_def list_all_iff sorted_wrt_map intro: sorted_wrt_filter)
next
  case (6 s db b r)
  then obtain c where "(RefKey db b, c) \<in> set s" "decodeRef c = Inr r"
    by (auto simp: refAt_def split: option.splits sum.splits dest: map_of_SomeD)
  then show ?case using 6(1) key_shapes(1) [of db b] by (auto simp: typed_def list_all_iff objectOk_def)
qed


text \<open>A fork, and the ref it would move to a lineage that shares the old one.\<close>

definition sampleRepoint :: "ltxCode \<Rightarrow> repointEnv" where
  "sampleRepoint code =
     \<lparr>reNow = 2000, reTouch = 2001, reStamp = ''t9'', reFresh = ''l9'', reEvery = 0, reV2 = True, reSidecar = None,
      reStreams = True, reCode = code, reEncode = (\<lambda>_. CRaw ''S'')\<rparr>"


end
