(* ===== verification/Checking_Out.thy ===== *)
theory Checking_Out
  imports Repoint_Safety
begin

text \<open>
  Checking a branch out: \<^verbatim>\<open>CheckoutProven\<close> of \<^verbatim>\<open>internal/ops/ops.go\<close>. A checkout that is there is quiesced and
  kept when its sidecar proves it clean at the branch's head; anything else is replaced by the file the head's
  chain materializes to, through the by-chain cache, and stamped with the branch's identity.

  What the call sees of the checkout is its environment, as in \<^verbatim>\<open>Repoint\<close>: \<^verbatim>\<open>seen\<close> is the pass of
  \<^verbatim>\<open>checkoutState\<close> over the file found, \<^verbatim>\<open>rfProbe\<close> the one that stamps the file placed. Warnings and the
  observer are left out.

  The property is that the call leaves the branch's head: file, sidecar and cache.
\<close>

section \<open>The operation\<close>

record checkoutResult =
  crClean :: bool
  crRef :: ref
  crPostApply :: u64

text \<open>The checkout that is there: refused when it cannot be quiesced, else the checksum of a clean one, and the
  sidecar \<^verbatim>\<open>checkoutState\<close> leaves.\<close>

definition foundCheckout :: "refreshEnv \<Rightarrow> probe \<Rightarrow> ref \<Rightarrow> checkout \<Rightarrow> err + u64 option \<times> checkout" where
  "foundCheckout rf seen r co =
     (if \<not> rfExists rf then Inr (None, co)
      else case rfQuiesce rf of
             Some e \<Rightarrow> Inl (retryHint e)
           | None \<Rightarrow>
               (case checkoutState (rfFileSha rf) (coSidecar co) r seen of
                  (state, checksum, file) \<Rightarrow>
                    Inr (if state = ''clean'' then Some checksum else None, co\<lparr>coSidecar := file\<rparr>)))"

text \<open>A file cloned from an entry has its hash on record; one written directly is hashed.\<close>

definition stampPlaced :: "refreshEnv \<Rightarrow> ref \<Rightarrow> string \<Rightarrow> u64 \<Rightarrow> string \<Rightarrow> err + sumRecord" where
  "stampPlaced rf r hash checksum chain =
     (if hash = [] then writeSum (rfFileSha rf) (rfProbe rf) (rLineage r, rHeadEpoch r, rHeadTXID r) checksum chain
      else StampSum (pbBefore (rfProbe rf)) (pbNow (rfProbe rf)) hash (rLineage r, rHeadEpoch r, rHeadTXID r) checksum chain)"

definition placeCheckout :: "repointEnv \<Rightarrow> refreshEnv \<Rightarrow> ref \<Rightarrow> local \<Rightarrow> world \<Rightarrow> err option \<times> local \<times> world" where
  "placeCheckout env rf r = (\<lambda>(co, cache) w.
     (case resolveChain r (rHeadTXID r) w of
        (Inl e, w1) \<Rightarrow> (Some e, (co, cache), w1)
      | (Inr members, w1) \<Rightarrow>
          (case materializeFromChain (reStreams env) (reCode env) (rfSha rf) (rfFileSha rf) (rfIO rf) members cache w1 of
             (Inl e, cache1, w2) \<Rightarrow> (Some e, (co, cache1), w2)
           | (Inr (kind, checksum, hash, f), cache1, w2) \<Rightarrow>
               let cache2 = (if kind \<noteq> ''clone'' then pruneByChain DefaultByChainMaxEntries cache1 else cache1);
                   co1 = co\<lparr>coFile := Some f, coWal := 0\<rparr> in
               (case stampPlaced rf r hash checksum (chainID (rfSha rf) members) of
                  Inl e \<Rightarrow> (Some e, (co1, cache2), w2)
                | Inr rec \<Rightarrow> (None, (refreshShadow (rfClone rf) (co1\<lparr>coSidecar := Some rec\<rparr>), cache2), w2)))))"

definition CheckoutProven ::
  "repointEnv \<Rightarrow> refreshEnv \<Rightarrow> probe \<Rightarrow> string \<Rightarrow> string \<Rightarrow> local \<Rightarrow> world \<Rightarrow> (err + checkoutResult) \<times> local \<times> world" where
  "CheckoutProven env rf seen db branch = (\<lambda>(co, cache) w.
     (case ValidateName db of Some e \<Rightarrow> (Inl e, (co, cache), w) | None \<Rightarrow>
     (case ValidateName branch of Some e \<Rightarrow> (Inl e, (co, cache), w) | None \<Rightarrow>
     (case GetRef db branch w of
        (Inl e, w1) \<Rightarrow> (Inl e, (co, cache), w1)
      | (Inr (r, _), w1) \<Rightarrow>
     (case foundCheckout rf seen r co of
        Inl e \<Rightarrow> (Inl e, (co, cache), w1)
      | Inr (Some checksum, co1) \<Rightarrow> (Inr \<lparr>crClean = True, crRef = r, crPostApply = checksum\<rparr>, (co1, cache), w1)
      | Inr (None, co1) \<Rightarrow>
     (case rfMkdir rf of Some e \<Rightarrow> (Inl e, (co1, cache), w1) | None \<Rightarrow>
     (case placeCheckout env rf r (co1, cache) w1 of
        (Some e, l, w2) \<Rightarrow> (Inl e, l, w2)
      | (None, l, w2) \<Rightarrow> (Inr \<lparr>crClean = False, crRef = r, crPostApply = 0\<rparr>, l, w2))))))))"

section \<open>What it leaves\<close>

text \<open>The branch's head resolves to a chain whose objects are stored and whose every state is a database.\<close>

definition headReads ::
  "repointEnv \<Rightarrow> objs \<Rightarrow> (key \<Rightarrow> content option) \<Rightarrow> ref \<Rightarrow> chainMember list \<Rightarrow> bool" where
  "headReads env s obj r ms \<longleftrightarrow>
     Chain (viewOf s) (rLineage r) (rHeadTXID r) = Inr ms \<and> stored s obj ms \<and>
     wholeStates (reCode env) (contentsOf obj ms) \<and> goodKeys ms"

text \<open>A sidecar that names the head tells the head's hash and checksum.\<close>

definition describes :: "(bytes \<Rightarrow> string) \<Rightarrow> ref \<Rightarrow> u64 \<Rightarrow> bytes \<Rightarrow> sumRecord option \<Rightarrow> bool" where
  "describes fsha r sm f file \<longleftrightarrow>
     (\<forall>rec. readSidecar file = Some rec \<and> atHead rec r \<longrightarrow> srHash rec = fsha f \<and> srPostApply rec = sm)"

text \<open>The file found, over time: its sidecar came from stamps, and nobody wrote while the call looked at it.\<close>

definition watched :: "(bytes \<Rightarrow> string) \<Rightarrow> probe \<Rightarrow> checkout \<Rightarrow> bool" where
  "watched fsha seen co \<longleftrightarrow>
     (\<exists>h lib bsz t t1 t2. settles h \<and> stamped fsha lib bsz h t (coSidecar co) \<and> t \<le> pbNow seen \<and> observes h t1 t2 seen \<and>
        coFile co = Some (fst (h t1)) \<and> pbRead seen \<in> {None, coFile co})"

text \<open>The file system does what it is asked, and nobody writes the placed file before it is stamped.\<close>

definition placesWell :: "refreshEnv \<Rightarrow> bytes \<Rightarrow> bool" where
  "placesWell rf f \<longleftrightarrow>
     rfQuiesce rf = None \<and> rfMkdir rf = None \<and> pbBefore (rfProbe rf) \<noteq> None \<and> pbRead (rfProbe rf) = Some f"

definition atRest :: "(bytes \<Rightarrow> string) \<Rightarrow> ref \<Rightarrow> u64 \<Rightarrow> bytes \<Rightarrow> checkout \<Rightarrow> bool" where
  "atRest fsha r sm f co \<longleftrightarrow>
     coFile co = Some f \<and>
     (\<exists>rec. readSidecar (coSidecar co) = Some rec \<and> atHead rec r \<and> srHash rec = fsha f \<and> srPostApply rec = sm)"

lemma stamp_ident [simp]:
  "atHead (stampSumWithFingerprint hash (rLineage r, rHeadEpoch r, rHeadTXID r) post c fp sh ch) r"
  "srPostApply (stampSumWithFingerprint hash i post c fp sh ch) = post"
  by (auto simp: atHead_def stampSumWithFingerprint_def Let_def split: option.split prod.split)

lemma refreshShadow_atRest:
  "atRest fsha r sm f co \<Longrightarrow> atRest fsha r sm f (refreshShadow clone co)"
  by (auto simp: atRest_def refreshShadow_def dropShadow_def setSidecarShadow_def readSidecar_def atHead_def Let_def
      split: option.splits if_splits)

lemma stampPlaced_run:
  assumes "placesWell rf f" "hash \<in> {[], rfFileSha rf f}"
  shows "\<exists>fp. stampPlaced rf r hash sm c =
    Inr (stampSumWithFingerprint (rfFileSha rf f) (rLineage r, rHeadEpoch r, rHeadTXID r) sm c fp False [])"
proof (cases "hash = []")
  case True
  then show ?thesis using assms(1) by (auto simp: stampPlaced_def writeSum_def sandwichedSum_def fileSum_def placesWell_def)
next
  case False
  obtain d where "pbBefore (rfProbe rf) = Some d" using assms(1) by (auto simp: placesWell_def)
  then show ?thesis using False assms(2) by (cases d) (auto simp: stampPlaced_def StampSum_def stampFingerprint_def)
qed

lemma honest_mdel: "honest lc sha fsha obj cache \<Longrightarrow> honest lc sha fsha obj (mdel k cache)"
  by (auto simp: honest_def entryHonest_def byChainEntry_def split: option.splits)

lemma honest_fold_mdel: "honest lc sha fsha obj cache \<Longrightarrow> honest lc sha fsha obj (fold mdel ks cache)"
  by (induction ks arbitrary: cache) (simp_all add: honest_mdel)

lemma honest_prune: "honest lc sha fsha obj cache \<Longrightarrow> honest lc sha fsha obj (pruneByChain most cache)"
  by (simp add: pruneByChain_def Let_def honest_fold_mdel)

lemma placeCheckout_run:
  assumes "quiet w" "headReads env (wObjs w) obj r ms" "materializeMembersAt (reStreams env) (reCode env) ms w = (Inr (sm, f), w)"
    and "inj (rfSha rf)" "rfFileSha rf f \<noteq> []" "honest (reCode env) (rfSha rf) (rfFileSha rf) obj cache" "placesWell rf f"
  shows "\<exists>co' cache'. placeCheckout env rf r (co, cache) w = (None, (co', cache'), w) \<and> atRest (rfFileSha rf) r sm f co' \<and>
    honest (reCode env) (rfSha rf) (rfFileSha rf) obj cache'"
proof -
  have hr: "Chain (viewOf (wObjs w)) (rLineage r) (rHeadTXID r) = Inr ms" "stored (wObjs w) obj ms"
    "wholeStates (reCode env) (contentsOf obj ms)" "goodKeys ms" using assms(2) by (simp_all add: headReads_def)
  obtain kind hash cache1 where m:
    "materializeFromChain (reStreams env) (reCode env) (rfSha rf) (rfFileSha rf) (rfIO rf) ms cache w = (Inr (kind, sm, hash, f), cache1, w)"
    "hash \<in> {[], rfFileSha rf f}" "honest (reCode env) (rfSha rf) (rfFileSha rf) obj cache1"
    using materializeFromChain_run [OF assms(1) hr(2-4) assms(4,6), of "reStreams env" "rfIO rf"] assms(3) by auto
  obtain fp where st: "stampPlaced rf r hash sm (chainID (rfSha rf) ms) =
      Inr (stampSumWithFingerprint (rfFileSha rf f) (rLineage r, rHeadEpoch r, rHeadTXID r) sm (chainID (rfSha rf) ms) fp False [])"
    using stampPlaced_run [OF assms(7) m(2)] by blast
  have "resolveChain r (rHeadTXID r) w = (Inr ms, w)" by (simp add: resolveChain_def readView_quiet [OF assms(1)] hr(1))
  moreover have "atRest (rfFileSha rf) r sm f (refreshShadow (rfClone rf) (co\<lparr>coFile := Some f, coWal := 0, coSidecar :=
      Some (stampSumWithFingerprint (rfFileSha rf f) (rLineage r, rHeadEpoch r, rHeadTXID r) sm (chainID (rfSha rf) ms) fp False [])\<rparr>))"
    by (rule refreshShadow_atRest) (simp add: atRest_def readSidecar_def assms(5))
  ultimately show ?thesis using m st honest_prune [OF m(3)] by (auto simp: placeCheckout_def Let_def)
qed

text \<open>A clean checkout is at rest already, and the sidecar the verdict leaves says so.\<close>

lemma foundCheckout_clean:
  assumes "watched (rfFileSha rf) seen co" "describes (rfFileSha rf) r sm f (coSidecar co)" "inj (rfFileSha rf)"
    and "rfFileSha rf f \<noteq> []" "rfExists rf" "foundCheckout rf seen r co = Inr (Some checksum, co1)"
  shows "checksum = sm \<and> atRest (rfFileSha rf) r sm f co1"
proof -
  obtain h lib bsz t t1 t2 where h: "settles h" "stamped (rfFileSha rf) lib bsz h t (coSidecar co)" "t \<le> pbNow seen"
    "observes h t1 t2 seen" and co: "coFile co = Some (fst (h t1))" "pbRead seen \<in> {None, coFile co}"
    using assms(1) by (auto simp: watched_def)
  obtain sidecar where ck: "checkoutState (rfFileSha rf) (coSidecar co) r seen = (''clean'', checksum, sidecar)"
    "co1 = co\<lparr>coSidecar := sidecar\<rparr>"
    using assms(5,6) by (auto simp: foundCheckout_def split: option.splits prod.splits if_splits)
  obtain rec where rec: "readSidecar (coSidecar co) = Some rec" "atHead rec r" "checksum = srPostApply rec"
    "rfFileSha rf (fst (h t1)) = srHash rec \<or> (\<exists>b. pbRead seen = Some b \<and> rfFileSha rf b = srHash rec)"
    using checkoutState_clean [OF h ck(1)] by blast
  have d: "srHash rec = rfFileSha rf f" "srPostApply rec = sm" using assms(2) rec by (auto simp: describes_def)
  have "fst (h t1) = f" using rec(4) co d(1) assms(3) by (auto simp: inj_eq)
  moreover have "\<exists>rec. readSidecar sidecar = Some rec \<and> atHead rec r \<and> srHash rec = rfFileSha rf f \<and> srPostApply rec = sm"
    using ck(1)
  proof (cases rule: checkoutState_cases)
    case kept
    then show ?thesis using rec d by auto
  next
    case (hashed rec' b)
    have "rec' = rec" using hashed(1) rec(1) by simp
    then have "rfFileSha rf b = rfFileSha rf f" "checksum = sm" using hashed(5) rec(3) d by simp_all
    then show ?thesis unfolding hashed(6) using assms(4) by (simp add: readSidecar_def)
  qed
  ultimately show ?thesis using rec(3) d(2) co(1) ck(2) by (simp add: atRest_def)
qed

section \<open>Properties\<close>

text \<open>C17: Checking a branch out of an undisturbed store leaves its head. The file is the one the head's chain
  materializes to, the sidecar names the head with that file's hash and checksum, and the cache stays honest:
  whether the checkout found was proved clean by fingerprint or hash and kept, or replaced. The sidecar found
  must have come from stamps and tell the truth where it names the head; nobody writes the file meanwhile; the
  file system settles and does what it is asked; SHA-256 has no collisions.\<close>

theorem checkout_is_head:
  assumes "quiet w" "valid_name db" "valid_name branch" "refAt (wObjs w) db branch = Some r"
    and "headReads env (wObjs w) obj r ms" "materializeMembersAt (reStreams env) (reCode env) ms w = (Inr (sm, f), w)"
    and "inj (rfSha rf)" "inj (rfFileSha rf)" "rfFileSha rf f \<noteq> []"
    and "honest (reCode env) (rfSha rf) (rfFileSha rf) obj cache" "placesWell rf f"
    and "rfExists rf \<Longrightarrow> watched (rfFileSha rf) seen co \<and> describes (rfFileSha rf) r sm f (coSidecar co)"
  shows "\<exists>res co' cache'. CheckoutProven env rf seen db branch (co, cache) w = (Inr res, (co', cache'), w) \<and>
    crRef res = r \<and> (crClean res \<longrightarrow> crPostApply res = sm) \<and> atRest (rfFileSha rf) r sm f co' \<and>
    honest (reCode env) (rfSha rf) (rfFileSha rf) obj cache'"
proof -
  obtain t where g: "GetRef db branch w = (Inr (r, t), w)" using GetRef_found [OF assms(1-4)] by blast
  have ok: "rfQuiesce rf = None" "rfMkdir rf = None" using assms(11) by (simp_all add: placesWell_def)
  have "\<exists>x co1. foundCheckout rf seen r co = Inr (x, co1)"
    by (cases "checkoutState (rfFileSha rf) (coSidecar co) r seen") (simp add: foundCheckout_def ok)
  then obtain x co1 where fc: "foundCheckout rf seen r co = Inr (x, co1)" by blast
  show ?thesis
  proof (cases x)
    case None
    then show ?thesis using placeCheckout_run [OF assms(1,5,6,7,9,10,11), of co1] assms(2,3)
      by (auto simp: CheckoutProven_def g fc ok)
  next
    case (Some checksum)
    then have ex: "rfExists rf" using fc by (auto simp: foundCheckout_def split: if_splits)
    show ?thesis using foundCheckout_clean [OF _ _ assms(8,9) ex, of seen co r sm checksum co1] assms(12) [OF ex] fc Some assms(2,3,10)
      by (auto simp: CheckoutProven_def g)
  qed
qed

definition sampleEarlier :: ref where
  "sampleEarlier = sampleRef\<lparr>rHeadTXID := 2\<rparr>"

definition sampleBehind :: world where
  "sampleBehind = sampleWorld\<lparr>wObjs := mput (RefKey ''app'' ''work'') (marshalRef sampleEarlier) sampleStore\<rparr>"

definition sampleRefresh :: "bytes \<Rightarrow> refreshEnv" where
  "sampleRefresh f =
     \<lparr>rfExists = True, rfQuiesce = None, rfMkdir = None,
      rfProbe = \<lparr>pbNow = 4000000000, pbBefore = Some (f, 0), pbRead = Some f, pbWal = 0, pbAfter = Some (f, 0)\<rparr>,
      rfClone = Some f, rfIO = \<lparr>ioClone = True, ioProbe = True, ioStage = True, ioStamp = True, ioNow = 5\<rparr>,
      rfSha = (\<lambda>x. x), rfFileSha = sampleSha\<rparr>"

definition sampleStale :: checkout where
  "sampleStale = \<lparr>coFile = Some (fst sampleFile), coWal = 0, coSidecar = Some sampleStamp, coShadow = None\<rparr>"

lemma sampleSha_inj: "inj sampleSha"
proof -
  have "inj (\<lambda>x :: 8 word. char_of (unat x) :: char)"
  proof (rule inj_on_inverseI)
    fix x :: "8 word"
    have "unat x < 256" using unsigned_less [of x, where ?'a = nat] by simp
    then show "of_nat (of_char (char_of (unat x) :: char)) = x" by (simp add: of_char_of)
  qed
  then have "inj (map (\<lambda>x :: 8 word. char_of (unat x) :: char))" by (rule inj_mapI)
  then show ?thesis by (simp add: inj_def sampleSha_def)
qed

lemma sampleStale_watched: "watched sampleSha (sampleProbe 3000000000 None) sampleStale"
  unfolding watched_def
  by (intro exI [of _ "\<lambda>_. sampleFile"] exI [of _ sampleLib] exI [of _ 65536] exI [of _ 2000000001] exI [of _ 3000000001]
      exI [of _ 3000000002] conjI)
    (use sampleStamp_stamped in \<open>auto simp: sampleStale_def settles_def observes_def readsOver_def sampleProbe_def\<close>)

text \<open>A checkout left behind by a repoint is replaced by the branch's head.\<close>

theorem checkout_is_head_witness:
  "\<exists>lc sm f. headReads (sampleRepoint lc) (wObjs sampleBehind) (map_of sampleStore) sampleEarlier [snap1, seg2] \<and>
     watched sampleSha (sampleProbe 3000000000 None) sampleStale \<and> describes sampleSha sampleEarlier sm f (coSidecar sampleStale) \<and>
     (\<exists>res co' cache'. CheckoutProven (sampleRepoint lc) (sampleRefresh f) (sampleProbe 3000000000 None) ''app'' ''work''
        (sampleStale, []) sampleBehind = (Inr res, (co', cache'), sampleBehind) \<and> atRest sampleSha sampleEarlier sm f co')"
proof -
  obtain lc where st: "stored (wObjs sampleWorld) (map_of sampleStore) [snap1, seg2]"
    and whole: "wholeStates lc (contentsOf (map_of sampleStore) [snap1, seg2])" using sample_states by blast
  let ?env = "sampleRepoint lc"
  have q: "quiet sampleBehind" by (simp add: sampleBehind_def sampleWorld_def quiet_def)
  have good: "goodKeys [snap1, seg2]" by code_simp
  have "localGet (wObjs sampleBehind) (cmKey m) = localGet (wObjs sampleWorld) (cmKey m)" if "m \<in> {snap1, seg2}" for m
    using that by (elim insertE) (simp_all, (code_simp)+)
  then have st2: "stored (wObjs sampleBehind) (map_of sampleStore) [snap1, seg2]" using st by (simp add: stored_def)
  have ch: "Chain (viewOf (wObjs sampleBehind)) (rLineage sampleEarlier) (rHeadTXID sampleEarlier) = Inr [snap1, seg2]" by code_simp
  have hr: "headReads ?env (wObjs sampleBehind) (map_of sampleStore) sampleEarlier [snap1, seg2]"
    using ch st2 whole good by (simp add: headReads_def sampleRepoint_def)
  obtain sm f where r: "runResult (chainRun lc (contentsOf (map_of sampleStore) [snap1, seg2])) = Some (sm, f)"
    using wholeStates_result [OF whole good] by blast
  have m: "materializeMembersAt (reStreams ?env) (reCode ?env) [snap1, seg2] sampleBehind = (Inr (sm, f), sampleBehind)"
    using materializeMembersAt_Some [OF q st2 r] by (simp add: sampleRepoint_def)
  have ref: "refAt (wObjs sampleBehind) ''app'' ''work'' = Some sampleEarlier" by code_simp
  have v: "valid_name ''app''" "valid_name ''work''" by code_simp+
  have hon: "honest (reCode ?env) (rfSha (sampleRefresh f)) (rfFileSha (sampleRefresh f)) (map_of sampleStore) []"
    by (simp add: honest_def entryHonest_def byChainEntry_def)
  have ij: "inj (rfSha (sampleRefresh f))" "inj (rfFileSha (sampleRefresh f))"
    by (simp_all add: sampleRefresh_def sampleSha_inj)
  have ne: "rfFileSha (sampleRefresh f) f \<noteq> []" by (simp add: sampleRefresh_def sampleSha_def)
  have pw: "placesWell (sampleRefresh f) f" by (simp add: placesWell_def sampleRefresh_def)
  have "\<not> atHead sampleStamp sampleEarlier" by code_simp
  then have d: "describes sampleSha sampleEarlier sm f (coSidecar sampleStale)"
    using readSidecar_Some by (fastforce simp: describes_def sampleStale_def)
  have fs: "rfFileSha (sampleRefresh f) = sampleSha" by (simp add: sampleRefresh_def)
  show ?thesis
    using checkout_is_head [OF q v ref hr m ij ne hon pw, of "sampleProbe 3000000000 None" sampleStale] hr d sampleStale_watched fs
    by (intro exI [of _ lc] exI [of _ sm] exI [of _ f]) auto
qed

end
