(* ===== verification/Repoint_Sharing.thy ===== *)
theory Repoint_Sharing
  imports Repoint_Safety
begin

text \<open>
  What a lineage that shares reads: the base pointer a fork or a rollback writes makes the new lineage resolve,
  at and below the fork point, to exactly the objects the old one resolves to, and no other lineage resolves
  differently for it. The operations are run undisturbed here; \<^verbatim>\<open>Repoint_Safety\<close> has what holds whatever others do.
\<close>

section \<open>What resolution does not see\<close>

lemma resolves_cong:
  assumes "resolves v l t seen ms"
    and "\<And>l t seen ms. resolves v l t seen ms \<Longrightarrow> lineageBase v' l = lineageBase v l \<and> listMembers v' l = listMembers v l"
  shows "resolves v' l t seen ms"
  using assms(1)
proof (induction rule: resolves.induct)
  case (Self l sn sg t ms seen)
  then show ?case using assms(2) [OF resolves.Self [OF Self]] by (intro resolves.Self) auto
next
  case (Below l b seen t ms)
  then show ?case using assms(2) [OF resolves.Below [OF Below(1-4)]] by (intro resolves.Below [of v' l b]) auto
next
  case (Own l b seen t sn sg ms)
  then show ?case using assms(2) [OF resolves.Own [OF Own]] by (intro resolves.Own [of v' l b]) auto
next
  case (Seam l b seen t sn sg e ps cs)
  then show ?case using assms(2) [OF resolves.Seam [OF Seam(1-10)]] by (intro resolves.Seam [of v' l b]) auto
qed

text \<open>An object that is no member of a lineage leaves the members of every lineage as they are.\<close>

lemma listMembers_other:
  assumes "msorted s" "ParseMemberKey k = None"
  shows "listMembers (viewOf (mput k c s)) l = listMembers (viewOf s) l"
proof -
  let ?f = "\<lambda>ks. List.map_filter ParseMemberKey (filter (\<lambda>k. \<not> listHidden k \<and> hasPrefix k (LineagePrefix l)) ks)"
  have "?f (mkeys (mput k c s)) = ?f (mkeys s)"
  proof (cases "k \<in> fst ` set s")
    case True
    then show ?thesis using mput_keys_same [OF assms(1)] by simp
  next
    case False
    obtain xs ys where "s = xs @ ys" "mput k c s = xs @ (k, c) # ys" using mput_split [OF False] by blast
    then show ?thesis using assms(2) by (simp add: List.map_filter_def)
  qed
  then show ?thesis
    using assms(1) by (simp add: listMembers_viewOf membersOf_def localList_filter msorted_mput)
qed

lemma lineageBase_other: "BaseKey l \<noteq> k \<Longrightarrow> lineageBase (viewOf (mput k c s)) l = lineageBase (viewOf s) l"
  by (cases "localPath (BaseKey l)") (simp_all add: lineageBase_def viewGet_def localGet_def)

lemma Chain_other:
  assumes "msorted s" "ParseMemberKey k = None" "\<And>l. BaseKey l \<noteq> k" "Chain (viewOf s) l t = Inr ms"
  shows "Chain (viewOf (mput k c s)) l t = Inr ms"
  unfolding Chain_iff
  by (rule resolves_cong [OF assms(4) [unfolded Chain_iff]])
     (simp add: listMembers_other [OF assms(1,2)] lineageBase_other [OF assms(3)])

section \<open>A lineage nobody knows\<close>

definition freshLineage :: "string \<Rightarrow> objs \<Rightarrow> bool" where
  "freshLineage l s \<longleftrightarrow> lineage_ok l \<and> localPath (BaseKey l) = None \<and> unmentioned l s \<and>
     list_all (\<lambda>(k, _). \<not> hasPrefix k (LineagePrefix l)) s"

lemma fresh_empty:
  assumes "freshLineage l s"
  shows "lineageBase (viewOf s) l = Inr None" "listMembers (viewOf s) l = Inr ([], [])" "map_of s (BaseKey l) = None"
proof -
  have no: "\<not> hasPrefix k (LineagePrefix l)" if "k \<in> fst ` set s" for k
    using assms that by (auto simp: freshLineage_def list_all_iff)
  have p: "hasPrefix (BaseKey l) (LineagePrefix l)" by (simp add: BaseKey_def LineagePrefix_def hasPrefix_def)
  then show m: "map_of s (BaseKey l) = None" using no by (metis map_of_eq_None_iff)
  then show "lineageBase (viewOf s) l = Inr None"
    using assms by (simp add: lineageBase_def viewGet_def localGet_def freshLineage_def errNotFound_def errors_is_def)
  have "localList s (LineagePrefix l) = []" using no by (auto simp: localList_def filter_empty_conv)
  then show "listMembers (viewOf s) l = Inr ([], [])"
    by (simp add: listMembers_viewOf membersOf_def List.map_filter_def keepHighestEpoch_def splitMembers_def)
qed

lemma fresh_unresolved:
  assumes "freshLineage l s"
  shows "\<not> resolves (viewOf s) l t seen ms"
proof
  assume "resolves (viewOf s) l t seen ms"
  then show False
    using fresh_empty(1,2) [OF assms] by (cases rule: resolves.cases) (simp_all add: resolveSelf_def)
qed

lemma fresh_unnamed:
  assumes "freshLineage l s" "lineageBase (viewOf s) x = Inr (Some b)"
  shows "bpLineage b \<noteq> l"
proof -
  have "map_of s (BaseKey x) = Some (CBase b)"
    using assms(2) by (auto simp: lineageBase_def viewGet_def localGet_def split: option.splits if_splits content.splits)
  from map_of_SomeD [OF this] show ?thesis
    using assms(1) by (auto simp: freshLineage_def unmentioned_def list_all_iff mentions_def)
qed

lemma resolves_share:
  assumes "msorted s" "freshLineage l s" "resolves (viewOf s) x t seen ms"
  shows "resolves (viewOf (mput (BaseKey l) (CBase p) s)) x t seen ms"
proof (rule resolves_cong [OF assms(3)])
  fix y u sn ns
  assume "resolves (viewOf s) y u sn ns"
  then have "y \<noteq> l" using fresh_unresolved [OF assms(2)] by blast
  then have "lineageBase (viewOf (mput (BaseKey l) (CBase p) s)) y = lineageBase (viewOf s) y"
    by (intro lineageBase_other) simp
  moreover have "lineage_ok l" using assms(2) by (simp add: freshLineage_def)
  ultimately show "lineageBase (viewOf (mput (BaseKey l) (CBase p) s)) y = lineageBase (viewOf s) y \<and>
      listMembers (viewOf (mput (BaseKey l) (CBase p) s)) y = listMembers (viewOf s) y"
    using listMembers_other [OF assms(1) ParseMemberKey_BaseKey] by simp
qed

lemma Chain_share:
  "msorted s \<Longrightarrow> freshLineage l s \<Longrightarrow> Chain (viewOf s) x t = Inr ms \<Longrightarrow>
   Chain (viewOf (mput (BaseKey l) (CBase p) s)) x t = Inr ms"
  unfolding Chain_iff by (rule resolves_share)

lemma Chain_shared:
  assumes "msorted s" "freshLineage l s" "Chain (viewOf s) x t = Inr ms" "t \<le> bpTXID p" "bpLineage p = x"
  shows "Chain (viewOf (mput (BaseKey l) (CBase p) s)) l t = Inr ms"
proof -
  let ?v = "viewOf (mput (BaseKey l) (CBase p) s)"
  have r: "resolves (viewOf s) x t [x] ms" using assms(3) by (simp add: Chain_iff)
  have x: "x \<noteq> l" using fresh_unresolved [OF assms(2)] r by blast
  have "resolves (viewOf s) x t [x, l] ms"
    by (rule resolves_seen [OF r, where S = "{l}"]) (use fresh_unnamed [OF assms(2)] in auto)
  then have "resolves ?v x t [x, l] ms" by (rule resolves_share [OF assms(1,2)])
  moreover have "lineageBase ?v l = Inr (Some p)"
    using assms(2) by (simp add: lineageBase_def viewGet_def localGet_def freshLineage_def)
  ultimately show ?thesis
    using x assms(4,5) unfolding Chain_iff by (intro resolves.Below [of ?v l p]) simp_all
qed

lemma collapse_ends: "resolves v l t seen ms \<Longrightarrow> \<exists>l'. collapseFrom v t l seen = Inr l'"
proof (induction rule: resolves.induct)
  case (Self l sn sg t ms seen)
  then show ?case by (subst collapseFrom.simps) simp
next
  case (Below l b seen t ms)
  then show ?case by (subst collapseFrom.simps) (auto simp: not_less)
next
  case (Own l b seen t sn sg ms)
  then show ?case by (subst collapseFrom.simps) simp
next
  case (Seam l b seen t sn sg e ps cs)
  then show ?case by (subst collapseFrom.simps) simp
qed

section \<open>The new lineage of a fork or a rollback\<close>

text \<open>The process has seen layout 2 before, or the store's manifest records it.\<close>

definition layoutReady :: "bool \<Rightarrow> objs \<Rightarrow> bool" where
  "layoutReady atLeastV2 s \<longleftrightarrow>
     atLeastV2 \<or> (case map_of s manifestKey of Some (CManifest m) \<Rightarrow> LayoutVersion \<le> mLayoutVersion m | _ \<Rightarrow> False)"

lemma ensureLayout_ready:
  assumes "quiet w" "layoutReady v (wObjs w)"
  shows "ensureLayout v w = (None, w)"
proof (cases v)
  case True
  then show ?thesis by (simp add: ensureLayout_def EnsureLayoutV2_def)
next
  case False
  then obtain m where m: "map_of (wObjs w) manifestKey = Some (CManifest m)" "LayoutVersion \<le> mLayoutVersion m"
    using assms(2) by (auto simp: layoutReady_def split: option.splits content.splits)
  have "ensureLayoutBody w = (Done None, w)"
    using assms(1) m by (simp add: ensureLayoutBody_def quiet_calls localGet_def localPath_manifest unmarshalManifest_def)
  then show ?thesis using False by (simp add: ensureLayout_def EnsureLayoutV2_def)
qed

text \<open>A store in which a base pointer for the lineage was added: the lineage resolves below the pointer's transaction
  as the other one did, and every chain that resolved still does.\<close>

definition sharedFrom :: "objs \<Rightarrow> string \<Rightarrow> u64 \<Rightarrow> string \<Rightarrow> objs \<Rightarrow> bool" where
  "sharedFrom s x u l s' \<longleftrightarrow>
     (\<forall>t ms. Chain (viewOf s) x t = Inr ms \<longrightarrow> t \<le> u \<longrightarrow> Chain (viewOf s') l t = Inr ms) \<and>
     (\<forall>y t ms. Chain (viewOf s) y t = Inr ms \<longrightarrow> Chain (viewOf s') y t = Inr ms)"

lemma newLineageAt_shares:
  assumes "quiet w" "msorted (wObjs w)" "freshLineage (reFresh env) (wObjs w)" "layoutReady (reV2 env) (wObjs w)"
    and "Chain (viewOf (wObjs w)) (rLineage r) (cpTXID cp) = Inr ms" "length members < shareBound env"
  obtains p where "newLineageAt env r cp members False w =
      (Inr (reFresh env, Some p, False), w\<lparr>wObjs := mput (BaseKey (reFresh env)) (CBase p) (wObjs w)\<rparr>)"
    "sharedFrom (wObjs w) (rLineage r) (cpTXID cp) (reFresh env) (mput (BaseKey (reFresh env)) (CBase p) (wObjs w))"
    "bpTXID p = cpTXID cp"
proof -
  let ?l = "reFresh env" and ?s = "wObjs w"
  obtain l' where l': "CollapseBase (viewOf ?s) (rLineage r) (cpTXID cp) = Inr l'"
    using collapse_ends assms(5) unfolding Chain_iff CollapseBase_def by blast
  define p where "p = \<lparr>bpLineage = l', bpTXID = cpTXID cp\<rparr>"
  have c: "Chain (viewOf ?s) l' t = Inr ns" if "Chain (viewOf ?s) (rLineage r) t = Inr ns" "t \<le> cpTXID cp" for t ns
    using Chain_CollapseBase_below [OF that(1) l' that(2)] .
  have "l' \<noteq> ?l" using fresh_unresolved [OF assms(3)] c [OF assms(5)] unfolding Chain_iff by blast
  then have "WriteLineageBase ?l p w = (None, w\<lparr>wObjs := mput (BaseKey ?l) (CBase p) ?s\<rparr>)"
    using assms(1,3) fresh_empty(3) [OF assms(3)]
    by (simp add: WriteLineageBase_def p_def quiet_calls localPutIf_def freshLineage_def)
  then have run: "newLineageAt env r cp members False w = (Inr (?l, Some p, False), w\<lparr>wObjs := mput (BaseKey ?l) (CBase p) ?s\<rparr>)"
    using assms(1,4,6) l' ensureLayout_ready
    by (simp add: newLineageAt_def materializes_def readView_quiet p_def Let_def)
  have "Chain (viewOf (mput (BaseKey ?l) (CBase p) ?s)) ?l t = Inr ns"
    if "Chain (viewOf ?s) (rLineage r) t = Inr ns" "t \<le> cpTXID cp" for t ns
    using Chain_shared [OF assms(2,3) c [OF that], of p] that(2) by (simp add: p_def)
  then have "sharedFrom ?s (rLineage r) (cpTXID cp) ?l (mput (BaseKey ?l) (CBase p) ?s)"
    unfolding sharedFrom_def using Chain_share [OF assms(2,3)] by blast
  then show ?thesis using that run by (simp add: p_def)
qed

lemma ParseMemberKey_RefKey: "ParseMemberKey (RefKey db b) = None"
  by (simp add: ParseMemberKey_def cutPrefix_def RefKey_def hasPrefix_def)

lemma sharedFrom_ref:
  assumes "sharedFrom s x u l s'" "msorted s'"
  shows "sharedFrom s x u l (mput (RefKey db b) c s')"
proof -
  have "BaseKey y \<noteq> RefKey db b" for y by (simp add: BaseKey_def RefKey_def)
  then show ?thesis
    using assms(1) Chain_other [OF assms(2) ParseMemberKey_RefKey] unfolding sharedFrom_def by blast
qed

text \<open>Nothing happens behind the call's back, the lineage it mints is new, and the layout allows base pointers.\<close>

definition sharingWorld :: "repointEnv \<Rightarrow> world \<Rightarrow> bool" where
  "sharingWorld env w \<longleftrightarrow>
     quiet w \<and> msorted (wObjs w) \<and> freshLineage (reFresh env) (wObjs w) \<and> layoutReady (reV2 env) (wObjs w)"

text \<open>The chain of the checkpoint is shorter than the bound, so that it is shared.\<close>

definition sharesAt :: "repointEnv \<Rightarrow> ref \<Rightarrow> checkpoint \<Rightarrow> world \<Rightarrow> bool" where
  "sharesAt env r cp w \<longleftrightarrow>
     (case Chain (viewOf (wObjs w)) (rLineage r) (cpTXID cp) of Inl _ \<Rightarrow> False | Inr _ \<Rightarrow> True) \<and>
     (case fst (chainAtCheckpoint env r cp w) of Inl _ \<Rightarrow> False | Inr members \<Rightarrow> length members < shareBound env)"

lemma chainAtCheckpoint_quiet: "quiet w \<Longrightarrow> snd (chainAtCheckpoint env r cp w) = w"
  by (auto simp: chainAtCheckpoint_def storeChain_def headChain_def readView_quiet split: option.splits sum.splits)

lemma shared_lineage:
  assumes "sharingWorld env w" "sharesAt env r cp w"
  obtains members p where "chainAtCheckpoint env r cp w = (Inr members, w)" "length members < shareBound env"
    "newLineageAt env r cp members False w =
      (Inr (reFresh env, Some p, False), w\<lparr>wObjs := mput (BaseKey (reFresh env)) (CBase p) (wObjs w)\<rparr>)"
    "sharedFrom (wObjs w) (rLineage r) (cpTXID cp) (reFresh env) (mput (BaseKey (reFresh env)) (CBase p) (wObjs w))"
    "bpTXID p = cpTXID cp"
proof -
  have w: "quiet w" "msorted (wObjs w)" "freshLineage (reFresh env) (wObjs w)" "layoutReady (reV2 env) (wObjs w)"
    using assms(1) by (simp_all add: sharingWorld_def)
  obtain ms where ms: "Chain (viewOf (wObjs w)) (rLineage r) (cpTXID cp) = Inr ms"
    using assms(2) by (auto simp: sharesAt_def split: sum.splits)
  obtain members where m: "chainAtCheckpoint env r cp w = (Inr members, w)" "length members < shareBound env"
    using assms(2) chainAtCheckpoint_quiet [OF w(1), of env r cp]
    by (cases "chainAtCheckpoint env r cp w") (auto simp: sharesAt_def split: sum.splits)
  obtain p where "newLineageAt env r cp members False w =
      (Inr (reFresh env, Some p, False), w\<lparr>wObjs := mput (BaseKey (reFresh env)) (CBase p) (wObjs w)\<rparr>)"
    "sharedFrom (wObjs w) (rLineage r) (cpTXID cp) (reFresh env) (mput (BaseKey (reFresh env)) (CBase p) (wObjs w))"
    "bpTXID p = cpTXID cp"
    by (rule newLineageAt_shares [OF w ms m(2)])
  then show ?thesis by (rule that [OF m])
qed

lemma map_of_keptUpTo:
  "distinct (map fst cps) \<Longrightarrow>
   map_of (keptUpTo t cps) x = (case map_of cps x of None \<Rightarrow> None | Some k \<Rightarrow> if cpTXID k \<le> t then Some k else None)"
  unfolding keptUpTo_def by (induction cps) (auto split: option.split simp: map_of_eq_None_iff)

section \<open>Properties\<close>

text \<open>C7: A fork of a short chain succeeds, writes two objects and copies nothing: the new branch is on the fresh
  lineage with its head at the fork point; at and below it, the fresh lineage resolves to exactly the snapshot and
  segments the source resolves to; every chain that resolved before resolves to the same objects after; and no
  object but the new base pointer and the new ref changes.
\<close>

theorem fork_shares:
  assumes "sharingWorld env w" "valid_name db" "valid_name b" "valid_name b'" "0 \<le> ttl" "ValidateMeta meta = None"
    and "refAt (wObjs w) db b = Some r" "soundRef r" "forkPoint r at = Inr cp" "sharesAt env r cp w"
    and "map_of (wObjs w) (RefKey db b') = None"
  shows "\<exists>w' c. forkWith env db b b' at ttl meta w = (Inr (cpTXID cp), w') \<and>
    refAt (wObjs w') db b' = Some c \<and> rLineage c = reFresh env \<and> rHeadTXID c = cpTXID cp \<and>
    sharedFrom (wObjs w) (rLineage r) (cpTXID cp) (reFresh env) (wObjs w') \<and>
    (\<forall>k. k \<notin> {BaseKey (reFresh env), RefKey db b'} \<longrightarrow> map_of (wObjs w') k = map_of (wObjs w) k)"
proof -
  have q: "quiet w" "msorted (wObjs w)" using assms(1) by (simp_all add: sharingWorld_def)
  obtain c0 where g: "GetRef db b w = (Inr (r, ETagOf c0), w)" using GetRef_found [OF q(1) assms(2,3,7)] by blast
  obtain members p where m: "chainAtCheckpoint env r cp w = (Inr members, w)" "length members < shareBound env"
    and n: "newLineageAt env r cp members False w =
      (Inr (reFresh env, Some p, False), w\<lparr>wObjs := mput (BaseKey (reFresh env)) (CBase p) (wObjs w)\<rparr>)"
    and sh: "sharedFrom (wObjs w) (rLineage r) (cpTXID cp) (reFresh env) (mput (BaseKey (reFresh env)) (CBase p) (wObjs w))"
    by (rule shared_lineage [OF assms(1,10)]) blast
  let ?s1 = "mput (BaseKey (reFresh env)) (CBase p) (wObjs w)"
  let ?c = "forkedRef env db b ttl meta (cpTXID cp) (reFresh env) (Some p)"
  let ?s2 = "mput (RefKey db b') (marshalRef (stampRef ?c)) ?s1"
  have free: "forkNameFree env db b' members w = (None, w)" using m(2) by (simp add: forkNameFree_def materializes_def)
  have "RefKey db b' \<noteq> BaseKey (reFresh env)" by (simp add: BaseKey_def RefKey_def)
  then have put: "PutRef db b' ?c NoETag (w\<lparr>wObjs := ?s1\<rparr>) = (Inr (ETagOf (marshalRef (stampRef ?c))), w\<lparr>wObjs := ?s2\<rparr>)"
    using q(1) assms(2,4,11)
    by (simp add: PutRef_def quiet_calls quiet_def localPutIf_def localPath_RefKey etagOf_def)
  have "forkWith env db b b' at ttl meta w = (Inr (cpTXID cp), w\<lparr>wObjs := ?s2\<rparr>)"
    using assms(4-6,9) g m free n put by (simp add: forkWith_def forkAt_def createRef_def)
  moreover have "ref_wf ?c" using forkedRef_sound forkPoint_sound [OF assms(9,8)] by (simp add: soundRef_def)
  then have "refAt ?s2 db b' = Some (stampRef ?c)" by (rule refAt_put)
  moreover have "sharedFrom (wObjs w) (rLineage r) (cpTXID cp) (reFresh env) ?s2"
    using sharedFrom_ref [OF sh] q(2) by (simp add: msorted_mput)
  moreover have "rLineage ?c = reFresh env" "rHeadTXID ?c = cpTXID cp"
    by (simp_all add: forkedRef_def SetCheckpoint_def refTouch_def)
  ultimately show ?thesis by (intro exI [of _ "w\<lparr>wObjs := ?s2\<rparr>"] exI [of _ "stampRef ?c"]) auto
qed

lemma sample_sharing: "sharingWorld (sampleRepoint code) sampleWorld"
  by code_simp

lemma sample_shares:
  "sharesAt (sampleRepoint code) sampleRef \<lparr>cpTXID = 2, cpEpoch = 3, cpCreatedAt = ''t2'', cpMeta = [], cpKind = ''full''\<rparr> sampleWorld"
  by code_simp

theorem fork_shares_witness:
  "\<forall>code. \<exists>w' c. forkWith (sampleRepoint code) ''app'' ''work'' ''try'' ''c1'' 0 [] sampleWorld = (Inr 2, w') \<and>
     refAt (wObjs w') ''app'' ''try'' = Some c \<and> Chain (viewOf (wObjs w')) (rLineage c) 2 = Inr [snap1, seg2]"
proof
  fix code
  let ?cp = "\<lparr>cpTXID = 2, cpEpoch = 3, cpCreatedAt = ''t2'', cpMeta = [], cpKind = ''full''\<rparr> :: checkpoint"
  have h: "valid_name ''app''" "valid_name ''work''" "valid_name ''try''" "(0 :: int) \<le> 0" "ValidateMeta [] = None"
    "refAt (wObjs sampleWorld) ''app'' ''work'' = Some sampleRef" "soundRef sampleRef" "forkPoint sampleRef ''c1'' = Inr ?cp"
    "map_of (wObjs sampleWorld) (RefKey ''app'' ''try'') = None" by code_simp+
  have "Chain (viewOf (wObjs sampleWorld)) (rLineage sampleRef) 2 = Inr [snap1, seg2]"
    using sampleStore_main by (simp add: sampleWorld_def sampleRef_def)
  then show "\<exists>w' c. forkWith (sampleRepoint code) ''app'' ''work'' ''try'' ''c1'' 0 [] sampleWorld = (Inr 2, w') \<and>
     refAt (wObjs w') ''app'' ''try'' = Some c \<and> Chain (viewOf (wObjs w')) (rLineage c) 2 = Inr [snap1, seg2]"
    using fork_shares [OF sample_sharing h(1-8) sample_shares h(9), of code] by (auto simp: sharedFrom_def)
qed

text \<open>C8: A rollback to a checkpoint whose chain is short moves the branch, in one write that replaces the ref it
  read, to the fresh lineage with its head at that checkpoint, and clears the lease. It keeps exactly the checkpoints
  at or below that transaction, each as it was recorded, and each of them, as every other chain of the store, still
  resolves to the objects it resolved to.
\<close>

theorem rollback_keeps_checkpoints:
  assumes "sharingWorld env w" "valid_name db" "valid_name b"
    and "map_of (wObjs w) (RefKey db b) = Some c" "decodeRef c = Inr r" "soundRef r"
    and "map_of (rCheckpoints r) n = Some cp" "sharesAt env r cp w"
  shows "\<exists>r1 w'. rollbackTo env False db b r (ETagOf c) cp w = (Inr r1, w') \<and>
    refAt (wObjs w') db b = Some (stampRef r1) \<and> rLineage r1 = reFresh env \<and> rHeadTXID r1 = cpTXID cp \<and> rLeaseHolder r1 = [] \<and>
    (\<forall>x. map_of (rCheckpoints r1) x =
       (case map_of (rCheckpoints r) x of None \<Rightarrow> None | Some k \<Rightarrow> if cpTXID k \<le> cpTXID cp then Some k else None)) \<and>
    sharedFrom (wObjs w) (rLineage r) (cpTXID cp) (reFresh env) (wObjs w')"
proof -
  have q: "quiet w" "msorted (wObjs w)" using assms(1) by (simp_all add: sharingWorld_def)
  obtain members p where m: "chainAtCheckpoint env r cp w = (Inr members, w)"
    and n: "newLineageAt env r cp members False w =
      (Inr (reFresh env, Some p, False), w\<lparr>wObjs := mput (BaseKey (reFresh env)) (CBase p) (wObjs w)\<rparr>)"
    and sh: "sharedFrom (wObjs w) (rLineage r) (cpTXID cp) (reFresh env) (mput (BaseKey (reFresh env)) (CBase p) (wObjs w))"
    by (rule shared_lineage [OF assms(1,8)]) blast
  let ?s1 = "mput (BaseKey (reFresh env)) (CBase p) (wObjs w)"
  let ?kept = "keptUpTo (cpTXID cp) (rCheckpoints r)"
  let ?r = "rolledBack (reTouch env) r (reFresh env) (cpTXID cp) ?kept (Some p)"
  let ?s2 = "mput (RefKey db b) (marshalRef (stampRef ?r)) ?s1"
  have "RefKey db b \<noteq> BaseKey (reFresh env)" by (simp add: BaseKey_def RefKey_def)
  then have put: "PutRef db b ?r (ETagOf c) (w\<lparr>wObjs := ?s1\<rparr>) = (Inr (ETagOf (marshalRef (stampRef ?r))), w\<lparr>wObjs := ?s2\<rparr>)"
    using q(1) assms(2-4) by (simp add: PutRef_def quiet_calls quiet_def localPutIf_def localPath_RefKey etagOf_def)
  have run: "rollbackTo env False db b r (ETagOf c) cp w = (Inr ?r, w\<lparr>wObjs := ?s2\<rparr>)"
    using m n put by (simp add: rollbackTo_def rollbackLineage_def repointRef_def Let_def)
  have cps: "soundCheckpoints (rCheckpoints r)" using soundRef_checkpoints [OF assms(6)] .
  have "soundRef ?r"
    using rolledBack_sound [OF soundCheckpoints_kept [OF cps]] checkpoint_sound [OF assms(6,7)] by blast
  then have at: "refAt ?s2 db b = Some (stampRef ?r)" by (intro refAt_put) (simp add: soundRef_def)
  have "distinct (map fst (rCheckpoints r))" using cps strict_sorted_iff unfolding soundCheckpoints_def by blast
  then have kept: "map_of ?kept x =
      (case map_of (rCheckpoints r) x of None \<Rightarrow> None | Some k \<Rightarrow> if cpTXID k \<le> cpTXID cp then Some k else None)" for x
    by (rule map_of_keptUpTo)
  have "rCheckpoints ?r = ?kept" "rLineage ?r = reFresh env" "rHeadTXID ?r = cpTXID cp" "rLeaseHolder ?r = []"
    by (simp_all add: rolledBack_def refTouch_def)
  then show ?thesis
    using run at kept sharedFrom_ref [OF sh] q(2) by (intro exI [of _ ?r] exI [of _ "w\<lparr>wObjs := ?s2\<rparr>"]) (simp add: msorted_mput)
qed

theorem rollback_keeps_checkpoints_witness:
  "\<forall>code. \<exists>r1 w'. rollbackTo (sampleRepoint code) False ''app'' ''work'' sampleRef (ETagOf (marshalRef sampleRef))
       \<lparr>cpTXID = 2, cpEpoch = 3, cpCreatedAt = ''t2'', cpMeta = [], cpKind = ''full''\<rparr> sampleWorld = (Inr r1, w') \<and>
     map_of (rCheckpoints r1) ''c1'' \<noteq> None \<and> map_of (rCheckpoints r1) ''c2'' = None \<and>
     Chain (viewOf (wObjs w')) (rLineage r1) 2 = Inr [snap1, seg2]"
proof
  fix code
  let ?cp = "\<lparr>cpTXID = 2, cpEpoch = 3, cpCreatedAt = ''t2'', cpMeta = [], cpKind = ''full''\<rparr> :: checkpoint"
  have h: "valid_name ''app''" "valid_name ''work''"
    "map_of (wObjs sampleWorld) (RefKey ''app'' ''work'') = Some (marshalRef sampleRef)"
    "decodeRef (marshalRef sampleRef) = Inr sampleRef" "soundRef sampleRef" "map_of (rCheckpoints sampleRef) ''c1'' = Some ?cp"
    by code_simp+
  have "Chain (viewOf (wObjs sampleWorld)) (rLineage sampleRef) 2 = Inr [snap1, seg2]"
    using sampleStore_main by (simp add: sampleWorld_def sampleRef_def)
  moreover have "map_of (rCheckpoints sampleRef) ''c2'' = Some \<lparr>cpTXID = 3, cpEpoch = 3, cpCreatedAt = ''t3'', cpMeta = [(''k'', ''v'')], cpKind = []\<rparr>"
    by code_simp
  ultimately show "\<exists>r1 w'. rollbackTo (sampleRepoint code) False ''app'' ''work'' sampleRef (ETagOf (marshalRef sampleRef)) ?cp sampleWorld =
       (Inr r1, w') \<and> map_of (rCheckpoints r1) ''c1'' \<noteq> None \<and> map_of (rCheckpoints r1) ''c2'' = None \<and>
     Chain (viewOf (wObjs w')) (rLineage r1) 2 = Inr [snap1, seg2]"
    using rollback_keeps_checkpoints [OF sample_sharing h sample_shares, of code] h(6) by (auto simp: sharedFrom_def)
qed

end
