(* ===== verification/Wal.thy ===== *)
theory Wal
  imports Pages
begin

text \<open>
  The write-ahead-log reader (\<^verbatim>\<open>internal/wal\<close>): the header and frame formats, SQLite's cumulative
  checksum, and \<^verbatim>\<open>Reader.Next\<close>, which returns the next committed transaction of a log another process
  is writing.  A log is its bytes at the instant of the call, or a file that does not exist or cannot
  be opened.  The lemmas show that \<^verbatim>\<open>Next\<close> returns a transaction exactly when the log holds one, whole and
  with every checksum right, at the reader's offset, and never a part of one.
\<close>

section \<open>Format\<close>

definition HeaderSize :: nat where "HeaderSize = 32"
definition FrameHeaderSize :: nat where "FrameHeaderSize = 24"
definition magicLE :: u32 where "magicLE = 0x377f0682"
definition magicBE :: u32 where "magicBE = 0x377f0683"
definition walVersion :: u32 where "walVersion = 3007000"

datatype byteOrder = BigEndian | LittleEndian

definition uint32At :: "byteOrder \<Rightarrow> bytes \<Rightarrow> nat \<Rightarrow> u32" where
  "uint32At bo b i =
     (let w = take 4 (drop i b)
      in of_nat (be (case bo of BigEndian \<Rightarrow> w | LittleEndian \<Rightarrow> rev w)))"

record walHeader =
  whMagic :: u32
  whVersion :: u32
  whPageSize :: u32
  whCheckpointSeq :: u32
  whSalt1 :: u32
  whSalt2 :: u32
  whCksum1 :: u32
  whCksum2 :: u32

record frameHeader =
  fhPgno :: u32
  fhCommitSize :: u32
  fhSalt1 :: u32
  fhSalt2 :: u32
  fhCksum1 :: u32
  fhCksum2 :: u32

record frame =
  frHeader :: frameHeader
  frData :: bytes

datatype walErr = ErrBadMagic | ErrBadVersion | ErrChecksum

definition frameSize :: "walHeader \<Rightarrow> nat" where
  "frameSize h = FrameHeaderSize + unat (whPageSize h)"

definition checksumByteOrder :: "walHeader \<Rightarrow> byteOrder" where
  "checksumByteOrder h = (if whMagic h = magicBE then BigEndian else LittleEndian)"

function Checksum :: "byteOrder \<Rightarrow> u32 \<times> u32 \<Rightarrow> bytes \<Rightarrow> u32 \<times> u32" where
  "Checksum bo (s1, s2) b =
     (if 8 \<le> length b then
        let s1' = s1 + uint32At bo b 0 + s2;
            s2' = s2 + uint32At bo b 4 + s1'
        in Checksum bo (s1', s2') (drop 8 b)
      else (s1, s2))"
  by pat_completeness auto
termination
  by (relation "measure (\<lambda>(bo, s, b). length b)") auto

declare Checksum.simps [simp del]

definition headerFields :: "bytes \<Rightarrow> walHeader" where
  "headerFields b =
     \<lparr>whMagic = uint32At BigEndian b 0, whVersion = uint32At BigEndian b 4, whPageSize = uint32At BigEndian b 8,
      whCheckpointSeq = uint32At BigEndian b 12, whSalt1 = uint32At BigEndian b 16, whSalt2 = uint32At BigEndian b 20,
      whCksum1 = uint32At BigEndian b 24, whCksum2 = uint32At BigEndian b 28\<rparr>"

definition ParseHeader :: "bytes \<Rightarrow> walErr + walHeader" where
  "ParseHeader b =
     (let h = headerFields b
      in if whMagic h \<noteq> magicLE \<and> whMagic h \<noteq> magicBE then Inl ErrBadMagic
         else if whVersion h \<noteq> walVersion then Inl ErrBadVersion
         else if Checksum (checksumByteOrder h) (0, 0) (take 24 b) \<noteq> (whCksum1 h, whCksum2 h) then Inl ErrChecksum
         else Inr h)"

definition ParseFrameHeader :: "bytes \<Rightarrow> frameHeader" where
  "ParseFrameHeader b =
     \<lparr>fhPgno = uint32At BigEndian b 0, fhCommitSize = uint32At BigEndian b 4, fhSalt1 = uint32At BigEndian b 8,
      fhSalt2 = uint32At BigEndian b 12, fhCksum1 = uint32At BigEndian b 16, fhCksum2 = uint32At BigEndian b 20\<rparr>"

section \<open>The reader\<close>

record reader =
  rdBound :: bool
  rdNeedSeed :: bool
  rdOff :: nat
  rdSalt1 :: u32
  rdSalt2 :: u32
  rdSum :: "u32 \<times> u32"
  rdHdr :: "walHeader option"

definition newReader :: reader where
  "newReader = \<lparr>rdBound = False, rdNeedSeed = False, rdOff = 0, rdSalt1 = 0, rdSalt2 = 0, rdSum = (0, 0), rdHdr = None\<rparr>"

definition readerPageSize :: "reader \<Rightarrow> u32" where
  "readerPageSize r = (case rdHdr r of None \<Rightarrow> 0 | Some h \<Rightarrow> whPageSize h)"

definition Bind :: "nat \<Rightarrow> u32 \<Rightarrow> u32 \<Rightarrow> reader \<Rightarrow> reader" where
  "Bind off salt1 salt2 r =
     r\<lparr>rdBound := True, rdOff := off, rdSalt1 := salt1, rdSalt2 := salt2, rdNeedSeed := True\<rparr>"

datatype walFile = NoFile | OpenError err | LogBytes bytes

text \<open>The frame at an offset, when it is whole, of this log's generation, and its checksum continues
  the running one: the frame and the checksum after it.\<close>

definition frameAt :: "walHeader \<Rightarrow> bytes \<Rightarrow> nat \<Rightarrow> u32 \<times> u32 \<Rightarrow> (frame \<times> u32 \<times> u32) option" where
  "frameAt h f off s =
     (case readAt f off (frameSize h) of
        None \<Rightarrow> None
      | Some buf \<Rightarrow>
          let fh = ParseFrameHeader (take FrameHeaderSize buf);
              s1 = Checksum (checksumByteOrder h) s (take 8 buf);
              s2 = Checksum (checksumByteOrder h) s1 (drop FrameHeaderSize buf)
          in if fhSalt1 fh \<noteq> whSalt1 h \<or> fhSalt2 fh \<noteq> whSalt2 h then None
             else if s2 \<noteq> (fhCksum1 fh, fhCksum2 fh) then None
             else Some (\<lparr>frHeader = fh, frData = drop FrameHeaderSize buf\<rparr>, s2))"

lemma frameAt_advances:
  assumes "frameAt h f off s = Some x"
  shows "off + frameSize h \<le> length f" "0 < frameSize h"
  using assms by (auto simp: frameAt_def readAt_def frameSize_def FrameHeaderSize_def split: option.splits if_splits)

text \<open>The frames up to the next commit, with the offset and the checksum after them.\<close>

function collectFrames ::
  "walHeader \<Rightarrow> bytes \<Rightarrow> nat \<Rightarrow> u32 \<times> u32 \<Rightarrow> frame list \<Rightarrow> (frame list \<times> nat \<times> u32 \<times> u32) option" where
  "collectFrames h f off s frames =
     (case frameAt h f off s of
        None \<Rightarrow> None
      | Some (fr, s') \<Rightarrow>
          if fhCommitSize (frHeader fr) \<noteq> 0 then Some (frames @ [fr], off + frameSize h, s')
          else collectFrames h f (off + frameSize h) s' (frames @ [fr]))"
  by pat_completeness auto
termination
  by (relation "measure (\<lambda>(h, f, off, s, frames). length f - off)")
     (use frameAt_advances in fastforce)+

declare collectFrames.simps [simp del]

text \<open>\<^verbatim>\<open>Inr []\<close> is Go's \<^verbatim>\<open>nil, nil\<close>: nothing to deliver yet.\<close>

definition bindHeader :: "walHeader \<Rightarrow> reader \<Rightarrow> reader option" where
  "bindHeader h r =
     (if \<not> rdBound r
      then Some (r\<lparr>rdBound := True, rdOff := HeaderSize, rdSalt1 := whSalt1 h, rdSalt2 := whSalt2 h,
                   rdSum := (whCksum1 h, whCksum2 h), rdHdr := Some h\<rparr>)
      else if whSalt1 h \<noteq> rdSalt1 r \<or> whSalt2 h \<noteq> rdSalt2 r then None
      else if rdNeedSeed r then Some (r\<lparr>rdSum := (whCksum1 h, whCksum2 h), rdNeedSeed := False, rdHdr := Some h\<rparr>)
      else Some (r\<lparr>rdHdr := Some h\<rparr>))"

datatype nextErr = NextOpen err | ErrWALRestarted

definition Next :: "walFile \<Rightarrow> reader \<Rightarrow> (nextErr + frame list) \<times> reader" where
  "Next file r =
     (case file of
        NoFile \<Rightarrow> (Inr [], r)
      | OpenError e \<Rightarrow> (Inl (NextOpen e), r)
      | LogBytes f \<Rightarrow>
          (case readAt f 0 HeaderSize of
             None \<Rightarrow> (Inr [], r)
           | Some hb \<Rightarrow>
               (case ParseHeader hb of
                  Inl _ \<Rightarrow> (Inr [], r)
                | Inr h \<Rightarrow>
                    (case bindHeader h r of
                       None \<Rightarrow> (Inl ErrWALRestarted, r)
                     | Some r1 \<Rightarrow>
                         (case collectFrames h f (rdOff r1) (rdSum r1) [] of
                            None \<Rightarrow> (Inr [], r1)
                          | Some (frames, off, s) \<Rightarrow> (Inr frames, r1\<lparr>rdOff := off, rdSum := s\<rparr>))))))"

section \<open>Transactions in a log\<close>

text \<open>The transaction at an offset: frames without a commit size, then one with it, each valid after
  the one before.\<close>

inductive txAt :: "walHeader \<Rightarrow> bytes \<Rightarrow> nat \<Rightarrow> u32 \<times> u32 \<Rightarrow> frame list \<Rightarrow> nat \<Rightarrow> u32 \<times> u32 \<Rightarrow> bool"
  for h f where
  Commit: "txAt h f off s [fr] (off + frameSize h) s'"
    if "frameAt h f off s = Some (fr, s')" "fhCommitSize (frHeader fr) \<noteq> 0"
| More: "txAt h f off s (fr # frs) off' s''"
    if "frameAt h f off s = Some (fr, s')" "fhCommitSize (frHeader fr) = 0"
      "txAt h f (off + frameSize h) s' frs off' s''"

lemma collectFrames_txAt:
  "collectFrames h f off s acc = Some (frs, off', s') \<Longrightarrow> \<exists>new. frs = acc @ new \<and> txAt h f off s new off' s'"
proof (induction h f off s acc arbitrary: frs off' s' rule: collectFrames.induct)
  case (1 h f off s acc)
  note eq = 1(2) [unfolded collectFrames.simps [of h f off s acc]]
  obtain fr s1 where fr: "frameAt h f off s = Some (fr, s1)" using eq by (cases "frameAt h f off s") auto
  show ?case
  proof (cases "fhCommitSize (frHeader fr) = 0")
    case True
    then have "collectFrames h f (off + frameSize h) s1 (acc @ [fr]) = Some (frs, off', s')" using eq fr by simp
    then obtain new where new: "frs = (acc @ [fr]) @ new" "txAt h f (off + frameSize h) s1 new off' s'"
      using 1(1) [OF fr refl] True by blast
    show ?thesis using new(1) txAt.More [OF fr True new(2)] by (intro exI [of _ "fr # new"]) simp
  next
    case False
    then show ?thesis using eq fr txAt.Commit [OF fr False] by (intro exI [of _ "[fr]"]) simp
  qed
qed

lemma txAt_collectFrames: "txAt h f off s frs off' s' \<Longrightarrow> collectFrames h f off s acc = Some (acc @ frs, off', s')"
  by (induction arbitrary: acc rule: txAt.induct; subst collectFrames.simps) simp_all

lemma txAt_shape:
  "txAt h f off s frs off' s' \<Longrightarrow> frs \<noteq> [] \<and> fhCommitSize (frHeader (last frs)) \<noteq> 0 \<and>
     (\<forall>fr \<in> set (butlast frs). fhCommitSize (frHeader fr) = 0) \<and> off' = off + length frs * frameSize h \<and> off' \<le> length f \<and>
     (\<forall>fr \<in> set frs. length (frData fr) = unat (whPageSize h))"
proof (induction rule: txAt.induct)
  case (Commit off s fr s')
  then show ?case using frameAt_advances [OF Commit(1)]
    by (auto simp: frameAt_def readAt_def frameSize_def Let_def split: option.splits if_splits)
next
  case (More off s fr s' frs off' s'')
  then show ?case
    by (auto simp: frameAt_def readAt_def frameSize_def Let_def split: option.splits if_splits)
qed

lemma readAt_append: "readAt f off n = Some x \<Longrightarrow> readAt (f @ g) off n = Some x"
  by (auto simp: readAt_def split: if_splits)

lemma frameAt_append:
  assumes "frameAt h f off s = Some x"
  shows "frameAt h (f @ g) off s = Some x"
proof -
  obtain buf where "readAt f off (frameSize h) = Some buf"
    using assms by (cases "readAt f off (frameSize h)") (simp_all add: frameAt_def)
  then show ?thesis using assms readAt_append [of f off "frameSize h" buf g] by (simp add: frameAt_def)
qed

lemma txAt_append: "txAt h f off s frs off' s' \<Longrightarrow> txAt h (f @ g) off s frs off' s'"
  by (induction rule: txAt.induct) (auto intro: txAt.intros frameAt_append)

lemma Next_txAt:
  assumes "readAt f 0 HeaderSize = Some hb" "ParseHeader hb = Inr h" "bindHeader h r = Some r1"
  shows "txAt h f (rdOff r1) (rdSum r1) frs off s \<Longrightarrow> Next (LogBytes f) r = (Inr frs, r1\<lparr>rdOff := off, rdSum := s\<rparr>)"
    "Next (LogBytes f) r = (Inr frs, r') \<Longrightarrow> frs \<noteq> [] \<Longrightarrow>
       \<exists>off s. txAt h f (rdOff r1) (rdSum r1) frs off s \<and> r' = r1\<lparr>rdOff := off, rdSum := s\<rparr>"
proof -
  have eq: "Next (LogBytes f) r = (case collectFrames h f (rdOff r1) (rdSum r1) [] of
      None \<Rightarrow> (Inr [], r1) | Some (frames, off, s) \<Rightarrow> (Inr frames, r1\<lparr>rdOff := off, rdSum := s\<rparr>))"
    using assms by (simp add: Next_def)
  show "txAt h f (rdOff r1) (rdSum r1) frs off s \<Longrightarrow> Next (LogBytes f) r = (Inr frs, r1\<lparr>rdOff := off, rdSum := s\<rparr>)"
    using txAt_collectFrames [of h f "rdOff r1" "rdSum r1" frs off s "[]"] by (simp add: eq)
  assume n: "Next (LogBytes f) r = (Inr frs, r')" "frs \<noteq> []"
  then obtain off s where c: "collectFrames h f (rdOff r1) (rdSum r1) [] = Some (frs, off, s)"
    "r' = r1\<lparr>rdOff := off, rdSum := s\<rparr>"
    unfolding eq by (cases "collectFrames h f (rdOff r1) (rdSum r1) []") auto
  show "\<exists>off s. txAt h f (rdOff r1) (rdSum r1) frs off s \<and> r' = r1\<lparr>rdOff := off, rdSum := s\<rparr>"
    using collectFrames_txAt [OF c(1)] c(2) unfolding append_Nil by blast
qed

section \<open>Properties\<close>


text \<open>A log of one transaction of two frames, with pages of 8 bytes.\<close>

definition sampleLog :: bytes where
  "sampleLog =
     [55, 127, 6, 131, 0, 45, 226, 24, 0, 0, 0, 8, 0, 0, 0, 1,
      0, 0, 0, 9, 0, 0, 0, 10, 22, 4, 198, 241, 188, 221, 158, 189,
      0, 0, 0, 1, 0, 0, 0, 0, 0, 0, 0, 9, 0, 0, 0, 10,
      99, 163, 107, 28, 244, 100, 112, 137, 1, 1, 1, 1, 1, 1, 1, 1,
      0, 0, 0, 2, 0, 0, 0, 2, 0, 0, 0, 9, 0, 0, 0, 10,
      166, 118, 41, 219, 244, 228, 120, 15, 2, 2, 2, 2, 2, 2, 2, 2]"


end
