(* ===== verification/Replica.thy ===== *)
theory Replica
  imports Page_Diff Wal
begin

text \<open>
  The replica of a session, \<^verbatim>\<open>internal/replay/replay.go\<close>, \<^verbatim>\<open>internal/session/pages.go\<close> and the
  folding half of \<^verbatim>\<open>internal/session/session.go\<close>: the file a session keeps equal to its checkout one
  captured transaction at a time, the pages changed since the last flush, and the running checksum.

  The lemmas show that a captured transaction leaves the checksum of the file it produced, and that the
  pending pages always tell the replica apart from the content of the last flush.
\<close>

section \<open>The replica file\<close>

definition replicaRebase :: "bytes \<Rightarrow> bytes" where
  "replicaRebase snapshot = snapshot"

definition writeFrames :: "u32 \<Rightarrow> frame list \<Rightarrow> bytes \<Rightarrow> bytes" where
  "writeFrames ps frames f = fold (\<lambda>fr f. writeAt f (pageOff ps (fhPgno (frHeader fr))) (frData fr)) frames f"

definition replicaApply :: "u32 \<Rightarrow> frame list \<Rightarrow> bytes \<Rightarrow> err + bytes" where
  "replicaApply ps frames f =
     (if frames = [] then Inl (plain_err ''replay: empty transaction'')
      else
        let commit = fhCommitSize (frHeader (last frames))
        in if commit = 0 then Inl (plain_err ''replay: transaction does not end in a commit frame'')
           else Inr (truncateTo (writeFrames ps frames f) (unat commit * unat ps)))"

section \<open>The pending pages\<close>

text \<open>A set of pages is kept in the order \<^verbatim>\<open>drain\<close> returns it.\<close>

definition newPageSet :: pages where
  "newPageSet = []"

definition recordFrames :: "frame list \<Rightarrow> pages \<Rightarrow> pages" where
  "recordFrames frames pgs = fold (\<lambda>fr m. mput (fhPgno (frHeader fr)) (frData fr) m) frames pgs"

definition dropAbove :: "u32 \<Rightarrow> pages \<Rightarrow> pages" where
  "dropAbove commit pgs = filter (\<lambda>(pgno, _). \<not> pgno > commit) pgs"

definition drain :: "pages \<Rightarrow> pages \<times> pages" where
  "drain pgs = (pgs, newPageSet)"

section \<open>The session's account of its replica\<close>

text \<open>The fields of a session that \<^verbatim>\<open>replicaMu\<close> guards, and those the flush keeps under \<^verbatim>\<open>flushMu\<close>.\<close>

record session =
  ssReplica :: bytes
  ssPages :: pages
  ssChecksum :: u64
  ssFlushChecksum :: u64
  ssPageSize :: u32
  ssCommit :: u32
  ssForceSnapshot :: bool
  ssRebaseGen :: int
  ssAppliedGen :: int
  ssFlushedGen :: int
  ssFlushedRebaseGen :: int
  ssCleanAtOpen :: bool
  ssHeadChecksum :: u64
  ssHeadValid :: bool
  ssSnapshotEvery :: int
  ssFlushesSince :: int
  ssSeeded :: bool

text \<open>The session \<^verbatim>\<open>Open\<close> builds, before its first rebase: what it learned of the checkout.\<close>

definition openSession :: "bool \<Rightarrow> u64 \<Rightarrow> int \<Rightarrow> session" where
  "openSession clean headSum every =
     \<lparr>ssReplica = [], ssPages = newPageSet, ssChecksum = 0, ssFlushChecksum = 0, ssPageSize = 0, ssCommit = 0,
      ssForceSnapshot = False, ssRebaseGen = 0, ssAppliedGen = 0, ssFlushedGen = 0, ssFlushedRebaseGen = 0,
      ssCleanAtOpen = clean, ssHeadChecksum = headSum, ssHeadValid = (clean \<and> headSum \<noteq> 0),
      ssSnapshotEvery = every, ssFlushesSince = 0, ssSeeded = False\<rparr>"

text \<open>The pages a transaction touches, in the order it first writes them.\<close>

definition touchedBy :: "frame list \<Rightarrow> u32 list" where
  "touchedBy frames =
     fold (\<lambda>fr t. let p = fhPgno (frHeader fr) in if p \<in> set t then t else t @ [p]) frames []"

fun foldTouched :: "ltxLib \<Rightarrow> u32 \<Rightarrow> u32 \<Rightarrow> u32 \<Rightarrow> bytes \<Rightarrow> pages \<Rightarrow> u32 list \<Rightarrow> u64 \<Rightarrow> err + u64" where
  "foldTouched lib ps prevCommit newCommit f latest [] running = Inr running"
| "foldTouched lib ps prevCommit newCommit f latest (pgno # pgnos) running =
     (if pgno = lxLockPgno lib ps then foldTouched lib ps prevCommit newCommit f latest pgnos running
      else
        let newData = (if pgno \<le> newCommit then the (map_of latest pgno) else []);
            step = (\<lambda>oldData. foldTouched lib ps prevCommit newCommit f latest pgnos
                      (UpdateChecksum lib running pgno oldData newData))
        in if pgno \<le> prevCommit
           then (case readAt f (pageOff ps pgno) (unat ps) of
                   None \<Rightarrow> Inl (plain_err ''session: read old page'')
                 | Some oldData \<Rightarrow> step oldData)
           else step [])"

text \<open>\<^verbatim>\<open>recordApply\<close>, run before the frames reach the file. A page size of 0 divides by zero, which is a
  panic of the source and an error here.\<close>

definition recordApply :: "ltxLib \<Rightarrow> u32 \<Rightarrow> frame list \<Rightarrow> session \<Rightarrow> err + session" where
  "recordApply lib ps frames s =
     (if frames = [] then Inr s
      else if ps = 0 then Inl (plain_err ''runtime error: integer divide by zero'')
      else
        let f = ssReplica s;
            prevCommit = of_nat (length f div unat ps) :: u32;
            newCommit = fhCommitSize (frHeader (last frames));
            latest = recordFrames frames newPageSet;
            touched = touchedBy frames
        in (case foldTouched lib ps prevCommit newCommit f latest touched (ssChecksum s) of
              Inl e \<Rightarrow> Inl e
            | Inr running \<Rightarrow>
                (case (if newCommit < prevCommit
                       then dropPages lib ps f touched (pgnosAbove newCommit prevCommit) running
                       else Inr running) of
                   Inl e \<Rightarrow> Inl (plain_err ''session: read dropped page'')
                 | Inr running' \<Rightarrow>
                     (case checkGrowth newCommit prevCommit (lxLockPgno lib ps) touched of
                        Some e \<Rightarrow> Inl (wrap_err ''session: transaction'' e)
                      | None \<Rightarrow>
                          Inr (s\<lparr>ssChecksum := running', ssCommit := newCommit, ssPageSize := ps,
                                 ssPages := dropAbove newCommit (recordFrames frames (ssPages s)),
                                 ssAppliedGen := ssAppliedGen s + 1\<rparr>)))))"

text \<open>\<^verbatim>\<open>rebaseline\<close>: a rebased replica has no log beside it.\<close>

definition rebaseline :: "ltxLib \<Rightarrow> session \<Rightarrow> err + session" where
  "rebaseline lib s =
     (case ChecksumDatabase lib 0 (ssReplica s) of
        Inl e \<Rightarrow> Inl (wrap_err ''session: checksum replica after rebase'' e)
      | Inr chk \<Rightarrow>
          let first = (ssRebaseGen s = 0);
              s1 = s\<lparr>ssChecksum := chk, ssFlushChecksum := chk, ssPages := newPageSet,
                     ssForceSnapshot := True, ssRebaseGen := ssRebaseGen s + 1\<rparr>
          in if first \<and> ssCleanAtOpen s \<and> ssHeadValid s \<and> chk = ssHeadChecksum s
             then Inr (s1\<lparr>ssForceSnapshot := False, ssFlushedRebaseGen := ssRebaseGen s1\<rparr>)
             else Inr s1)"

text \<open>The sink the capture engine drives. The session after a failed call is not used again: the error
  ends the session.\<close>

definition sinkRebase :: "ltxLib \<Rightarrow> bytes \<Rightarrow> session \<Rightarrow> err + session" where
  "sinkRebase lib snapshot s = rebaseline lib (s\<lparr>ssReplica := replicaRebase snapshot\<rparr>)"

definition sinkApply :: "ltxLib \<Rightarrow> u32 \<Rightarrow> frame list \<Rightarrow> session \<Rightarrow> err + session" where
  "sinkApply lib ps frames s =
     (case recordApply lib ps frames s of
        Inl e \<Rightarrow> Inl e
      | Inr s1 \<Rightarrow>
          (case replicaApply ps frames (ssReplica s1) of
             Inl e \<Rightarrow> Inl e
           | Inr f \<Rightarrow> Inr (s1\<lparr>ssReplica := f\<rparr>)))"

definition autoFlushPending :: "session \<Rightarrow> bool" where
  "autoFlushPending s \<longleftrightarrow> ssAppliedGen s \<noteq> ssFlushedGen s \<or> ssRebaseGen s \<noteq> ssFlushedRebaseGen s"

definition singleStartupRebase :: "session \<Rightarrow> bool" where
  "singleStartupRebase s \<longleftrightarrow> ssRebaseGen s = 1"

section \<open>Frames and pages\<close>

definition framesWf :: "u32 \<Rightarrow> frame list \<Rightarrow> bool" where
  "framesWf ps frames \<longleftrightarrow> frames \<noteq> [] \<and> 0 < unat ps \<and> (\<forall>fr \<in> set frames. 1 \<le> fhPgno (frHeader fr) \<and> length (frData fr) = unat ps)"

abbreviation pgnosOf :: "frame list \<Rightarrow> u32 set" where
  "pgnosOf frames \<equiv> (\<lambda>fr. fhPgno (frHeader fr)) ` set frames"

lemma touchedBy_set: "set (touchedBy frames) = pgnosOf frames" and touchedBy_distinct: "distinct (touchedBy frames)"
  unfolding touchedBy_def by (induction frames rule: rev_induct) (auto simp: Let_def)

lemma recordFrames_keys: "fst ` set (recordFrames frames m) = fst ` set m \<union> pgnosOf frames"
  unfolding recordFrames_def by (induction frames rule: rev_induct) auto

lemma recordFrames_sorted: "msorted m \<Longrightarrow> msorted (recordFrames frames m)"
  unfolding recordFrames_def by (induction frames rule: rev_induct) auto

lemma recordFrames_append: "recordFrames (frames @ [fr]) m = mput (fhPgno (frHeader fr)) (frData fr) (recordFrames frames m)"
  by (simp add: recordFrames_def)

text \<open>Recording into a set is recording into the empty one, for the pages the transaction touches.\<close>

lemma recordFrames_over:
  "map_of (recordFrames frames m) = map_of m ++ map_of (recordFrames frames newPageSet)"
  unfolding recordFrames_def newPageSet_def
  by (induction frames rule: rev_induct) (simp_all add: map_add_def fun_eq_iff split: option.splits)

lemma writeFrames_applied:
  assumes "\<forall>fr \<in> set frames. length (frData fr) = unat ps"
  shows "pagesApplied ps (recordFrames frames newPageSet) f (writeFrames ps frames f)"
  using assms
proof (induction frames rule: rev_induct)
  case Nil
  then show ?case by (simp add: pagesApplied_def recordFrames_def newPageSet_def writeFrames_def)
next
  case (snoc fr frames)
  let ?p = "fhPgno (frHeader fr)" and ?d = "frData fr" and ?g = "writeFrames ps frames f" and ?m = "recordFrames frames newPageSet"
  have len: "length ?d = unat ps" using snoc.prems by simp
  have ih: "pagesApplied ps ?m f ?g" using snoc by simp
  have eq: "writeFrames ps (frames @ [fr]) f = writeAt ?g (pageOff ps ?p) ?d" by (simp add: writeFrames_def)
  have sub: "(q, e) \<in> set (mput ?p ?d ?m) \<Longrightarrow> q = ?p \<and> e = ?d \<or> q \<noteq> ?p \<and> (q, e) \<in> set ?m" for q e
  proof -
    assume a: "(q, e) \<in> set (mput ?p ?d ?m)"
    have ms: "msorted ?m" by (rule recordFrames_sorted) (simp add: newPageSet_def)
    then have "map_of (mput ?p ?d ?m) q = Some e" using a by (simp only: map_of_msorted [OF msorted_mput])
    then show ?thesis using map_of_msorted [OF ms, of q e] by (cases "q = ?p") simp_all
  qed
  have keep: "inFile ps (writeAt ?g (pageOff ps ?p) ?d) q \<and> pageOf ps (writeAt ?g (pageOff ps ?p) ?d) q = pageOf ps ?g q"
    if "q \<noteq> ?p" "inFile ps ?g q" for q
    using writeAt_inFile [OF that(2)] writeAt_other [OF len that] by blast
  have i1: "inFile ps ?g q \<and> pageOf ps ?g q = e" if "(q, e) \<in> set ?m" for q e using ih that unfolding pagesApplied_def by blast
  have i2: "inFile ps ?g q \<and> pageOf ps ?g q = pageOf ps f q" if "q \<notin> fst ` set ?m" "inFile ps f q" for q
    using ih that unfolding pagesApplied_def by blast
  have new: "inFile ps (writeAt ?g (pageOff ps ?p) ?d) ?p" "pageOf ps (writeAt ?g (pageOff ps ?p) ?d) ?p = ?d"
    by (rule writeAt_inFile_same [OF len], rule writeAt_same [OF len])
  have "inFile ps (writeAt ?g (pageOff ps ?p) ?d) q \<and> pageOf ps (writeAt ?g (pageOff ps ?p) ?d) q = e"
    if "(q, e) \<in> set (mput ?p ?d ?m)" for q e
    using sub [OF that] new i1 [of q e] keep [of q] by metis
  moreover have "inFile ps (writeAt ?g (pageOff ps ?p) ?d) q \<and> pageOf ps (writeAt ?g (pageOff ps ?p) ?d) q = pageOf ps f q"
    if "q \<notin> fst ` set (mput ?p ?d ?m)" "inFile ps f q" for q
    using that i2 [of q] keep [of q] by simp
  ultimately show ?case unfolding pagesApplied_def eq recordFrames_append by blast
qed

section \<open>The checksum of a captured transaction\<close>

lemma foldTouched_ok:
  assumes "distinct ts" "set ts \<inter> T = {}" "0 < unat ps" "\<forall>p. 1 \<le> p \<and> p \<le> prev \<longrightarrow> inFile ps f p"
    "\<forall>p \<in> set ts. 1 \<le> p \<and> inFile ps g p \<and> map_of latest p = Some (pageOf ps g p)"
  shows "foldTouched lib ps prev commit f latest ts (lxFlag lib OR mixSum lib ps commit prev g f T) =
    Inr (lxFlag lib OR mixSum lib ps commit prev g f (T \<union> set ts))"
  using assms
proof (induction ts arbitrary: T)
  case (Cons p ts)
  have p: "1 \<le> p" "p \<notin> T" "inFile ps g p" "map_of latest p = Some (pageOf ps g p)" using Cons.prems by auto
  have ne: "pageOf ps g p \<noteq> []" "p \<le> prev \<Longrightarrow> pageOf ps f p \<noteq> []"
    using pageOf_length [OF p(3)] pageOf_length [of ps f p] Cons.prems(3,4) p(1) by auto
  have ih: "foldTouched lib ps prev commit f latest ts (lxFlag lib OR mixSum lib ps commit prev g f (insert p T)) =
      Inr (lxFlag lib OR mixSum lib ps commit prev g f (T \<union> set (p # ts)))"
    using Cons.IH [of "insert p T"] Cons.prems by simp
  have upd: "UpdateChecksum lib (lxFlag lib OR mixSum lib ps commit prev g f T) p
      (if p \<le> prev then pageOf ps f p else []) (if p \<le> commit then pageOf ps g p else []) =
    lxFlag lib OR mixSum lib ps commit prev g f (insert p T)" if "p \<noteq> lxLockPgno lib ps"
    unfolding UpdateChecksum_flag mixSum_step [OF p(1,2)] using ne that by simp
  show ?case
  proof (cases "p = lxLockPgno lib ps")
    case True
    then have "mixSum lib ps commit prev g f (insert p T) = mixSum lib ps commit prev g f T"
      using mixSum_step [OF p(1,2), of lib ps commit prev g f] by simp
    then show ?thesis using ih True by simp
  next
    case False
    have "inFile ps f p" if "p \<le> prev" using Cons.prems(4) p(1) that by blast
    then show ?thesis using ih upd [OF False] False p(4) by (auto simp: readAt_page Let_def split: if_splits)
  qed
qed simp

lemma mixSum_applied:
  assumes "\<forall>q. 1 \<le> q \<and> q \<le> prev \<and> q \<notin> T \<longrightarrow> pageOf ps g q = pageOf ps f q"
  shows "mixSum lib ps commit prev g f T = pageSum lib ps g (covered lib ps prev commit T)"
  unfolding mixSum_def pageSum_def by (rule xs.cong) (use assms in \<open>auto simp: covered_def\<close>)

lemma dropPages_cong:
  assumes "\<forall>p \<in> set ns. p \<notin> set T \<longrightarrow> inFile ps f p \<and> inFile ps g p \<and> pageOf ps g p = pageOf ps f p"
  shows "dropPages lib ps f T ns running = dropPages lib ps g T ns running"
  using assms by (induction ns arbitrary: running) (auto simp: readAt_page)

abbreviation commitOf :: "frame list \<Rightarrow> u32" where
  "commitOf frames \<equiv> fhCommitSize (frHeader (last frames))"

text \<open>What a transaction grows the file by, it carries.\<close>

definition growthCarried :: "ltxLib \<Rightarrow> u32 \<Rightarrow> u32 \<Rightarrow> frame list \<Rightarrow> bool" where
  "growthCarried lib ps prev frames \<longleftrightarrow>
     (\<forall>p. prev < p \<and> p \<le> commitOf frames \<and> p \<noteq> lxLockPgno lib ps \<longrightarrow> p \<in> pgnosOf frames)"

lemma whole_prevCommit: "wholeDb ps n f \<Longrightarrow> of_nat (length f div unat ps) = n"
  by (simp add: wholeDb_def)

definition folded :: "u32 \<Rightarrow> frame list \<Rightarrow> session \<Rightarrow> u64 \<Rightarrow> session" where
  "folded ps frames s chk =
     s\<lparr>ssChecksum := chk, ssCommit := commitOf frames, ssPageSize := ps,
       ssPages := dropAbove (commitOf frames) (recordFrames frames (ssPages s)), ssAppliedGen := ssAppliedGen s + 1\<rparr>"

text \<open>The file with the frames written: a touched page as the transaction left it, another as it was.\<close>

abbreviation written :: "u32 \<Rightarrow> frame list \<Rightarrow> session \<Rightarrow> bytes" where
  "written ps frames s \<equiv> writeFrames ps frames (ssReplica s)"

abbreviation latestOf :: "frame list \<Rightarrow> pages" where
  "latestOf frames \<equiv> recordFrames frames newPageSet"

lemma latestOf_keys: "fst ` set (latestOf frames) = pgnosOf frames"
  by (simp add: recordFrames_keys newPageSet_def)

lemma written_new:
  assumes "framesWf ps frames" "p \<in> pgnosOf frames"
  shows "1 \<le> p" "inFile ps (writeFrames ps frames f) p"
    "map_of (latestOf frames) p = Some (pageOf ps (writeFrames ps frames f) p)"
proof -
  show "1 \<le> p" using assms by (auto simp: framesWf_def)
  have ap: "pagesApplied ps (latestOf frames) f (writeFrames ps frames f)"
    by (rule writeFrames_applied) (use assms(1) in \<open>simp add: framesWf_def\<close>)
  have ms: "msorted (latestOf frames)" by (rule recordFrames_sorted) (simp add: newPageSet_def)
  have "p \<in> fst ` set (latestOf frames)" using assms(2) by (simp only: latestOf_keys)
  then obtain d where d: "(p, d) \<in> set (latestOf frames)" by (rule imageE) (metis prod.collapse)
  then have "inFile ps (writeFrames ps frames f) p \<and> pageOf ps (writeFrames ps frames f) p = d"
    using ap unfolding pagesApplied_def by blast
  then show "inFile ps (writeFrames ps frames f) p" "map_of (latestOf frames) p = Some (pageOf ps (writeFrames ps frames f) p)"
    using map_of_msorted [OF ms, of p d] d by simp_all
qed

lemma written_kept:
  assumes "framesWf ps frames" "wholeDb ps prev f" "1 \<le> q" "q \<le> prev" "q \<notin> pgnosOf frames"
  shows "inFile ps (writeFrames ps frames f) q" "pageOf ps (writeFrames ps frames f) q = pageOf ps f q" "inFile ps f q"
proof -
  have ap: "pagesApplied ps (latestOf frames) f (writeFrames ps frames f)"
    by (rule writeFrames_applied) (use assms(1) in \<open>simp add: framesWf_def\<close>)
  have "q \<notin> fst ` set (latestOf frames)" using assms(5) by (simp only: latestOf_keys not_False_eq_True)
  moreover show "inFile ps f q" using wholeDb_inFile [OF assms(2,3)] assms(4) by simp
  ultimately show "inFile ps (writeFrames ps frames f) q" "pageOf ps (writeFrames ps frames f) q = pageOf ps f q"
    using ap unfolding pagesApplied_def by blast+
qed

lemma foldTouched_run:
  assumes "framesWf ps frames" "wholeDb ps prev f"
  shows "foldTouched lib ps prev c f (latestOf frames) (touchedBy frames) (dbSum lib ps f prev) =
    Inr (lxFlag lib OR pageSum lib ps (writeFrames ps frames f) (covered lib ps prev c (pgnosOf frames)))"
proof -
  let ?g = "writeFrames ps frames f" and ?T = "pgnosOf frames"
  have k: "0 < unat ps" using assms(1) by (simp add: framesWf_def)
  have start: "dbSum lib ps f prev = lxFlag lib OR mixSum lib ps c prev ?g f {}"
    unfolding dbSum_def mixSum_def pageSum_def
    by (rule arg_cong [where f = "\<lambda>x. lxFlag lib OR x"], rule xs.cong) (auto simp: covered_def dataPages_def)
  have "foldTouched lib ps prev c f (latestOf frames) (touchedBy frames) (lxFlag lib OR mixSum lib ps c prev ?g f {}) =
      Inr (lxFlag lib OR mixSum lib ps c prev ?g f ({} \<union> set (touchedBy frames)))"
  proof (rule foldTouched_ok [OF touchedBy_distinct _ k])
    show "\<forall>p. 1 \<le> p \<and> p \<le> prev \<longrightarrow> inFile ps f p" using wholeDb_inFile [OF assms(2)] by simp
    show "\<forall>p \<in> set (touchedBy frames). 1 \<le> p \<and> inFile ps ?g p \<and> map_of (latestOf frames) p = Some (pageOf ps ?g p)"
      unfolding touchedBy_set using written_new [OF assms(1)] by blast
  qed simp
  moreover have "mixSum lib ps c prev ?g f ?T = pageSum lib ps ?g (covered lib ps prev c ?T)"
    by (rule mixSum_applied) (use written_kept [OF assms] in blast)
  ultimately show ?thesis by (simp only: start touchedBy_set Un_empty_left)
qed

lemma recordApply_run:
  assumes "framesWf ps frames" "wholeDb ps prev (ssReplica s)" "ssChecksum s = dbSum lib ps (ssReplica s) prev"
    "growthCarried lib ps prev frames"
  shows "recordApply lib ps frames s =
    Inr (folded ps frames s (dbSum lib ps (truncateTo (written ps frames s) (unat (commitOf frames) * unat ps)) (commitOf frames)))"
proof -
  let ?f = "ssReplica s" and ?g = "written ps frames s" and ?c = "commitOf frames" and ?T = "pgnosOf frames"
  have k: "0 < unat ps" "frames \<noteq> []" "ps \<noteq> 0" using assms(1) by (auto simp: framesWf_def)
  note new = written_new [OF assms(1)] and kept = written_kept [OF assms(1,2)]
  have all: "\<forall>q. 1 \<le> q \<and> (q \<le> prev \<or> q \<in> set (touchedBy frames)) \<longrightarrow> inFile ps ?g q"
    unfolding touchedBy_set using new(2) [of _ ?f] kept(1) by blast
  have grow: "\<forall>p. prev < p \<and> p \<le> ?c \<and> p \<noteq> lxLockPgno lib ps \<longrightarrow> p \<in> set (touchedBy frames)"
    using assms(4) by (simp add: growthCarried_def touchedBy_set)
  have drop: "dropPages lib ps ?f (touchedBy frames) (pgnosAbove ?c prev) r = dropPages lib ps ?g (touchedBy frames) (pgnosAbove ?c prev) r" for r
  proof (rule dropPages_cong, intro ballI impI)
    fix p assume p: "p \<in> set (pgnosAbove ?c prev)" "p \<notin> set (touchedBy frames)"
    then have "?c < p" by (simp add: pgnosAbove_set)
    then have "1 \<le> p" by unat_arith
    moreover have "p \<le> prev" "p \<notin> ?T" using p by (simp_all add: pgnosAbove_set touchedBy_set)
    ultimately show "inFile ps ?f p \<and> inFile ps ?g p \<and> pageOf ps ?g p = pageOf ps ?f p" using kept [of p] by blast
  qed
  have "checkGrowth ?c prev (lxLockPgno lib ps) (touchedBy frames) = None"
    using checkGrowth_iff [OF touchedBy_distinct] grow by blast
  then show ?thesis
    using foldTouched_run [OF assms(1,2)] dropPages_final [OF k(1) all grow] truncate_sum [OF k(1) all grow] k(2,3)
      whole_prevCommit [OF assms(2)] assms(3)
    by (simp add: recordApply_def folded_def Let_def drop touchedBy_set split: if_splits)
qed

lemma recordApply_growth:
  assumes "framesWf ps frames" "wholeDb ps prev (ssReplica s)" "ssChecksum s = dbSum lib ps (ssReplica s) prev"
    "\<not> growthCarried lib ps prev frames"
  shows "\<exists>e. recordApply lib ps frames s = Inl e \<and> errors_is e ErrUncarriedGrowth"
proof -
  let ?c = "commitOf frames"
  have k: "frames \<noteq> []" "ps \<noteq> 0" using assms(1) by (auto simp: framesWf_def)
  have "checkGrowth ?c prev (lxLockPgno lib ps) (touchedBy frames) \<noteq> None"
    using checkGrowth_iff [OF touchedBy_distinct] assms(4) by (simp add: growthCarried_def touchedBy_set)
  then obtain e where e: "checkGrowth ?c prev (lxLockPgno lib ps) (touchedBy frames) = Some e" by blast
  have "\<not> ?c < prev" "errors_is e ErrUncarriedGrowth" using e by (auto simp: checkGrowth_def Let_def split: if_splits)
  then show ?thesis
    using foldTouched_run [OF assms(1,2)] e k whole_prevCommit [OF assms(2)] assms(3)
    by (cases e) (simp add: recordApply_def Let_def wrap_err_def)
qed

section \<open>Applying a transaction\<close>

lemma sinkApply_Inr:
  assumes "sinkApply lib ps frames s = Inr s'" "framesWf ps frames" "wholeDb ps prev (ssReplica s)"
    "ssChecksum s = dbSum lib ps (ssReplica s) prev"
  shows "growthCarried lib ps prev frames" "commitOf frames \<noteq> 0"
    "s' = (folded ps frames s (dbSum lib ps (ssReplica s') (commitOf frames)))\<lparr>ssReplica := ssReplica s'\<rparr>"
    "ssReplica s' = truncateTo (written ps frames s) (unat (commitOf frames) * unat ps)"
    "wholeDb ps (commitOf frames) (ssReplica s')"
proof -
  show grow: "growthCarried lib ps prev frames"
  proof (rule ccontr)
    assume "\<not> growthCarried lib ps prev frames"
    then obtain e where "recordApply lib ps frames s = Inl e" using recordApply_growth [OF assms(2-4)] by blast
    then show False using assms(1) by (simp add: sinkApply_def)
  qed
  have ne: "frames \<noteq> []" "0 < unat ps" using assms(2) by (simp_all add: framesWf_def)
  note run = recordApply_run [OF assms(2-4) grow]
  show "commitOf frames \<noteq> 0" "ssReplica s' = truncateTo (written ps frames s) (unat (commitOf frames) * unat ps)"
    "s' = (folded ps frames s (dbSum lib ps (ssReplica s') (commitOf frames)))\<lparr>ssReplica := ssReplica s'\<rparr>"
    using assms(1) ne by (auto simp: sinkApply_def run replicaApply_def folded_def Let_def split: if_splits)
  then show "wholeDb ps (commitOf frames) (ssReplica s')" using truncate_whole [OF ne(2)] by simp
qed

lemma sinkApply_fields:
  assumes "sinkApply lib ps frames s = Inr s'" "framesWf ps frames" "wholeDb ps prev (ssReplica s)"
    "ssChecksum s = dbSum lib ps (ssReplica s) prev"
  shows "ssChecksum s' = dbSum lib ps (ssReplica s') (commitOf frames)" "ssCommit s' = commitOf frames" "ssPageSize s' = ps"
    "ssPages s' = dropAbove (commitOf frames) (recordFrames frames (ssPages s))" "ssAppliedGen s' = ssAppliedGen s + 1"
    "ssRebaseGen s' = ssRebaseGen s" "ssForceSnapshot s' = ssForceSnapshot s" "ssFlushChecksum s' = ssFlushChecksum s"
    "ssFlushedGen s' = ssFlushedGen s" "ssFlushedRebaseGen s' = ssFlushedRebaseGen s"
    "ssFlushesSince s' = ssFlushesSince s" "ssSeeded s' = ssSeeded s" "ssSnapshotEvery s' = ssSnapshotEvery s"
proof -
  note e = sinkApply_Inr(3) [OF assms]
  show "ssChecksum s' = dbSum lib ps (ssReplica s') (commitOf frames)" "ssCommit s' = commitOf frames" "ssPageSize s' = ps"
    "ssPages s' = dropAbove (commitOf frames) (recordFrames frames (ssPages s))" "ssAppliedGen s' = ssAppliedGen s + 1"
    using arg_cong [OF e, of ssChecksum] arg_cong [OF e, of ssCommit] arg_cong [OF e, of ssPageSize] arg_cong [OF e, of ssPages]
      arg_cong [OF e, of ssAppliedGen] by (simp_all add: folded_def)
  show "ssRebaseGen s' = ssRebaseGen s" "ssForceSnapshot s' = ssForceSnapshot s" "ssFlushChecksum s' = ssFlushChecksum s"
    "ssFlushedGen s' = ssFlushedGen s" "ssFlushedRebaseGen s' = ssFlushedRebaseGen s"
    using arg_cong [OF e, of ssRebaseGen] arg_cong [OF e, of ssForceSnapshot] arg_cong [OF e, of ssFlushChecksum]
      arg_cong [OF e, of ssFlushedGen] arg_cong [OF e, of ssFlushedRebaseGen] by (simp_all add: folded_def)
  show "ssFlushesSince s' = ssFlushesSince s" "ssSeeded s' = ssSeeded s" "ssSnapshotEvery s' = ssSnapshotEvery s"
    using arg_cong [OF e, of ssFlushesSince] arg_cong [OF e, of ssSeeded] arg_cong [OF e, of ssSnapshotEvery]
    by (simp_all add: folded_def)
qed

text \<open>The pending pages tell the replica apart from a base of \<^verbatim>\<open>n0\<close> pages: they hold the replica's
  content, and every other page is the base's.\<close>

definition tracks :: "ltxLib \<Rightarrow> u32 \<Rightarrow> u32 \<Rightarrow> bytes \<Rightarrow> u32 \<Rightarrow> bytes \<Rightarrow> pages \<Rightarrow> bool" where
  "tracks lib ps n0 base n r pgs \<longleftrightarrow> msorted pgs \<and>
     (\<forall>(p, b) \<in> set pgs. 1 \<le> p \<and> p \<le> n \<and> b = pageOf ps r p) \<and>
     (\<forall>p \<in> dataPages lib ps n. p \<notin> fst ` set pgs \<longrightarrow> p \<le> n0 \<and> pageOf ps base p = pageOf ps r p)"

lemma tracks_self: "tracks lib ps n r n r newPageSet"
  by (simp add: tracks_def newPageSet_def dataPages_def)

lemma tracks_base:
  assumes "tracks lib ps n0 base n r pgs" "\<forall>p \<in> dataPages lib ps n0. pageOf ps base' p = pageOf ps base p"
  shows "tracks lib ps n0 base' n r pgs"
proof -
  have "pageOf ps base' p = pageOf ps base p" if "p \<in> dataPages lib ps n" "p \<le> n0" for p
    using assms(2) that by (simp add: dataPages_def)
  then show ?thesis using assms(1) by (simp add: tracks_def)
qed

lemma record_drop_mem:
  assumes "msorted pgs" "(p, b) \<in> set (dropAbove c (recordFrames frames pgs))"
  shows "p \<le> c" "if p \<in> pgnosOf frames then map_of (latestOf frames) p = Some b else (p, b) \<in> set pgs"
proof -
  have mem: "(p, b) \<in> set (recordFrames frames pgs)" and le: "p \<le> c" using assms(2) by (auto simp: dropAbove_def)
  show "p \<le> c" by (rule le)
  have "map_of (recordFrames frames pgs) p = Some b" using map_of_msorted [OF recordFrames_sorted [OF assms(1)]] mem by blast
  then have m: "(map_of pgs ++ map_of (latestOf frames)) p = Some b" by (simp only: recordFrames_over [of frames pgs])
  have keys: "p \<in> pgnosOf frames \<longleftrightarrow> map_of (latestOf frames) p \<noteq> None"
    unfolding latestOf_keys [symmetric] map_of_eq_None_iff by simp
  show "if p \<in> pgnosOf frames then map_of (latestOf frames) p = Some b else (p, b) \<in> set pgs"
  proof (cases "p \<in> pgnosOf frames")
    case True
    then obtain d where "map_of (latestOf frames) p = Some d" using keys by blast
    then show ?thesis using m True by (simp add: map_add_def)
  next
    case False
    then have "map_of (latestOf frames) p = None" using keys by blast
    then have "map_of pgs p = Some b" using m by (simp add: map_add_def)
    then show ?thesis using False map_of_msorted [OF assms(1), of p b] by simp
  qed
qed

lemma record_drop_keys: "fst ` set (dropAbove c (recordFrames frames pgs)) = {p. p \<le> c \<and> (p \<in> fst ` set pgs \<or> p \<in> pgnosOf frames)}"
proof -
  have "fst ` set (dropAbove c m) = {p \<in> fst ` set m. p \<le> c}" for m by (force simp: dropAbove_def)
  then show ?thesis using recordFrames_keys [of frames pgs] by auto
qed

lemma tracks_apply:
  assumes "tracks lib ps n0 base prev r pgs" "framesWf ps frames" "wholeDb ps prev r" "growthCarried lib ps prev frames"
  shows "tracks lib ps n0 base (commitOf frames) (truncateTo (writeFrames ps frames r) (unat (commitOf frames) * unat ps))
    (dropAbove (commitOf frames) (recordFrames frames pgs))"
proof -
  let ?c = "commitOf frames" and ?g = "writeFrames ps frames r" and ?T = "pgnosOf frames"
  let ?r = "truncateTo ?g (unat ?c * unat ps)" and ?pgs = "dropAbove ?c (recordFrames frames pgs)"
  have k: "0 < unat ps" using assms(2) by (simp add: framesWf_def)
  have ms: "msorted pgs" and old: "(p, b) \<in> set pgs \<Longrightarrow> 1 \<le> p \<and> p \<le> prev \<and> b = pageOf ps r p"
    and rest: "p \<in> dataPages lib ps prev \<Longrightarrow> p \<notin> fst ` set pgs \<Longrightarrow> p \<le> n0 \<and> pageOf ps base p = pageOf ps r p" for p b
    using assms(1) by (auto simp: tracks_def)
  note new = written_new [OF assms(2)] and kept = written_kept [OF assms(2,3)]
  have cut: "pageOf ps ?r p = pageOf ps ?g p" if "1 \<le> p" "p \<le> ?c" "inFile ps ?g p" for p
    by (rule pageOf_truncate [OF that k])
  have "1 \<le> p \<and> p \<le> ?c \<and> b = pageOf ps ?r p" if m: "(p, b) \<in> set ?pgs" for p b
  proof (cases "p \<in> ?T")
    case True
    then show ?thesis using record_drop_mem [OF ms m] new [OF True] cut [of p] by simp
  next
    case False
    then have "(p, b) \<in> set pgs" "p \<le> ?c" using record_drop_mem [OF ms m] by simp_all
    then show ?thesis using old [of p b] kept [of p] cut [of p] False by simp
  qed
  moreover have "p \<le> n0 \<and> pageOf ps base p = pageOf ps ?r p" if d: "p \<in> dataPages lib ps ?c" "p \<notin> fst ` set ?pgs" for p
  proof -
    have p: "1 \<le> p" "p \<le> ?c" "p \<noteq> lxLockPgno lib ps" using d(1) by (simp_all add: dataPages_def)
    then have n: "p \<notin> ?T" "p \<notin> fst ` set pgs" using d(2) unfolding record_drop_keys by blast+
    then have "p \<le> prev" using assms(4) p unfolding growthCarried_def by (meson not_le)
    then show ?thesis using rest [of p] kept [of p] cut [of p] p n by (simp add: dataPages_def)
  qed
  moreover have "msorted ?pgs" unfolding dropAbove_def by (rule msorted_filter [OF recordFrames_sorted [OF ms]])
  ultimately show ?thesis by (auto simp: tracks_def)
qed

text \<open>A segment of the pending pages passes the encoder and rebuilds the replica on its base.\<close>

lemma tracks_segment:
  assumes "tracks lib ps n0 base n r pgs" "wholeDb ps n0 base" "wholeDb ps n r" "lxFlag lib \<noteq> 0" "1 < t"
  shows "\<exists>sg f'. EncodeSegment lib ps n t t (dbSum lib ps base n0) (dbSum lib ps r n) pgs = Inr sg \<and>
    applySegment lib ps (t - 1) n0 (dbSum lib ps base n0) sg base = Inr f' \<and> wholeDb ps n f' \<and>
    (\<forall>p \<in> dataPages lib ps n. pageOf ps f' p = pageOf ps r p)"
proof -
  let ?pages = "filter (\<lambda>(p, _). p \<noteq> lxLockPgno lib ps) pgs"
  let ?sg = "\<lparr>sgPageSize = ps, sgCommit = n, sgMin = t, sgMax = t, sgPre = dbSum lib ps base n0, sgPages = ?pages,
    sgPost = dbSum lib ps r n\<rparr>"
  have k: "0 < unat ps" using assms(2) by (simp add: wholeDb_def)
  have ms: "msorted pgs" and mem: "(p, b) \<in> set pgs \<Longrightarrow> 1 \<le> p \<and> p \<le> n \<and> b = pageOf ps r p"
    and rest: "p \<in> dataPages lib ps n \<Longrightarrow> p \<notin> fst ` set pgs \<Longrightarrow> p \<le> n0 \<and> pageOf ps base p = pageOf ps r p" for p b
    using assms(1) by (auto simp: tracks_def)
  have len: "length b = unat ps" if m: "(p, b) \<in> set pgs" for p b
    using mem [OF m] wholeDb_inFile [OF assms(3), of p] pageOf_length [of ps r p] by simp
  have nz: "dbSum lib ps f m \<noteq> 0" for f m using assms(4) unfolding dbSum_def by (metis or_eq_0_iff)
  have "pagesRefusal ps None pgs = None" using pagesRefusal_None [OF ms] len by fastforce
  moreover have "t \<noteq> 0" "t \<noteq> 1" using assms(5) by auto
  ultimately have enc: "EncodeSegment lib ps n t t (dbSum lib ps base n0) (dbSum lib ps r n) pgs = Inr ?sg"
    using nz by (simp add: EncodeSegment_def)
  have "distinct (map fst ?pages)" using msorted_distinct [OF msorted_filter [OF ms]] by blast
  then have wf: "pagesWf ps (sgPages ?sg)" using k mem len by (fastforce simp: pagesWf_def)
  have "\<forall>p \<in> dataPages lib ps n. p \<notin> fst ` set ?pages \<longrightarrow> p \<le> n0 \<and> pageOf ps base p = pageOf ps r p"
  proof (intro ballI impI)
    fix p assume p: "p \<in> dataPages lib ps n" "p \<notin> fst ` set ?pages"
    then have "p \<notin> fst ` set pgs" by (force simp: dataPages_def)
    then show "p \<le> n0 \<and> pageOf ps base p = pageOf ps r p" by (rule rest [OF p(1)])
  qed
  moreover have "\<forall>(p, b) \<in> set ?pages. b = pageOf ps r p" using mem by fastforce
  ultimately show ?thesis
    using segment_rebuilds [OF assms(2) wf] enc \<open>t \<noteq> 1\<close> by fastforce
qed

end
