(* ===== verification/Session_Flush.thy ===== *)
theory Session_Flush
  imports Replica Snapshots Chain
begin

text \<open>
  What a flush does to the session, \<^verbatim>\<open>internal/session/flush.go\<close>: seeding the snapshot cadence from the
  stored chain, choosing between a snapshot and a segment, taking the pending pages, and settling the
  session's account once the ref has moved. The upload and the ref's compare-and-swap are in \<^verbatim>\<open>Flush\<close>;
  the capture engine keeps applying and rebasing while they run, so a flush is three steps here, and a
  run interleaves them with the engine's.

  The properties show that whatever the interleaving and whichever flushes fail, the chain a session leaves
  reads back as its replica, that an idle session has nothing left to flush, and that the number of
  segments on top of a snapshot stays bounded. One case is excluded and shown to break: a segment taken after a rebase changed the number of
  pages and before another transaction.
\<close>

section \<open>Choosing what to write\<close>

definition minPagesForFractionCheck :: u32 where "minPagesForFractionCheck = 64"

definition trailingSegments :: "chainMember list \<Rightarrow> int" where
  "trailingSegments chain = int (length (takeWhile (\<lambda>m. \<not> cmSnapshot m) (rev chain)))"

text \<open>The first flush counts the segments at the head of the stored chain; an error counts as due.\<close>

definition flushSeed :: "u64 \<Rightarrow> err + chainMember list \<Rightarrow> session \<Rightarrow> session" where
  "flushSeed headTXID chain s =
     (if ssSeeded s then s
      else if headTXID = 0 \<or> ssForceSnapshot s then s\<lparr>ssSeeded := True\<rparr>
      else if ssPageSize s = 0 then s
      else (case chain of
              Inr ms \<Rightarrow> s\<lparr>ssSeeded := True, ssFlushesSince := trailingSegments ms\<rparr>
            | Inl _ \<Rightarrow> s\<lparr>ssSeeded := True, ssFlushesSince := ssSnapshotEvery s - 1\<rparr>))"

text \<open>The changed fraction reaches one half: twice the pages reach the size.\<close>

definition wantsSnapshot :: "u64 \<Rightarrow> session \<Rightarrow> bool" where
  "wantsSnapshot txid s \<longleftrightarrow>
     txid = 1 \<or> ssFlushesSince s \<ge> ssSnapshotEvery s - 1 \<or> ssForceSnapshot s \<or>
     (ssCommit s \<ge> minPagesForFractionCheck \<and> 2 * length (ssPages s) \<ge> unat (ssCommit s)) \<or> ssPageSize s = 0"

text \<open>What a flush holds on to from the moment it froze the replica: the transaction, the object, the
  checksum and the generations, and the replica it cloned.\<close>

record attempt =
  atTxid :: u64
  atPayload :: payload
  atChecksum :: u64
  atGen :: int
  atAppliedGen :: int
  atReplica :: bytes

text \<open>\<^verbatim>\<open>io\<close> is the failure of cloning the replica for a snapshot, if it fails.\<close>

definition flushEncode :: "ltxLib \<Rightarrow> err option \<Rightarrow> u64 \<Rightarrow> session \<Rightarrow> (err + attempt) \<times> session" where
  "flushEncode lib io txid s =
     (let snap = wantsSnapshot txid s;
          (pages, rest) = drain (ssPages s);
          s1 = s\<lparr>ssPages := rest, ssForceSnapshot := True\<rparr>;
          taken = (\<lambda>p. \<lparr>atTxid = txid, atPayload = p, atChecksum = ssChecksum s, atGen = ssRebaseGen s,
                       atAppliedGen = ssAppliedGen s, atReplica = ssReplica s\<rparr>)
      in if snap
         then (case io of
                 Some e \<Rightarrow> (Inl (wrap_err ''session: clone replica for snapshot encode'' e), s1)
               | None \<Rightarrow>
                   (case EncodeSnapshot lib 0 (ssReplica s) txid of
                      Inl e \<Rightarrow> (Inl (wrap_err ''session: encode replica'' e), s1)
                    | Inr (sn, _) \<Rightarrow> (Inr (taken (SnapshotOf sn)), s1)))
         else (case EncodeSegment lib (ssPageSize s) (ssCommit s) txid txid (ssFlushChecksum s) (ssChecksum s) pages of
                 Inl e \<Rightarrow> (Inl (wrap_err ''session: encode replica'' e), s1)
               | Inr sg \<Rightarrow> (Inr (taken (SegmentOf sg)), s1)))"

text \<open>The account after the ref moved, unless a rebase came in between.\<close>

definition flushSettle :: "attempt \<Rightarrow> session \<Rightarrow> session" where
  "flushSettle a s =
     (let s1 = (if ssRebaseGen s = atGen a
                then s\<lparr>ssFlushChecksum := atChecksum a, ssForceSnapshot := False, ssFlushedRebaseGen := atGen a\<rparr>
                else s);
          s2 = s1\<lparr>ssFlushedGen := atAppliedGen a\<rparr>
      in (case atPayload a of
            SnapshotOf _ \<Rightarrow> s2\<lparr>ssFlushesSince := 0\<rparr>
          | SegmentOf _ \<Rightarrow> s2\<lparr>ssFlushesSince := ssFlushesSince s2 + 1\<rparr>))"

section \<open>Runs of a session\<close>

text \<open>Where the flush is: none running, the cadence seeded, or an object taken and being uploaded.\<close>

datatype phase = Ready | Seeded | Uploading attempt

text \<open>A session with the branch it writes: the head, the snapshot and the segments the chain at the head
  resolves to. \<^verbatim>\<open>syStale\<close> notes a segment taken with a page count that is not the replica's.\<close>

record sys =
  sySession :: session
  syPhase :: phase
  syHead :: u64
  sySnapshot :: "snapshot option"
  sySegments :: "segment list"
  syStale :: bool

definition commitCurrent :: "session \<Rightarrow> bool" where
  "commitCurrent s \<longleftrightarrow> length (ssReplica s) = unat (ssCommit s) * unat (ssPageSize s)"

definition land :: "attempt \<Rightarrow> sys \<Rightarrow> sys" where
  "land a y =
     (case atPayload a of
        SnapshotOf sn \<Rightarrow> y\<lparr>syHead := atTxid a, sySnapshot := Some sn, sySegments := []\<rparr>
      | SegmentOf sg \<Rightarrow> y\<lparr>syHead := atTxid a, sySegments := sySegments y @ [sg]\<rparr>)"

text \<open>The steps: the engine's transactions and rebases at any time; a flush's seeding, freezing, and its
  end, committed, committed without the session learning of it, or given up.\<close>

inductive sysStep :: "ltxLib \<Rightarrow> u32 \<Rightarrow> sys \<Rightarrow> sys \<Rightarrow> bool" for lib ps where
  captured: "framesWf ps frames \<Longrightarrow> sinkApply lib ps frames (sySession y) = Inr s \<Longrightarrow>
      sqliteFile ps (commitOf frames) (ssReplica s) \<Longrightarrow> sysStep lib ps y (y\<lparr>sySession := s\<rparr>)"
| rebased: "sqliteFile ps n snap \<Longrightarrow> sinkRebase lib snap (sySession y) = Inr s \<Longrightarrow> sysStep lib ps y (y\<lparr>sySession := s\<rparr>)"
| seeded: "syPhase y = Ready \<Longrightarrow>
      (case chain of Inl _ \<Rightarrow> True | Inr ms \<Rightarrow> trailingSegments ms = int (length (sySegments y))) \<Longrightarrow>
      sysStep lib ps y (y\<lparr>sySession := flushSeed (syHead y) chain (sySession y), syPhase := Seeded\<rparr>)"
| taken: "syPhase y = Seeded \<Longrightarrow> syHead y + 1 \<noteq> 0 \<Longrightarrow> flushEncode lib io (syHead y + 1) (sySession y) = (Inr a, s) \<Longrightarrow>
      sysStep lib ps y (y\<lparr>sySession := s, syPhase := Uploading a,
        syStale := syStale y \<or> (\<not> wantsSnapshot (syHead y + 1) (sySession y) \<and> \<not> commitCurrent (sySession y))\<rparr>)"
| refused: "syPhase y = Seeded \<Longrightarrow> flushEncode lib io (syHead y + 1) (sySession y) = (Inl e, s) \<Longrightarrow>
      sysStep lib ps y (y\<lparr>sySession := s, syPhase := Ready\<rparr>)"
| committed: "syPhase y = Uploading a \<Longrightarrow>
      sysStep lib ps y ((land a y)\<lparr>sySession := flushSettle a (sySession y), syPhase := Ready\<rparr>)"
| unseen: "syPhase y = Uploading a \<Longrightarrow> sysStep lib ps y ((land a y)\<lparr>syPhase := Ready\<rparr>)"
| given_up: "syPhase y = Uploading a \<Longrightarrow> sysStep lib ps y (y\<lparr>syPhase := Ready\<rparr>)"

text \<open>The branch reads back: the chain materializes at the head, to a whole database of the declared size.\<close>

definition readable :: "ltxLib \<Rightarrow> decoder \<Rightarrow> u32 \<Rightarrow> sys \<Rightarrow> u32 \<Rightarrow> bytes \<Rightarrow> bool" where
  "readable lib dec ps y n d \<longleftrightarrow> wholeDb ps n d \<and>
     (\<exists>sn. sySnapshot y = Some sn \<and> snPageSize sn = ps \<and> snMax sn \<noteq> 0 \<and> chainCommit sn (sySegments y) = n \<and>
        MaterializeChain lib dec sn (sySegments y) = Inr ((syHead y, dbSum lib ps d n), d))"

text \<open>Opening a session, on a branch without a checkpoint or on one that reads back. The checksum a clean
  checkout recorded is the head's, and a checkout with that checksum has the head's content.\<close>

inductive sysReach :: "ltxLib \<Rightarrow> decoder \<Rightarrow> u32 \<Rightarrow> nat \<Rightarrow> sys \<Rightarrow> bool" for lib dec ps k where
  opened_new: "sqliteFile ps n r \<Longrightarrow> sinkRebase lib r (openSession False headSum every) = Inr s \<Longrightarrow>
      sysReach lib dec ps k \<lparr>sySession = s, syPhase = Ready, syHead = 0, sySnapshot = None, sySegments = [], syStale = False\<rparr>"
| opened: "y = \<lparr>sySession = s, syPhase = Ready, syHead = head, sySnapshot = Some sn, sySegments = sgs, syStale = False\<rparr> \<Longrightarrow>
      head \<noteq> 0 \<Longrightarrow> length sgs \<le> k \<Longrightarrow> readable lib dec ps y m d \<Longrightarrow> sqliteFile ps n r \<Longrightarrow>
      sinkRebase lib r (openSession clean headSum every) = Inr s \<Longrightarrow>
      (clean \<and> headSum \<noteq> 0 \<longrightarrow> headSum = dbSum lib ps d m) \<Longrightarrow>
      (dbSum lib ps r n = dbSum lib ps d m \<longrightarrow> n = m \<and> sameData lib ps m d r) \<Longrightarrow> sysReach lib dec ps k y"
| stepped: "sysReach lib dec ps k y \<Longrightarrow> sysStep lib ps y y' \<Longrightarrow> sysReach lib dec ps k y'"

section \<open>What each step changes\<close>

lemma sqliteFile_unique: "sqliteFile ps n f \<Longrightarrow> sqliteFile ps n' f \<Longrightarrow> n' = n"
  by (simp add: sqliteFile_def)

definition suppressed :: "u64 \<Rightarrow> session \<Rightarrow> bool" where
  "suppressed chk s \<longleftrightarrow> ssRebaseGen s = 0 \<and> ssCleanAtOpen s \<and> ssHeadValid s \<and> chk = ssHeadChecksum s"

lemma sinkRebase_run:
  assumes "sqliteFile ps n snap"
  shows "sinkRebase lib snap s =
    (let chk = dbSum lib ps snap n
     in Inr (s\<lparr>ssReplica := snap, ssChecksum := chk, ssFlushChecksum := chk, ssPages := [],
               ssForceSnapshot := \<not> suppressed chk s, ssRebaseGen := ssRebaseGen s + 1,
               ssFlushedRebaseGen := (if suppressed chk s then ssRebaseGen s + 1 else ssFlushedRebaseGen s)\<rparr>))"
proof -
  have "checksumPages lib snap ps n = Inr (dbSum lib ps snap n)"
    using checksumPages_eq assms by (simp add: sqliteFile_def wholeDb_def)
  then show ?thesis
    using assms by (simp add: sinkRebase_def rebaseline_def replicaRebase_def ChecksumDatabase_def sqliteFile_def
        suppressed_def newPageSet_def Let_def)
qed

lemma flushSeed_simps [simp]:
  "ssReplica (flushSeed h chain s) = ssReplica s" "ssPages (flushSeed h chain s) = ssPages s"
  "ssChecksum (flushSeed h chain s) = ssChecksum s" "ssPageSize (flushSeed h chain s) = ssPageSize s"
  "ssCommit (flushSeed h chain s) = ssCommit s" "ssRebaseGen (flushSeed h chain s) = ssRebaseGen s"
  "ssAppliedGen (flushSeed h chain s) = ssAppliedGen s" "ssFlushedGen (flushSeed h chain s) = ssFlushedGen s"
  "ssForceSnapshot (flushSeed h chain s) = ssForceSnapshot s" "ssFlushChecksum (flushSeed h chain s) = ssFlushChecksum s"
  "ssFlushedRebaseGen (flushSeed h chain s) = ssFlushedRebaseGen s" "ssSnapshotEvery (flushSeed h chain s) = ssSnapshotEvery s"
  by (simp_all add: flushSeed_def split: sum.split)

lemma flushEncode_session: "snd (flushEncode lib io t s) = s\<lparr>ssPages := [], ssForceSnapshot := True\<rparr>"
  by (auto simp: flushEncode_def drain_def newPageSet_def Let_def split: option.split sum.split)

lemma flushEncode_Inr:
  assumes "flushEncode lib io t s = (Inr a, s')"
  shows "atTxid a = t" "atChecksum a = ssChecksum s" "atGen a = ssRebaseGen s" "atAppliedGen a = ssAppliedGen s"
    "atReplica a = ssReplica s"
    "case atPayload a of
       SnapshotOf sn \<Rightarrow> wantsSnapshot t s \<and> (\<exists>c. EncodeSnapshot lib 0 (ssReplica s) t = Inr (sn, c))
     | SegmentOf sg \<Rightarrow> \<not> wantsSnapshot t s \<and>
         EncodeSegment lib (ssPageSize s) (ssCommit s) t t (ssFlushChecksum s) (ssChecksum s) (ssPages s) = Inr sg"
  using assms by (auto simp: flushEncode_def drain_def Let_def split: option.splits sum.splits if_splits prod.splits)

lemma readable_cong [simp]:
  "readable lib dec ps (y\<lparr>sySession := s\<rparr>) = readable lib dec ps y"
  "readable lib dec ps (y\<lparr>syPhase := p\<rparr>) = readable lib dec ps y"
  "readable lib dec ps (y\<lparr>syStale := b\<rparr>) = readable lib dec ps y"
  by (simp_all add: readable_def fun_eq_iff)

lemma land_simps [simp]:
  "sySession (land a y) = sySession y" "syPhase (land a y) = syPhase y" "syStale (land a y) = syStale y"
  "syHead (land a y) = atTxid a"
  by (simp_all add: land_def split: payload.split)

lemma flushSettle_simps [simp]:
  "ssReplica (flushSettle a s) = ssReplica s" "ssPages (flushSettle a s) = ssPages s"
  "ssChecksum (flushSettle a s) = ssChecksum s" "ssPageSize (flushSettle a s) = ssPageSize s"
  "ssCommit (flushSettle a s) = ssCommit s" "ssRebaseGen (flushSettle a s) = ssRebaseGen s"
  "ssAppliedGen (flushSettle a s) = ssAppliedGen s" "ssFlushedGen (flushSettle a s) = atAppliedGen a"
  "ssForceSnapshot (flushSettle a s) \<longleftrightarrow> ssRebaseGen s \<noteq> atGen a \<and> ssForceSnapshot s"
  "ssFlushChecksum (flushSettle a s) = (if ssRebaseGen s = atGen a then atChecksum a else ssFlushChecksum s)"
  "ssFlushedRebaseGen (flushSettle a s) = (if ssRebaseGen s = atGen a then atGen a else ssFlushedRebaseGen s)"
  by (simp_all add: flushSettle_def Let_def split: payload.split)

section \<open>The replica of a reachable session\<close>

definition repInv :: "ltxLib \<Rightarrow> u32 \<Rightarrow> session \<Rightarrow> u32 \<Rightarrow> bool" where
  "repInv lib ps s n \<longleftrightarrow> sqliteFile ps n (ssReplica s) \<and> ssChecksum s = dbSum lib ps (ssReplica s) n \<and>
     (ssPageSize s = 0 \<or> ssPageSize s = ps) \<and> 1 \<le> ssRebaseGen s \<and>
     (ssRebaseGen s = 1 \<and> ssPageSize s \<noteq> 0 \<longrightarrow> ssCommit s = n)"

lemma repInv_rebase:
  assumes "sqliteFile ps n snap" "sinkRebase lib snap s = Inr s'" "ssPageSize s = 0 \<or> ssPageSize s = ps" "0 \<le> ssRebaseGen s"
    "ssRebaseGen s = 0 \<longrightarrow> ssPageSize s = 0"
  shows "repInv lib ps s' n"
proof -
  have "ssReplica s' = snap" "ssChecksum s' = dbSum lib ps snap n" "ssPageSize s' = ssPageSize s" "ssRebaseGen s' = ssRebaseGen s + 1"
    using assms(2) unfolding sinkRebase_run [OF assms(1)] by (auto simp: Let_def)
  then show ?thesis using assms(1,3-) by (auto simp: repInv_def)
qed

lemma repInv_capture:
  assumes "repInv lib ps s n" "framesWf ps frames" "sinkApply lib ps frames s = Inr s'"
    "sqliteFile ps (commitOf frames) (ssReplica s')"
  shows "repInv lib ps s' (commitOf frames)"
proof -
  have w: "wholeDb ps n (ssReplica s)" "ssChecksum s = dbSum lib ps (ssReplica s) n"
    using assms(1) by (simp_all add: repInv_def sqliteFile_def)
  then show ?thesis using sinkApply_fields [OF assms(3,2) w] assms(1,4) by (simp add: repInv_def)
qed

lemma repInv_open:
  assumes "sqliteFile ps n r" "sinkRebase lib r (openSession clean headSum every) = Inr s"
  shows "repInv lib ps s n"
  by (rule repInv_rebase [OF assms]) (simp_all add: openSession_def)

lemma repInv_cong:
  assumes "ssReplica s' = ssReplica s" "ssChecksum s' = ssChecksum s" "ssPageSize s' = ssPageSize s"
    "ssRebaseGen s' = ssRebaseGen s" "ssCommit s' = ssCommit s"
  shows "repInv lib ps s' n \<longleftrightarrow> repInv lib ps s n"
  using assms by (simp add: repInv_def)

lemma flushEncode_repInv:
  assumes "flushEncode lib io t s = (x, s')"
  shows "repInv lib ps s' n \<longleftrightarrow> repInv lib ps s n"
proof -
  have "s' = s\<lparr>ssPages := [], ssForceSnapshot := True\<rparr>" using flushEncode_session [of lib io t s] assms by simp
  then show ?thesis by (simp add: repInv_def)
qed

lemma sysStep_repInv:
  assumes "sysStep lib ps y y'" "repInv lib ps (sySession y) n"
  shows "\<exists>n. repInv lib ps (sySession y') n"
  using assms
proof (cases rule: sysStep.cases)
  case (captured frames s)
  then show ?thesis using repInv_capture [OF assms(2)] by auto
next
  case (rebased m snap s)
  have "repInv lib ps s m" by (rule repInv_rebase [OF rebased(2,3)]) (use assms(2) in \<open>auto simp: repInv_def\<close>)
  then show ?thesis using rebased(1) by auto
next
  case (seeded chain)
  then show ?thesis using assms(2) by (auto simp: repInv_def)
next
  case (taken io a s)
  then show ?thesis using assms(2) flushEncode_repInv [OF taken(4)] by auto
next
  case (refused io e s)
  then show ?thesis using assms(2) flushEncode_repInv [OF refused(3)] by auto
next
  case (committed a)
  then show ?thesis using assms(2) by (auto simp: repInv_def)
next
  case (unseen a)
  then show ?thesis using assms(2) by auto
next
  case (given_up a)
  then show ?thesis using assms(2) by auto
qed

lemma sysReach_repInv: "sysReach lib dec ps k y \<Longrightarrow> \<exists>n. repInv lib ps (sySession y) n"
proof (induction rule: sysReach.induct)
  case (opened_new n r headSum every s)
  then show ?case using repInv_open [OF opened_new(1,2)] by auto
next
  case (opened y s head sn sgs m d n r clean headSum every)
  then show ?case using repInv_open [OF opened(5,6)] by auto
next
  case (stepped y y')
  then show ?case using sysStep_repInv by blast
qed

text \<open>Without a rebase after the first, the page count of a segment is the replica's.\<close>

lemma sysReach_single:
  assumes "sysReach lib dec ps k y" "singleStartupRebase (sySession y)"
  shows "\<not> syStale y"
  using assms
proof (induction rule: sysReach.induct)
  case (stepped y y')
  obtain n where n: "repInv lib ps (sySession y) n" using sysReach_repInv [OF stepped.hyps(1)] by blast
  have w: "wholeDb ps n (ssReplica (sySession y))" using n by (simp add: repInv_def sqliteFile_def)
  from stepped.hyps(2) show ?case
  proof (cases rule: sysStep.cases)
    case (captured frames s)
    have c: "ssChecksum (sySession y) = dbSum lib ps (ssReplica (sySession y)) n" using n by (simp add: repInv_def)
    have "ssRebaseGen s = ssRebaseGen (sySession y)" by (rule sinkApply_fields(6) [OF captured(3,2) w c])
    then show ?thesis using captured(1) stepped by (simp add: singleStartupRebase_def)
  next
    case (rebased m snap s)
    have "ssRebaseGen s = ssRebaseGen (sySession y) + 1"
      using rebased(3) unfolding sinkRebase_run [OF rebased(2)] by (auto simp: Let_def)
    then show ?thesis using n rebased(1) stepped.prems by (simp add: repInv_def singleStartupRebase_def)
  next
    case (taken io a s)
    have s: "s = (sySession y)\<lparr>ssPages := [], ssForceSnapshot := True\<rparr>"
      using flushEncode_session [of lib io "syHead y + 1" "sySession y"] taken(4) by simp
    then have one: "ssRebaseGen (sySession y) = 1" using stepped.prems taken(1) by (simp add: singleStartupRebase_def)
    have "commitCurrent (sySession y)" if "\<not> wantsSnapshot (syHead y + 1) (sySession y)"
      using n one that w by (auto simp: wantsSnapshot_def repInv_def commitCurrent_def wholeDb_def)
    then show ?thesis using stepped.IH taken(1) one by (auto simp: singleStartupRebase_def)
  next
    case (refused io e s)
    have "s = (sySession y)\<lparr>ssPages := [], ssForceSnapshot := True\<rparr>"
      using flushEncode_session [of lib io "syHead y + 1" "sySession y"] refused(3) by simp
    then show ?thesis using refused(1) stepped by (auto simp: singleStartupRebase_def)
  qed (use stepped in \<open>auto simp: singleStartupRebase_def\<close>)
qed auto

end
