(* ===== verification/Flush.thy ===== *)
theory Flush
  imports Session_Flush Repoint_Safety
begin

text \<open>
  A session's flush against the store, \<^verbatim>\<open>flush\<close> of \<^verbatim>\<open>internal/session/flush.go\<close>: the fence check, the upload under
  the lease's epoch, the loop that moves the ref's head, and what happens to the uploaded object when that loop
  gives up. The session's own account is \<^verbatim>\<open>Session_Flush\<close>; the store is the world of \<^verbatim>\<open>Backend\<close>.

  The engine works on the session while a flush uploads: what it does then is a function of the environment.
  Streaming and buffered uploads have one contract and are one definition. The loop runs until it commits, loses
  its premise or exceeds its budget, so it has fuel; two rounds more than there are events left are enough.

  The properties are that a flush that commits moved the head of a ref that was still its own, that the flush
  returns, and that it keeps its object while the branch's ref names it. One more shows what it does not keep: an
  object that another branch shares, when the ref write landed behind a reported loss.
\<close>

section \<open>Upload\<close>

definition bPut :: "key \<Rightarrow> content \<Rightarrow> world \<Rightarrow> err option \<times> world" where
  "bPut key c w =
     (case tick w of
        (Refused e, w1) \<Rightarrow> (Some e, w1)
      | (Fine, w1) \<Rightarrow> (case localPut (wObjs w1) key c of (r, s) \<Rightarrow> (r, w1\<lparr>wObjs := s\<rparr>))
      | (Landed e, w1) \<Rightarrow> (Some e, w1\<lparr>wObjs := snd (localPut (wObjs w1) key c)\<rparr>))"

text \<open>Create the object; one that is there already is an orphan of an earlier attempt, which is overwritten.\<close>

definition flushUpload :: "key \<Rightarrow> content \<Rightarrow> world \<Rightarrow> err option \<times> world" where
  "flushUpload key data w =
     (case bPutIf key data NoETag w of
        (Inr _, w1) \<Rightarrow> (None, w1)
      | (Inl e, w1) \<Rightarrow>
          if \<not> errors_is e ErrCAS then (Some (wrap_err ''session: upload'' e), w1)
          else (case bPut key data w1 of
                  (None, w2) \<Rightarrow> (None, w2)
                | (Some e2, w2) \<Rightarrow> (Some (wrap_err ''session: overwrite orphaned'' e2), w2)))"

section \<open>Moving the head\<close>

definition flushCASMinAttempts :: nat where "flushCASMinAttempts = 8"
definition flushCASMinLeaseTTLs :: int where "flushCASMinLeaseTTLs = 1"

text \<open>A flush once its object is uploaded: the clock at each write and the time spent at each attempt are given.\<close>

record flushCommit =
  fcDB :: string
  fcBranch :: string
  fcName :: string
  fcMeta :: "string byname"
  fcKind :: string
  fcLease :: lease
  fcTXID :: u64
  fcKey :: key
  fcStamp :: string
  fcNow :: int
  fcElapsed :: "nat \<Rightarrow> int"
  fcLeaseTTL :: int

definition flushAdvance :: "flushCommit \<Rightarrow> ref \<Rightarrow> ref" where
  "flushAdvance fc r =
     (let r1 = r\<lparr>rHeadTXID := fcTXID fc, rHeadEpoch := lEpoch (fcLease fc)\<rparr>;
          r2 = (if fcName fc \<noteq> []
                then SetCheckpoint (fcName fc)
                       \<lparr>cpTXID = fcTXID fc, cpEpoch = lEpoch (fcLease fc), cpCreatedAt = fcStamp fc, cpMeta = fcMeta fc,
                        cpKind = fcKind fc\<rparr> r1
                else r1)
      in refTouch (fcNow fc) r2)"

definition flushPremise :: "flushCommit \<Rightarrow> string \<Rightarrow> ref \<Rightarrow> bool" where
  "flushPremise fc lineage cur \<longleftrightarrow>
     rLeaseHolder cur = lHolder (fcLease fc) \<and> rEpoch cur = lEpoch (fcLease fc) \<and>
     rLineage cur = lineage \<and> rHeadTXID cur = fcTXID fc - 1"

definition withinBudget :: "flushCommit \<Rightarrow> nat \<Rightarrow> bool" where
  "withinBudget fc attempt \<longleftrightarrow>
     attempt < flushCASMinAttempts \<or> fcElapsed fc attempt < flushCASMinLeaseTTLs * fcLeaseTTL fc"

text \<open>Giving up: a lost compare-and-swap deletes the object when the ref is elsewhere or short of it.\<close>

definition flushLost :: "flushCommit \<Rightarrow> string \<Rightarrow> err \<Rightarrow> world \<Rightarrow> err \<times> world" where
  "flushLost fc lineage e w =
     (if errors_is e ErrCAS
      then (case GetRef (fcDB fc) (fcBranch fc) w of
              (Inl _, w1) \<Rightarrow> (wrap_err ''session: flush lost a race (retry)'' e, w1)
            | (Inr (cur, _), w1) \<Rightarrow>
                (wrap_err ''session: flush lost a race (retry)'' e,
                 if rLineage cur \<noteq> lineage \<or> rHeadTXID cur < fcTXID fc then snd (bDelete (fcKey fc) w1) else w1))
      else (wrap_err ''session: advance ref'' e, w))"

fun flushCAS ::
  "nat \<Rightarrow> flushCommit \<Rightarrow> nat \<Rightarrow> ref \<Rightarrow> etag \<Rightarrow> world \<Rightarrow> ((err + ref) \<times> world) option" where
  "flushCAS 0 fc attempt r etag w = None"
| "flushCAS (Suc n) fc attempt r etag w =
     (case PutRef (fcDB fc) (fcBranch fc) (flushAdvance fc r) etag w of
        (Inr _, w1) \<Rightarrow> Some (Inr (flushAdvance fc r), w1)
      | (Inl e, w1) \<Rightarrow>
          let lost = (\<lambda>w. case flushLost fc (rLineage r) e w of (e', w') \<Rightarrow> Some (Inl e', w')) in
          if errors_is e ErrCAS \<and> withinBudget fc attempt
          then (case GetRef (fcDB fc) (fcBranch fc) w1 of
                  (Inl _, w2) \<Rightarrow> lost w2
                | (Inr (cur, curEtag), w2) \<Rightarrow>
                    if flushPremise fc (rLineage r) cur then flushCAS n fc (Suc attempt) cur curEtag w2 else lost w2)
          else lost w1)"

section \<open>A flush\<close>

text \<open>What a flush meets outside the store: whether the session is closed or failed, what draining the capture
  engine and cloning the replica say, clocks, the coding of objects, and the engine's work during the upload.\<close>

record flushEnv =
  feDB :: string
  feBranch :: string
  feLease :: lease
  feState :: "err option"
  feDrain :: "err option"
  feClone :: "err option"
  feStamp :: string
  feNow :: int
  feElapsed :: "nat \<Rightarrow> int"
  feLeaseTTL :: int
  feLib :: ltxLib
  feEncode :: "payload \<Rightarrow> content"
  feDuring :: "session \<Rightarrow> session"

text \<open>\<^verbatim>\<open>Fenced\<close> fails the session for good.\<close>

datatype flushOutcome = Flushed u64 | Fenced err | FlushFailed err

definition flushGuards :: "flushEnv \<Rightarrow> string \<Rightarrow> string byname \<Rightarrow> err option" where
  "flushGuards env name meta =
     (case feState env of
        Some e \<Rightarrow> Some e
      | None \<Rightarrow>
          (case (if name \<noteq> [] then ValidateName name
                 else if meta \<noteq> [] then Some (plain_err ''session: meta given with no checkpoint name'')
                 else None) of
             Some e \<Rightarrow> Some e
           | None \<Rightarrow>
               (case ValidateMeta meta of
                  Some e \<Rightarrow> Some e
                | None \<Rightarrow> map_option (wrap_err ''session: catch up before flush'') (feDrain env))))"

text \<open>The chain is read only when the cadence is seeded from it.\<close>

definition seedChain :: "ref \<Rightarrow> session \<Rightarrow> world \<Rightarrow> (err + chainMember list) \<times> world" where
  "seedChain r s w =
     (if ssSeeded s \<or> rHeadTXID r = 0 \<or> ssForceSnapshot s \<or> ssPageSize s = 0 then (Inl (plain_err ''not read''), w)
      else (case readView w of (v, w1) \<Rightarrow> (Chain v (rLineage r) (rHeadTXID r), w1)))"

definition flushObject :: "flushEnv \<Rightarrow> string \<Rightarrow> string byname \<Rightarrow> ref \<Rightarrow> attempt \<Rightarrow> flushCommit" where
  "flushObject env name meta r a =
     (let epoch = lEpoch (feLease env);
          (key, kind) = (case atPayload a of
                           SnapshotOf _ \<Rightarrow> (SnapshotKey (rLineage r) epoch (atTxid a), ''snapshot'')
                         | SegmentOf _ \<Rightarrow> (SegmentKey (rLineage r) epoch (atTxid a) (atTxid a), ''segment''))
      in \<lparr>fcDB = feDB env, fcBranch = feBranch env, fcName = name, fcMeta = meta, fcKind = kind, fcLease = feLease env,
          fcTXID = atTxid a, fcKey = key, fcStamp = feStamp env, fcNow = feNow env, fcElapsed = feElapsed env,
          fcLeaseTTL = feLeaseTTL env\<rparr>)"

text \<open>From the uploaded object on; the session is the one the encoding left.\<close>

definition flushAttempt ::
  "nat \<Rightarrow> flushEnv \<Rightarrow> string \<Rightarrow> string byname \<Rightarrow> ref \<Rightarrow> etag \<Rightarrow> attempt \<Rightarrow> session \<Rightarrow> world \<Rightarrow>
     (flushOutcome \<times> session \<times> world) option" where
  "flushAttempt fuel env name meta r etag a s w =
     (let fc = flushObject env name meta r a; s1 = feDuring env s in
      case flushUpload (fcKey fc) (feEncode env (atPayload a)) w of
        (Some e, w1) \<Rightarrow> Some (FlushFailed e, s1, w1)
      | (None, w1) \<Rightarrow>
          map_option (\<lambda>(res, w2). case res of
              Inl e \<Rightarrow> (FlushFailed e, s1, w2)
            | Inr _ \<Rightarrow> (Flushed (atTxid a), flushSettle a s1, w2))
            (flushCAS fuel fc 0 r etag w1))"

definition flush ::
  "nat \<Rightarrow> flushEnv \<Rightarrow> string \<Rightarrow> string byname \<Rightarrow> session \<Rightarrow> world \<Rightarrow> (flushOutcome \<times> session \<times> world) option" where
  "flush fuel env name meta s w =
     (case flushGuards env name meta of
        Some e \<Rightarrow> Some (FlushFailed e, s, w)
      | None \<Rightarrow>
          (case GetRef (feDB env) (feBranch env) w of
             (Inl e, w1) \<Rightarrow> Some (FlushFailed e, s, w1)
           | (Inr (r, etag), w1) \<Rightarrow>
               if leaseLost (feLease env) r then Some (Fenced (plain_err ''session: fenced: lease lost''), s, w1)
               else if name \<noteq> [] \<and> map_of (rCheckpoints r) name \<noteq> None
               then Some (FlushFailed (plain_err ''session: checkpoint already exists''), s, w1)
               else (case seedChain r s w1 of (chain, w2) \<Rightarrow>
                      (case flushEncode (feLib env) (feClone env) (rHeadTXID r + 1) (flushSeed (rHeadTXID r) chain s) of
                         (Inl e, s1) \<Rightarrow> Some (FlushFailed e, s1, w2)
                       | (Inr a, s1) \<Rightarrow> flushAttempt fuel env name meta r etag a s1 w2))))"

section \<open>The loop ends\<close>

lemma tick_events: "length (wScript (snd (tick w))) \<le> length (wScript w)"
  by (simp add: tick_length)

lemma GetRef_script: "length (wScript (snd (GetRef db b w))) \<le> length (wScript w)"
  using GetRef_world [of db b w] tick_events [of w] tick_events [of "snd (tick w)"] by auto

lemma PutRef_Inl_script:
  assumes "PutRef db b r t w = (Inl e, w1)" "errors_is e ErrCAS"
  shows "length (wScript w1) = length (wScript w) - 1"
proof -
  have "valid_name db" "valid_name b" using PutRef_bad_name [OF assms] by auto
  then show ?thesis using assms(1) tick_length [of w] by (auto simp: PutRef_def dest!: bPutIf_Inl)
qed

lemma flushCAS_quiet:
  assumes "quiet w" "valid_name (fcDB fc)" "valid_name (fcBranch fc)" "map_of (wObjs w) (RefKey (fcDB fc) (fcBranch fc)) = Some c"
  shows "\<exists>res. flushCAS (Suc n) fc k r (ETagOf c) w = Some res"
  using PutRef_quiet [OF assms, of "flushAdvance fc r"] by auto

lemma flushLost_some: "\<exists>res. (case flushLost fc l e w of (e', w') \<Rightarrow> Some (Inl e', w')) = Some res"
  by (cases "flushLost fc l e w") auto

lemma flushCAS_enough: "length (wScript w) + 1 < n \<Longrightarrow> \<exists>res. flushCAS n fc k r t w = Some res"
proof (induction n arbitrary: k r t w)
  case (Suc n)
  obtain x w1 where p: "PutRef (fcDB fc) (fcBranch fc) (flushAdvance fc r) t w = (x, w1)" by fastforce
  obtain y w2 where g: "GetRef (fcDB fc) (fcBranch fc) w1 = (y, w2)" by fastforce
  show ?case
  proof (cases "\<exists>e cur t'. x = Inl e \<and> errors_is e ErrCAS \<and> y = Inr (cur, t')")
    case False
    then show ?thesis using p g flushLost_some by (cases x; cases y) (auto simp: Let_def)
  next
    case True
    then obtain e cur t' where x: "x = Inl e" "errors_is e ErrCAS" and y: "y = Inr (cur, t')" by blast
    have l1: "length (wScript w1) = length (wScript w) - 1" using PutRef_Inl_script p x by blast
    have l2: "length (wScript w2) \<le> length (wScript w1)" using GetRef_script [of _ _ w1] g by (metis snd_conv)
    have "\<exists>res. flushCAS n fc (Suc k) cur t' w2 = Some res"
    proof (cases "wScript w = []")
      case True
      then have "quiet w2" using l1 l2 by (simp add: quiet_def)
      moreover obtain c where "map_of (wObjs w2) (RefKey (fcDB fc) (fcBranch fc)) = Some c" "t' = ETagOf c"
        using g unfolding y by (rule GetRef_Inr)
      moreover have "valid_name (fcDB fc)" "valid_name (fcBranch fc)" using PutRef_bad_name [OF p [unfolded x(1)] x(2)] by auto
      moreover obtain m where "n = Suc m" using Suc.prems by (cases n) auto
      ultimately show ?thesis using flushCAS_quiet by blast
    next
      case False
      then have "0 < length (wScript w)" by simp
      then have "length (wScript w2) + 1 < n" using l1 l2 Suc.prems by linarith
      then show ?thesis by (rule Suc.IH)
    qed
    then show ?thesis using p g x y flushLost_some by (auto simp: Let_def)
  qed
qed simp

lemma readView_script: "length (wScript (snd (readView w))) \<le> length (wScript w)"
  using tick_events [of w] by (auto simp: readView_def split: prod.splits fault.splits)

lemma seedChain_script: "length (wScript (snd (seedChain r s w))) \<le> length (wScript w)"
  using readView_script [of w] by (auto simp: seedChain_def split: prod.splits)

lemma flushUpload_script: "length (wScript (snd (flushUpload key d w))) \<le> length (wScript w)"
proof -
  have put: "length (wScript (snd (bPutIf key d NoETag w))) \<le> length (wScript w)" for w
    using tick_events [of w] by (cases "tick w") (auto simp: bPutIf_def split: prod.splits fault.splits sum.splits)
  have over: "length (wScript (snd (bPut key d w))) \<le> length (wScript w)" for w
    using tick_events [of w] by (cases "tick w") (auto simp: bPut_def split: prod.splits fault.splits)
  obtain x w1 where x: "bPutIf key d NoETag w = (x, w1)" by fastforce
  obtain y w2 where y: "bPut key d w1 = (y, w2)" by fastforce
  show ?thesis
    using put [of w] over [of w1] x y by (auto simp: flushUpload_def split: sum.split option.split)
qed

section \<open>What a commit is\<close>

lemma PutRef_replaced_at:
  assumes "PutRef db b r' (ETagOf c) w = (Inr t', w1)" "decodeRef c = Inr r"
  shows "\<exists>s. replaced db b r (stampRef r') s (wObjs w1)"
  using PutRef_Inr(4,5) [OF assms(1)] assms(2)
  by (auto simp: replaced_def refAt_def split: option.splits intro!: exI [of _ "wObjs (snd (tick w))"])

lemma flushCAS_Inr:
  assumes "flushCAS n fc k r (ETagOf c) w = Some (Inr x, w')" "decodeRef c = Inr r" "flushPremise fc l r"
  shows "\<exists>cur s. flushPremise fc l cur \<and> x = flushAdvance fc cur \<and> replaced (fcDB fc) (fcBranch fc) cur (stampRef x) s (wObjs w')"
  using assms
proof (induction n arbitrary: k r c w)
  case (Suc n)
  have l: "rLineage r = l" using Suc.prems(3) by (simp add: flushPremise_def)
  obtain y w1 where p: "PutRef (fcDB fc) (fcBranch fc) (flushAdvance fc r) (ETagOf c) w = (y, w1)" by fastforce
  show ?case
  proof (cases y)
    case (Inr t')
    then have "x = flushAdvance fc r" "w' = w1" using Suc.prems(1) p by simp_all
    then show ?thesis using PutRef_replaced_at [OF p [unfolded Inr] Suc.prems(2)] Suc.prems(3) by blast
  next
    case (Inl e)
    then obtain cur t' w2 where g: "GetRef (fcDB fc) (fcBranch fc) w1 = (Inr (cur, t'), w2)" "flushPremise fc (rLineage r) cur"
      "flushCAS n fc (Suc k) cur t' w2 = Some (Inr x, w')"
      using Suc.prems(1) p by (auto simp: Let_def split: if_splits prod.splits sum.splits)
    obtain c' where "t' = ETagOf c'" "decodeRef c' = Inr cur" using g(1) by (rule GetRef_Inr)
    then show ?thesis using Suc.IH [of "Suc k" cur c' w2] g(2,3) l by simp
  qed
qed simp

section \<open>What a lost flush deletes\<close>

text \<open>The branch's head is not the flush's object.\<close>

definition flushUnnamed :: "flushCommit \<Rightarrow> string \<Rightarrow> objs \<Rightarrow> bool" where
  "flushUnnamed fc l s \<longleftrightarrow>
     (case refAt s (fcDB fc) (fcBranch fc) of
        None \<Rightarrow> True
      | Some r \<Rightarrow> \<not> (rLineage r = l \<and> rHeadEpoch r = lEpoch (fcLease fc) \<and> rHeadTXID r \<ge> fcTXID fc))"

definition flushSafe :: "flushCommit \<Rightarrow> string \<Rightarrow> world \<Rightarrow> bool" where
  "flushSafe fc l w \<longleftrightarrow> closed (flushUnnamed fc l) w \<and> holds (hasAll [fcKey fc]) w"

text \<open>The object is there, or the branch's head is not it and will not become it.\<close>

definition flushKept :: "flushCommit \<Rightarrow> string \<Rightarrow> world \<Rightarrow> bool" where
  "flushKept fc l w \<longleftrightarrow> hasAll [fcKey fc] (wObjs w) \<or> holds (flushUnnamed fc l) w"

lemma flushSafe_put:
  assumes "PutRef db b r t w = (Inl e, w1)" "flushSafe fc l w"
  shows "flushSafe fc l w1"
proof -
  have c: "closed (flushUnnamed fc l) w" "closed (hasAll [fcKey fc]) w" "hasAll [fcKey fc] (wObjs w)"
    using assms(2) by (simp_all add: flushSafe_def holds_def)
  have "hasAll [fcKey fc] (wObjs w1)"
    using PutRef_Inl [OF assms(1)] c(3) tick_closed(2) [OF c(2,3)] by (auto simp: refWritten_def hasAll_mput)
  then show ?thesis
    using c(1,2) [THEN PutRef_Inl_closed [OF assms(1)]] by (simp add: flushSafe_def holds_def)
qed

lemma flushSafe_get: "GetRef db b w = (x, w1) \<Longrightarrow> flushSafe fc l w \<Longrightarrow> flushSafe fc l w1"
  using GetRef_closed [of "hasAll [fcKey fc]" w db b] GetRef_closed(1) [of "flushUnnamed fc l" w db b]
  by (auto simp: flushSafe_def holds_def)

lemma flushUnnamed_mdel: "flushUnnamed fc l s \<Longrightarrow> flushUnnamed fc l (mdel k s)"
  by (auto simp: flushUnnamed_def refAt_def split: option.splits)

lemma bDelete_unnamed:
  assumes "holds (flushUnnamed fc l) w"
  shows "holds (flushUnnamed fc l) (snd (bDelete k w))"
proof (cases "tick w")
  case (Pair f w0)
  then show ?thesis using holds_tick [OF assms Pair]
    by (cases f) (auto simp: bDelete_def localDelete_def holds_def flushUnnamed_mdel split: option.splits)
qed

lemma flushLost_kept:
  assumes "flushSafe fc l w" "flushLost fc l e w = (e', w')"
  shows "flushKept fc l w'"
proof -
  obtain x w1 where g: "GetRef (fcDB fc) (fcBranch fc) w = (x, w1)" by fastforce
  note safe = flushSafe_get [OF g assms(1)]
  show ?thesis
  proof (cases "w' = w \<or> w' = w1")
    case True
    then show ?thesis using assms(1) safe by (auto simp: flushKept_def flushSafe_def holds_def)
  next
    case False
    then obtain cur t where x: "x = Inr (cur, t)" "rLineage cur \<noteq> l \<or> rHeadTXID cur < fcTXID fc" "w' = snd (bDelete (fcKey fc) w1)"
      using assms(2) g by (auto simp: flushLost_def split: if_splits sum.splits)
    have "flushUnnamed fc l (wObjs w1)"
      using GetRef_refAt [OF g [unfolded x(1)]] x(2) by (auto simp: flushUnnamed_def)
    then show ?thesis using safe bDelete_unnamed x(3) by (auto simp: flushKept_def flushSafe_def holds_def)
  qed
qed

lemma flushCAS_kept:
  "flushCAS n fc k r t w = Some (Inl e, w') \<Longrightarrow> flushSafe fc (rLineage r) w \<Longrightarrow> flushKept fc (rLineage r) w'"
proof (induction n arbitrary: k r t w)
  case (Suc n)
  obtain y w1 where p: "PutRef (fcDB fc) (fcBranch fc) (flushAdvance fc r) t w = (y, w1)" by fastforce
  obtain e1 where e1: "y = Inl e1" using Suc.prems(1) p by (cases y) auto
  note s1 = flushSafe_put [OF p [unfolded e1] Suc.prems(2)]
  obtain z w2 where g: "GetRef (fcDB fc) (fcBranch fc) w1 = (z, w2)" by fastforce
  note s2 = flushSafe_get [OF g s1]
  show ?case
  proof (cases "flushLost fc (rLineage r) e1 w1 = (e, w') \<or> flushLost fc (rLineage r) e1 w2 = (e, w')")
    case True
    then show ?thesis using flushLost_kept s1 s2 by blast
  next
    case False
    then obtain cur t' where "flushPremise fc (rLineage r) cur" "flushCAS n fc (Suc k) cur t' w2 = Some (Inl e, w')"
      using Suc.prems(1) p e1 g by (auto simp: Let_def split: if_splits sum.splits prod.splits)
    then show ?thesis using Suc.IH [of "Suc k" cur t' w2] s2 by (simp add: flushPremise_def)
  qed
qed simp

section \<open>Properties\<close>

text \<open>C35: A flush returns, whoever else writes the ref, within two rounds more of its loop than there are interfering
  events: a retry is paid for by another writer's change, and once nobody interferes the next write succeeds.
\<close>

theorem flush_returns:
  assumes "length (wScript w) + 1 < fuel"
  shows "\<exists>outcome s' w'. flush fuel env name meta s w = Some (outcome, s', w')"
proof -
  have a: "flushAttempt fuel env name meta r t a s1 w1 \<noteq> None" if "length (wScript w1) \<le> length (wScript w)" for r t a s1 w1
  proof -
    let ?fc = "flushObject env name meta r a"
    obtain x w2 where u: "flushUpload (fcKey ?fc) (feEncode env (atPayload a)) w1 = (x, w2)" by fastforce
    have "length (wScript w2) \<le> length (wScript w1)" using flushUpload_script [of "fcKey ?fc" _ w1] u by (metis snd_conv)
    then have "length (wScript w2) + 1 < fuel" using that assms by linarith
    from flushCAS_enough [OF this, of ?fc 0 r t] show ?thesis using u by (cases x) (auto simp: flushAttempt_def Let_def)
  qed
  obtain x w1 where g: "GetRef (feDB env) (feBranch env) w = (x, w1)" by fastforce
  have l1: "length (wScript w1) \<le> length (wScript w)" using GetRef_script [of "feDB env" "feBranch env" w] g by simp
  have l2: "length (wScript (snd (seedChain r s w1))) \<le> length (wScript w)" for r
    using seedChain_script [of r s w1] l1 by linarith
  have "flush fuel env name meta s w \<noteq> None"
    using g a l2 by (auto simp: flush_def split: option.split sum.split prod.split) (metis snd_conv option.distinct(1))+
  then show ?thesis by auto
qed

theorem flush_returns_witness:
  "\<exists>env outcome s' w'. flush 2 env [] [] (openSession False 0 8) sampleWorld = Some (outcome, s', w')"
proof -
  have "length (wScript sampleWorld) + 1 < 2" by (simp add: sampleWorld_def)
  from flush_returns [OF this] show ?thesis by blast
qed


text \<open>A session that holds the branch's lease, flushing its first snapshot there.\<close>

definition sampleFlush :: flushEnv where
  "sampleFlush =
     \<lparr>feDB = ''app'', feBranch = ''work'',
      feLease = \<lparr>lDB = ''app'', lBranch = ''work'', lHolder = ''h'', lEpoch = 3, lExpiry = 900\<rparr>,
      feState = None, feDrain = None, feClone = None, feStamp = ''t4'', feNow = 200, feElapsed = (\<lambda>_. 0), feLeaseTTL = 30,
      feLib = sampleLib, feEncode = (\<lambda>_. CRaw ''D''), feDuring = (\<lambda>s. s)\<rparr>"

definition sampleObject :: flushCommit where
  "sampleObject = \<lparr>fcDB = ''app'', fcBranch = ''work'', fcName = [], fcMeta = [], fcKind = ''segment'', fcLease = feLease sampleFlush,
     fcTXID = 4, fcKey = SegmentKey ''l2'' 3 4 4, fcStamp = ''t4'', fcNow = 200, fcElapsed = (\<lambda>_. 0), fcLeaseTTL = 30\<rparr>"

lemma sample_attempt:
  "case flushAttempt 2 sampleFlush [] [] sampleRef (ETagOf (marshalRef sampleRef))
      \<lparr>atTxid = 4, atPayload = SnapshotOf sn, atChecksum = c, atGen = g, atAppliedGen = ag, atReplica = rp\<rparr> s sampleWorld of
     Some (Flushed t, _, _) \<Rightarrow> t = 4 | _ \<Rightarrow> False"
  by code_simp


text \<open>C15: A flush that gives up keeps its object while the branch's head may be it: the object is still there, or the
  branch's head is not at that transaction under the session's epoch on the lineage the flush wrote to, and no other
  writer, none of which writes under that epoch, will make it so.
\<close>

theorem lost_flush_keeps_head:
  assumes "closed (flushUnnamed fc (rLineage r)) w" "closed (hasAll [fcKey fc]) w" "hasAll [fcKey fc] (wObjs w)"
    and "flushCAS n fc k r t w = Some (Inl e, w')"
  shows "hasAll [fcKey fc] (wObjs w') \<or> flushUnnamed fc (rLineage r) (wObjs w') \<and> closed (flushUnnamed fc (rLineage r)) w'"
  using flushCAS_kept [OF assms(4)] assms(1-3) by (simp add: flushSafe_def flushKept_def holds_def)

text \<open>Another holder takes the branch over before the flush's write.\<close>

definition sampleTaken :: world where
  "sampleTaken =
     sampleWorld\<lparr>wObjs := mput (fcKey sampleObject) (CRaw ''D'') sampleStore,
                 wScript := [Event (\<lambda>s. mput ''refs/app/work'' (marshalRef (sampleRef\<lparr>rLeaseHolder := ''other'', rEpoch := 4\<rparr>)) s) Fine]\<rparr>"

theorem lost_flush_keeps_head_witness:
  "\<exists>e w'. flushCAS 3 sampleObject 0 sampleRef (ETagOf (marshalRef sampleRef)) sampleTaken = Some (Inl e, w') \<and>
     \<not> hasAll [fcKey sampleObject] (wObjs w') \<and> flushUnnamed sampleObject ''l2'' (wObjs w')"
proof -
  have r: "rLineage sampleRef = ''l2''" by (simp add: sampleRef_def)
  have "RefKey (fcDB sampleObject) (fcBranch sampleObject) = ''refs/app/work''" by code_simp
  moreover have "case decodeRef (marshalRef (sampleRef\<lparr>rLeaseHolder := ''other'', rEpoch := 4\<rparr>)) of
      Inl _ \<Rightarrow> True | Inr x \<Rightarrow> \<not> (rLineage x = ''l2'' \<and> rHeadEpoch x = lEpoch (fcLease sampleObject) \<and> rHeadTXID x \<ge> fcTXID sampleObject)"
    by code_simp
  ultimately have un: "flushUnnamed sampleObject ''l2'' (mput ''refs/app/work'' (marshalRef (sampleRef\<lparr>rLeaseHolder := ''other'', rEpoch := 4\<rparr>)) s)" for s
    by (simp add: flushUnnamed_def refAt_def split: sum.splits)
  then have c: "closed (flushUnnamed sampleObject (rLineage sampleRef)) sampleTaken"
    unfolding r by (simp add: closed_def sampleTaken_def)
  have h: "closed (hasAll [fcKey sampleObject]) sampleTaken" by (simp add: closed_def sampleTaken_def hasAll_mput)
  have k: "hasAll [fcKey sampleObject] (wObjs sampleTaken)" by code_simp
  have "case flushCAS 3 sampleObject 0 sampleRef (ETagOf (marshalRef sampleRef)) sampleTaken of
      Some (Inl e, w') \<Rightarrow> \<not> hasAll [fcKey sampleObject] (wObjs w') | _ \<Rightarrow> False" by code_simp
  then obtain e w' where run: "flushCAS 3 sampleObject 0 sampleRef (ETagOf (marshalRef sampleRef)) sampleTaken = Some (Inl e, w')"
    "\<not> hasAll [fcKey sampleObject] (wObjs w')" by (auto split: option.splits prod.splits sum.splits)
  show ?thesis using lost_flush_keeps_head [OF c h k run(1)] run unfolding r by blast
qed

text \<open>A forced rollback of the branch by another process, which keeps the branch's head as a safety fork.\<close>

definition sampleRollback :: "objs \<Rightarrow> objs" where
  "sampleRollback s =
     (let env = sampleRepoint \<lparr>lcLib = sampleLib, lcSnapshot = (\<lambda>_. Inl (plain_err ''decode'')), lcObject = (\<lambda>_. None)\<rparr>;
          rf = \<lparr>rfExists = False, rfQuiesce = None, rfMkdir = None, rfProbe = sampleProbe 5 None, rfClone = None,
                rfIO = \<lparr>ioClone = False, ioProbe = False, ioStage = False, ioStamp = False, ioNow = 5\<rparr>,
                rfSha = (\<lambda>x. x), rfFileSha = sampleSha\<rparr>
      in wObjs (snd (snd (RollbackWith env (env\<lparr>reFresh := ''l8''\<rparr>) sampleDestroy rf ''app'' ''work'' ''c1''
           \<lparr>roForce = True, roNoBackup = False, roBackupTTL = 0, roMaterialize = False\<rparr>
           (\<lparr>coFile = None, coWal = 0, coSidecar = None, coShadow = None\<rparr>, [])
           \<lparr>wObjs = s, wScript = [], wCondDelete = True, wSettled = True\<rparr>))))"

text \<open>The flush's ref write lands and is reported as a lost compare-and-swap, as when a retried conditional write is
  answered by its own first attempt; then comes the rollback.\<close>

definition sampleRetried :: world where
  "sampleRetried =
     sampleWorld\<lparr>wObjs := mput (fcKey sampleObject) (CRaw ''D'') sampleStore,
                 wScript := [Event (\<lambda>s. s) (Landed (errCAS ''etag mismatch'')), Event sampleRollback Fine]\<rparr>"

text \<open>C26: The object is kept for the branch, not for those who share it. When the ref write landed though it was
  reported lost, and the branch was rolled back before the flush read the ref again, the flush deletes the object
  because the ref is on another lineage, and the rollback's safety fork, whose base pointer leads to it, no longer
  resolves at its head. With the object still there it would.
\<close>

theorem lost_flush_breaks_safety_fork:
  "\<exists>e w' k ms. flushCAS 3 sampleObject 0 sampleRef (ETagOf (marshalRef sampleRef)) sampleRetried = Some (Inl e, w') \<and>
     refAt (wObjs w') ''app'' ''work-pre-rollback'' = Some k \<and> rHeadTXID k = fcTXID sampleObject \<and>
     (\<exists>e'. Chain (viewOf (wObjs w')) (rLineage k) (rHeadTXID k) = Inl e') \<and>
     Chain (viewOf (mput (fcKey sampleObject) (CRaw ''D'') (wObjs w'))) (rLineage k) (rHeadTXID k) = Inr ms"
proof -
  let ?run = "flushCAS 3 sampleObject 0 sampleRef (ETagOf (marshalRef sampleRef)) sampleRetried"
  let ?gone = "\<lambda>w' k. Chain (viewOf (wObjs w')) (rLineage k) (rHeadTXID k)"
  let ?there = "\<lambda>w' k. Chain (viewOf (mput (fcKey sampleObject) (CRaw ''D'') (wObjs w'))) (rLineage k) (rHeadTXID k)"
  have c: "case ?run of
      Some (Inl e, w') \<Rightarrow>
        (case refAt (wObjs w') ''app'' ''work-pre-rollback'' of
           None \<Rightarrow> False
         | Some k \<Rightarrow> rHeadTXID k = fcTXID sampleObject \<and> (case ?gone w' k of Inl _ \<Rightarrow> True | Inr _ \<Rightarrow> False) \<and>
             (case ?there w' k of Inl _ \<Rightarrow> False | Inr _ \<Rightarrow> True))
    | _ \<Rightarrow> False"
    by code_simp
  then obtain x w' where x: "?run = Some (x, w')" by (cases ?run) auto
  obtain e where e: "x = Inl e" using c unfolding x by (cases x) auto
  obtain k where k: "refAt (wObjs w') ''app'' ''work-pre-rollback'' = Some k"
    using c unfolding x e by (cases "refAt (wObjs w') ''app'' ''work-pre-rollback''") auto
  have r: "rHeadTXID k = fcTXID sampleObject" using c unfolding x e by (simp add: k)
  obtain e' where g: "?gone w' k = Inl e'" using c unfolding x e by (cases "?gone w' k") (simp_all add: k)
  obtain ms where m: "?there w' k = Inr ms" using c unfolding x e by (cases "?there w' k") (simp_all add: k)
  show ?thesis
    by (intro exI [of _ e] exI [of _ w'] exI [of _ k] exI [of _ ms] conjI exI [of _ e'] x [unfolded e] k r g m)
qed

end
