(* ===== verification/Session_Safety.thy ===== *)
theory Session_Safety
  imports Session_Flush
begin

text \<open>
  What a session leaves in the store, whatever the interleaving of its flushes with the capture engine. The
  invariant ties the account the session keeps, its pending pages and its checksum of the last flush, to the
  content the stored chain reads back as.
\<close>

section \<open>The invariant\<close>

text \<open>The object being uploaded: a snapshot of the frozen replica, or a segment that turns the stored content
  \<^verbatim>\<open>d\<close> of \<^verbatim>\<open>m\<close> pages into it.\<close>

definition payloadOk :: "ltxLib \<Rightarrow> u32 \<Rightarrow> u64 \<Rightarrow> u32 \<Rightarrow> bytes \<Rightarrow> u32 \<Rightarrow> attempt \<Rightarrow> bool" where
  "payloadOk lib ps head m d c a \<longleftrightarrow>
     (case atPayload a of
        SnapshotOf sn \<Rightarrow> sn = snapshotOf lib ps c (atTxid a) (atReplica a)
      | SegmentOf sg \<Rightarrow> head \<noteq> 0 \<and> sgMax sg = atTxid a \<and> sgPost sg = atChecksum a \<and> sgCommit sg = c \<and>
          (\<exists>f'. applySegment lib ps head m (dbSum lib ps d m) sg d = Inr f' \<and> sameData lib ps c f' (atReplica a)))"

text \<open>Unless a rebase came in between, the pending pages tell the replica apart from the frozen one.\<close>

definition attInv :: "ltxLib \<Rightarrow> u32 \<Rightarrow> sys \<Rightarrow> u32 \<Rightarrow> u32 \<Rightarrow> bytes \<Rightarrow> attempt \<Rightarrow> bool" where
  "attInv lib ps y n m d a \<longleftrightarrow>
     (let s = sySession y in
      ssForceSnapshot s \<and> atTxid a = syHead y + 1 \<and> atTxid a \<noteq> 0 \<and> atGen a \<le> ssRebaseGen s \<and>
      ssFlushedRebaseGen s \<le> atGen a \<and> ssFlushedGen s \<le> atAppliedGen a \<and> atAppliedGen a \<le> ssAppliedGen s \<and>
      (\<exists>c. sqliteFile ps c (atReplica a) \<and> atChecksum a = dbSum lib ps (atReplica a) c \<and>
         (atGen a = ssRebaseGen s \<longrightarrow> tracks lib ps c (atReplica a) n (ssReplica s) (ssPages s)) \<and>
         (atGen a = ssRebaseGen s \<and> atAppliedGen a = ssAppliedGen s \<longrightarrow> atReplica a = ssReplica s) \<and>
         payloadOk lib ps (syHead y) m d c a))"

definition sysInv :: "ltxLib \<Rightarrow> decoder \<Rightarrow> u32 \<Rightarrow> sys \<Rightarrow> u32 \<Rightarrow> u32 \<Rightarrow> bytes \<Rightarrow> bool" where
  "sysInv lib dec ps y n m d \<longleftrightarrow>
     (let s = sySession y in
      repInv lib ps s n \<and> ssFlushedGen s \<le> ssAppliedGen s \<and> ssFlushedRebaseGen s \<le> ssRebaseGen s \<and>
      (syHead y \<noteq> 0 \<longrightarrow> readable lib dec ps y m d) \<and>
      (\<not> ssForceSnapshot s \<longrightarrow> syHead y \<noteq> 0 \<and> ssFlushChecksum s = dbSum lib ps d m \<and> tracks lib ps m d n (ssReplica s) (ssPages s)) \<and>
      (\<not> autoFlushPending s \<longrightarrow> syHead y \<noteq> 0 \<and> m = n \<and> sameData lib ps n d (ssReplica s)) \<and>
      (case syPhase y of Uploading a \<Rightarrow> attInv lib ps y n m d a | _ \<Rightarrow> True))"

lemma sysInvD:
  assumes "sysInv lib dec ps y n m d"
  shows "repInv lib ps (sySession y) n" "ssFlushedGen (sySession y) \<le> ssAppliedGen (sySession y)"
    "ssFlushedRebaseGen (sySession y) \<le> ssRebaseGen (sySession y)"
    "syHead y \<noteq> 0 \<Longrightarrow> readable lib dec ps y m d"
    "\<not> ssForceSnapshot (sySession y) \<Longrightarrow> syHead y \<noteq> 0 \<and> ssFlushChecksum (sySession y) = dbSum lib ps d m \<and>
       tracks lib ps m d n (ssReplica (sySession y)) (ssPages (sySession y))"
    "\<not> autoFlushPending (sySession y) \<Longrightarrow> syHead y \<noteq> 0 \<and> m = n \<and> sameData lib ps n d (ssReplica (sySession y))"
    "syPhase y = Uploading a \<Longrightarrow> attInv lib ps y n m d a"
    "wholeDb ps n (ssReplica (sySession y))" "ssChecksum (sySession y) = dbSum lib ps (ssReplica (sySession y)) n"
  using assms by (auto simp: sysInv_def Let_def repInv_def sqliteFile_def)

section \<open>A commit that lands\<close>

lemma land_reads:
  assumes "attInv lib ps y n m d a" "decodesDatabases lib dec" "syHead y \<noteq> 0 \<longrightarrow> readable lib dec ps y m d"
  obtains c d' where "readable lib dec ps (land a y) c d'" "sameData lib ps c d' (atReplica a)"
    "sqliteFile ps c (atReplica a)"
proof -
  obtain c where c: "sqliteFile ps c (atReplica a)" "atChecksum a = dbSum lib ps (atReplica a) c" "atTxid a \<noteq> 0"
    "payloadOk lib ps (syHead y) m d c a"
    using assms(1) unfolding attInv_def Let_def by blast
  have w: "wholeDb ps c (atReplica a)" using c(1) by (simp add: sqliteFile_def)
  show thesis
  proof (cases "atPayload a")
    case (SnapshotOf sn)
    obtain f' where f': "MaterializeChain lib dec sn [] = Inr ((atTxid a, dbSum lib ps (atReplica a) c), f')"
      "sameData lib ps c f' (atReplica a)"
      using MaterializeChain_snapshot [OF assms(2) w] c(4) SnapshotOf by (auto simp: payloadOk_def)
    then have "readable lib dec ps (land a y) c f'"
      using c(3,4) SnapshotOf sameData_sum [OF f'(2)]
      by (simp add: payloadOk_def readable_def land_def chainCommit_def sameData_def snapshotOf_def)
    then show thesis using that f'(2) c(1) by blast
  next
    case (SegmentOf sg)
    obtain f' where f': "applySegment lib ps (syHead y) m (dbSum lib ps d m) sg d = Inr f'" "sameData lib ps c f' (atReplica a)"
      "syHead y \<noteq> 0" "sgMax sg = atTxid a" "sgPost sg = dbSum lib ps f' c" "sgCommit sg = c"
      using c(2,4) SegmentOf sameData_sum by (auto simp: payloadOk_def)
    obtain sn where sn: "sySnapshot y = Some sn" "snPageSize sn = ps" "snMax sn \<noteq> 0" "chainCommit sn (sySegments y) = m"
      "MaterializeChain lib dec sn (sySegments y) = Inr ((syHead y, dbSum lib ps d m), d)"
      using assms(3) f'(3) by (auto simp: readable_def)
    have "MaterializeChain lib dec sn (sySegments y @ [sg]) = Inr ((atTxid a, dbSum lib ps f' c), f')"
      using MaterializeChain_snoc [OF sn(3), of lib dec "sySegments y" sg] sn f' by simp
    then have "readable lib dec ps (land a y) c f'"
      using sn(1-3) f'(2,6) SegmentOf by (simp add: readable_def land_def chainCommit_def sameData_def)
    then show thesis using that f'(2) c(1) by blast
  qed
qed

section \<open>The steps\<close>

lemma open_new_inv:
  assumes "sqliteFile ps n r" "sinkRebase lib r (openSession False headSum every) = Inr s"
  shows "sysInv lib dec ps \<lparr>sySession = s, syPhase = Ready, syHead = 0, sySnapshot = None, sySegments = [], syStale = False\<rparr> n m d"
proof -
  have "\<not> suppressed x (openSession False headSum every)" for x by (simp add: suppressed_def openSession_def)
  then have "ssForceSnapshot s" "ssFlushedGen s = 0" "ssAppliedGen s = 0" "ssRebaseGen s = 1" "ssFlushedRebaseGen s = 0"
    using assms(2) unfolding sinkRebase_run [OF assms(1)] by (auto simp: Let_def openSession_def)
  then show ?thesis using repInv_open [OF assms] by (simp add: sysInv_def autoFlushPending_def)
qed

lemma open_inv:
  assumes "y = \<lparr>sySession = s, syPhase = Ready, syHead = head, sySnapshot = Some sn, sySegments = sgs, syStale = False\<rparr>"
    "head \<noteq> 0" "readable lib dec ps y m d" "sqliteFile ps n r" "sinkRebase lib r (openSession clean headSum every) = Inr s"
    "clean \<and> headSum \<noteq> 0 \<longrightarrow> headSum = dbSum lib ps d m" "dbSum lib ps r n = dbSum lib ps d m \<longrightarrow> n = m \<and> sameData lib ps m d r"
  shows "sysInv lib dec ps y n m d"
proof -
  let ?o = "openSession clean headSum every" and ?chk = "dbSum lib ps r n"
  have f: "ssReplica s = r" "ssFlushChecksum s = ?chk" "ssPages s = []" "ssForceSnapshot s = (\<not> suppressed ?chk ?o)" "ssFlushedGen s = 0"
    "ssAppliedGen s = 0" "ssRebaseGen s = 1" "ssFlushedRebaseGen s = (if suppressed ?chk ?o then 1 else 0)"
    using assms(5) unfolding sinkRebase_run [OF assms(4)] by (auto simp: Let_def openSession_def)
  have "n = m \<and> sameData lib ps n d r \<and> ?chk = dbSum lib ps d m" if "suppressed ?chk ?o"
    using that assms(6,7) by (auto simp: suppressed_def openSession_def)
  moreover have "tracks lib ps n d n r []" if "sameData lib ps n d r"
    using that by (auto simp: tracks_def sameData_def dataPages_def)
  ultimately show ?thesis
    using f assms(1-3) repInv_open [OF assms(4,5)] by (auto simp: sysInv_def Let_def autoFlushPending_def split: if_splits)
qed

lemma attInv_cong [simp]:
  "attInv lib ps (y\<lparr>syPhase := p\<rparr>) = attInv lib ps y" "attInv lib ps (y\<lparr>syStale := b\<rparr>) = attInv lib ps y"
  by (simp_all add: attInv_def fun_eq_iff)

lemma attInvI:
  assumes "ssForceSnapshot (sySession y)" "atTxid a = syHead y + 1" "atTxid a \<noteq> 0" "atGen a \<le> ssRebaseGen (sySession y)"
    "ssFlushedRebaseGen (sySession y) \<le> atGen a" "ssFlushedGen (sySession y) \<le> atAppliedGen a"
    "atAppliedGen a \<le> ssAppliedGen (sySession y)" "sqliteFile ps c (atReplica a)" "atChecksum a = dbSum lib ps (atReplica a) c"
    "atGen a = ssRebaseGen (sySession y) \<Longrightarrow> tracks lib ps c (atReplica a) n (ssReplica (sySession y)) (ssPages (sySession y))"
    "atGen a = ssRebaseGen (sySession y) \<Longrightarrow> atAppliedGen a = ssAppliedGen (sySession y) \<Longrightarrow> atReplica a = ssReplica (sySession y)"
    "payloadOk lib ps (syHead y) m d c a"
  shows "attInv lib ps y n m d a"
  using assms unfolding attInv_def Let_def by blast

lemma attInvD:
  assumes "attInv lib ps y n m d a"
  shows "ssForceSnapshot (sySession y)" "atTxid a = syHead y + 1" "atTxid a \<noteq> 0" "atGen a \<le> ssRebaseGen (sySession y)"
    "ssFlushedRebaseGen (sySession y) \<le> atGen a" "ssFlushedGen (sySession y) \<le> atAppliedGen a"
    "atAppliedGen a \<le> ssAppliedGen (sySession y)"
    "\<exists>c. sqliteFile ps c (atReplica a) \<and> atChecksum a = dbSum lib ps (atReplica a) c \<and>
       (atGen a = ssRebaseGen (sySession y) \<longrightarrow> tracks lib ps c (atReplica a) n (ssReplica (sySession y)) (ssPages (sySession y))) \<and>
       (atGen a = ssRebaseGen (sySession y) \<and> atAppliedGen a = ssAppliedGen (sySession y) \<longrightarrow> atReplica a = ssReplica (sySession y)) \<and>
       payloadOk lib ps (syHead y) m d c a"
  using assms unfolding attInv_def Let_def by blast+

lemma captured_inv:
  assumes "sysInv lib dec ps y n m d" "framesWf ps frames" "sinkApply lib ps frames (sySession y) = Inr s"
    "sqliteFile ps (commitOf frames) (ssReplica s)"
  shows "sysInv lib dec ps (y\<lparr>sySession := s\<rparr>) (commitOf frames) m d"
proof -
  let ?s = "sySession y"
  note i = sysInvD [OF assms(1)]
  note f = sinkApply_fields [OF assms(3,2) i(8,9)]
  note r = sinkApply_Inr [OF assms(3,2) i(8,9)]
  have grow: "tracks lib ps c b (commitOf frames) (ssReplica s) (ssPages s)" if "tracks lib ps c b n (ssReplica ?s) (ssPages ?s)" for c b
    using tracks_apply [OF that assms(2) i(8) r(1)] unfolding r(4) f(4) .
  have "attInv lib ps (y\<lparr>sySession := s\<rparr>) (commitOf frames) m d a" if p: "syPhase y = Uploading a" for a
  proof -
    note t = attInvD [OF i(7) [OF p]]
    obtain c where c: "sqliteFile ps c (atReplica a)" "atChecksum a = dbSum lib ps (atReplica a) c"
      "atGen a = ssRebaseGen ?s \<longrightarrow> tracks lib ps c (atReplica a) n (ssReplica ?s) (ssPages ?s)" "payloadOk lib ps (syHead y) m d c a"
      using t(8) by blast
    show ?thesis by (rule attInvI [of _ _ _ c]) (use t(1-7) c grow f in auto)
  qed
  then show ?thesis
    using i repInv_capture [OF i(1) assms(2-4)] f grow by (auto simp: sysInv_def Let_def autoFlushPending_def split: phase.split)
qed

lemma rebased_inv:
  assumes "sysInv lib dec ps y n m d" "sqliteFile ps k snap" "sinkRebase lib snap (sySession y) = Inr s"
  shows "sysInv lib dec ps (y\<lparr>sySession := s\<rparr>) k m d"
proof -
  let ?s = "sySession y"
  note i = sysInvD [OF assms(1)]
  have pos: "1 \<le> ssRebaseGen ?s" "ssPageSize ?s = 0 \<or> ssPageSize ?s = ps" using i(1) by (simp_all add: repInv_def)
  have "\<not> suppressed x ?s" for x using pos(1) by (simp add: suppressed_def)
  then have f: "ssForceSnapshot s" "ssRebaseGen s = ssRebaseGen ?s + 1" "ssAppliedGen s = ssAppliedGen ?s"
    "ssFlushedGen s = ssFlushedGen ?s" "ssFlushedRebaseGen s = ssFlushedRebaseGen ?s"
    using assms(3) unfolding sinkRebase_run [OF assms(2)] by (auto simp: Let_def)
  have "attInv lib ps (y\<lparr>sySession := s\<rparr>) k m d a" if p: "syPhase y = Uploading a" for a
  proof -
    note t = attInvD [OF i(7) [OF p]]
    obtain c where c: "sqliteFile ps c (atReplica a)" "atChecksum a = dbSum lib ps (atReplica a) c" "payloadOk lib ps (syHead y) m d c a"
      using t(8) by blast
    show ?thesis by (rule attInvI [of _ _ _ c]) (use t(1-7) c f in auto)
  qed
  moreover have "repInv lib ps s k" by (rule repInv_rebase [OF assms(2,3) pos(2)]) (use pos(1) in auto)
  ultimately show ?thesis using i f by (auto simp: sysInv_def Let_def autoFlushPending_def split: phase.split)
qed

lemma seeded_inv:
  assumes "sysInv lib dec ps y n m d"
  shows "sysInv lib dec ps (y\<lparr>sySession := flushSeed h chain (sySession y), syPhase := Seeded\<rparr>) n m d"
proof -
  have "repInv lib ps (flushSeed h chain (sySession y)) n \<longleftrightarrow> repInv lib ps (sySession y) n" by (rule repInv_cong) simp_all
  then show ?thesis using sysInvD [OF assms] by (simp add: sysInv_def Let_def autoFlushPending_def)
qed

lemma emptied_inv:
  assumes "sysInv lib dec ps y n m d"
    "\<And>a. p = Uploading a \<Longrightarrow> attInv lib ps (y\<lparr>sySession := (sySession y)\<lparr>ssPages := [], ssForceSnapshot := True\<rparr>\<rparr>) n m d a"
  shows "sysInv lib dec ps (y\<lparr>sySession := (sySession y)\<lparr>ssPages := [], ssForceSnapshot := True\<rparr>, syPhase := p, syStale := b\<rparr>) n m d"
proof -
  let ?s = "(sySession y)\<lparr>ssPages := [], ssForceSnapshot := True\<rparr>"
  have "repInv lib ps ?s n \<longleftrightarrow> repInv lib ps (sySession y) n" by (rule repInv_cong) simp_all
  moreover have "attInv lib ps (y\<lparr>sySession := ?s, syPhase := p, syStale := b\<rparr>) n m d a" if "p = Uploading a" for a
    using assms(2) [OF that] by simp
  ultimately show ?thesis using sysInvD [OF assms(1)] by (auto simp: sysInv_def Let_def autoFlushPending_def split: phase.split)
qed

lemma taken_inv:
  assumes "sysInv lib dec ps y n m d" "syHead y + 1 \<noteq> 0" "flushEncode lib io (syHead y + 1) (sySession y) = (Inr a, s)"
    "wantsSnapshot (syHead y + 1) (sySession y) \<or> commitCurrent (sySession y)" "lxFlag lib \<noteq> 0"
  shows "sysInv lib dec ps (y\<lparr>sySession := s, syPhase := Uploading a, syStale := b\<rparr>) n m d"
proof -
  let ?s = "sySession y" and ?t = "syHead y + 1"
  note i = sysInvD [OF assms(1)]
  note a = flushEncode_Inr [OF assms(3)]
  have s: "s = ?s\<lparr>ssPages := [], ssForceSnapshot := True\<rparr>" using flushEncode_session [of lib io ?t ?s] assms(3) by simp
  have sq: "sqliteFile ps n (ssReplica ?s)" using i(1) by (simp add: repInv_def)
  have "payloadOk lib ps (syHead y) m d n a"
  proof (cases "atPayload a")
    case (SnapshotOf sn)
    then show ?thesis using a EncodeSnapshot_ok [OF sq, of lib ?t] by (simp add: payloadOk_def)
  next
    case (SegmentOf sg)
    then have seg: "\<not> wantsSnapshot ?t ?s"
      "EncodeSegment lib (ssPageSize ?s) (ssCommit ?s) ?t ?t (ssFlushChecksum ?s) (ssChecksum ?s) (ssPages ?s) = Inr sg"
      using a(6) by simp_all
    then have ps: "ssPageSize ?s = ps" "\<not> ssForceSnapshot ?s" "?t \<noteq> 1" using i(1) by (auto simp: wantsSnapshot_def repInv_def)
    have "unat (ssCommit ?s) = unat n" using assms(4) seg(1) ps(1) i(8) by (auto simp: commitCurrent_def wholeDb_def)
    then have n: "ssCommit ?s = n" by (simp add: word_unat_eq_iff)
    have tr: "syHead y \<noteq> 0" "ssFlushChecksum ?s = dbSum lib ps d m" "tracks lib ps m d n (ssReplica ?s) (ssPages ?s)"
      using i(5) [OF ps(2)] by simp_all
    have "1 < ?t" using assms(2) ps(3) by unat_arith
    then obtain f' where "applySegment lib ps (?t - 1) m (dbSum lib ps d m) sg d = Inr f'" "sameData lib ps n f' (ssReplica ?s)"
      using tracks_segment [OF tr(3) _ i(8) assms(5), of ?t] seg(2) i(4,8,9) tr(1,2) ps(1) n
      by (auto simp: readable_def sameData_def)
    moreover have "sgMax sg = ?t" "sgPost sg = ssChecksum ?s" "sgCommit sg = n"
      using seg(2) n by (auto simp: EncodeSegment_def split: if_splits option.splits)
    ultimately show ?thesis using tr(1) a SegmentOf by (simp add: payloadOk_def)
  qed
  then have "attInv lib ps (y\<lparr>sySession := s\<rparr>) n m d a"
    unfolding s by (intro attInvI [of _ _ _ n])
      (use a sq i assms(2) tracks_self [of lib ps n "ssReplica ?s"] in \<open>auto simp: newPageSet_def\<close>)
  then show ?thesis using emptied_inv [OF assms(1), of "Uploading a" b] unfolding s by auto
qed

lemma landed_inv:
  assumes "sysInv lib dec ps y n m d" "syPhase y = Uploading a" "decodesDatabases lib dec"
    "s = sySession y \<or> s = flushSettle a (sySession y)"
  shows "\<exists>m d. sysInv lib dec ps ((land a y)\<lparr>sySession := s, syPhase := Ready\<rparr>) n m d"
proof -
  let ?s = "sySession y"
  note i = sysInvD [OF assms(1)]
  note t = attInvD [OF i(7) [OF assms(2)]]
  obtain c d' where r: "readable lib dec ps (land a y) c d'" "sameData lib ps c d' (atReplica a)" "sqliteFile ps c (atReplica a)"
    by (rule land_reads [OF i(7) [OF assms(2)] assms(3)]) (use i(4) in blast)+
  obtain c' where c': "sqliteFile ps c' (atReplica a)" "atChecksum a = dbSum lib ps (atReplica a) c'"
      "atGen a = ssRebaseGen ?s \<longrightarrow> tracks lib ps c' (atReplica a) n (ssReplica ?s) (ssPages ?s)"
      "atGen a = ssRebaseGen ?s \<and> atAppliedGen a = ssAppliedGen ?s \<longrightarrow> atReplica a = ssReplica ?s"
    using t(8) by blast
  have cc: "c' = c" by (rule sqliteFile_unique [OF r(3) c'(1)])
  have "syHead (land a y) \<noteq> 0" using t(3) by simp
  moreover have "repInv lib ps s n" using assms(4) i(1) repInv_cong [of "flushSettle a ?s" ?s] by auto
  moreover have "ssFlushedGen s \<le> ssAppliedGen s \<and> ssFlushedRebaseGen s \<le> ssRebaseGen s" using assms(4) i(2,3) t(4,7) by auto
  moreover have "ssFlushChecksum s = dbSum lib ps d' c \<and> tracks lib ps c d' n (ssReplica s) (ssPages s)" if "\<not> ssForceSnapshot s"
  proof -
    have g: "s = flushSettle a ?s" "atGen a = ssRebaseGen ?s" using that assms(4) t(1) by auto
    have "\<forall>p \<in> dataPages lib ps c. pageOf ps d' p = pageOf ps (atReplica a) p" using r(2) by (simp add: sameData_def)
    then have "tracks lib ps c d' n (ssReplica ?s) (ssPages ?s)" using tracks_base c'(3) g(2) unfolding cc by blast
    then show ?thesis using g c'(2) sameData_sum [OF r(2)] cc by simp
  qed
  moreover have "c = n \<and> sameData lib ps n d' (ssReplica s)" if "\<not> autoFlushPending s"
  proof -
    have "atGen a = ssRebaseGen ?s \<and> atAppliedGen a = ssAppliedGen ?s"
      using that assms(4) t(4-7) by (auto simp: autoFlushPending_def split: if_splits)
    then have "atReplica a = ssReplica ?s" using c'(4) by blast
    moreover have "sqliteFile ps n (ssReplica ?s)" using i(1) by (simp add: repInv_def)
    ultimately have "c = n" "sameData lib ps c d' (ssReplica ?s)" using r sqliteFile_unique by auto
    then show ?thesis using assms(4) by auto
  qed
  ultimately have "sysInv lib dec ps ((land a y)\<lparr>sySession := s, syPhase := Ready\<rparr>) n c d'"
    using r(1) by (simp add: sysInv_def Let_def)
  then show ?thesis by blast
qed

lemma step_inv:
  assumes "sysStep lib ps y y'" "sysInv lib dec ps y n m d" "\<not> syStale y'" "decodesDatabases lib dec" "lxFlag lib \<noteq> 0"
  shows "\<exists>n m d. sysInv lib dec ps y' n m d"
  using assms(1)
proof (cases rule: sysStep.cases)
  case (captured frames s)
  then show ?thesis using captured_inv [OF assms(2)] by blast
next
  case (rebased k snap s)
  then show ?thesis using rebased_inv [OF assms(2)] by blast
next
  case (seeded chain)
  then show ?thesis using seeded_inv [OF assms(2)] by blast
next
  case (taken io a s)
  then have "wantsSnapshot (syHead y + 1) (sySession y) \<or> commitCurrent (sySession y)" using assms(3) by simp
  then show ?thesis using taken_inv [OF assms(2) taken(3,4) _ assms(5)] taken(1) by blast
next
  case (refused io e s)
  have "s = (sySession y)\<lparr>ssPages := [], ssForceSnapshot := True\<rparr>"
    using flushEncode_session [of lib io "syHead y + 1" "sySession y"] refused(3) by simp
  then show ?thesis using emptied_inv [OF assms(2), of Ready "syStale y"] refused(1) by auto
next
  case (committed a)
  then show ?thesis using landed_inv [OF assms(2) committed(2) assms(4)] by blast
next
  case (unseen a)
  have "(land a y)\<lparr>syPhase := Ready\<rparr> = (land a y)\<lparr>sySession := sySession y, syPhase := Ready\<rparr>"
    by (simp add: land_def split: payload.split)
  then show ?thesis using landed_inv [OF assms(2) unseen(2) assms(4)] unseen(1) by metis
next
  case (given_up a)
  then have "sysInv lib dec ps y' n m d" using assms(2) by (simp add: sysInv_def Let_def)
  then show ?thesis by blast
qed

lemma sysReach_inv:
  assumes "sysReach lib dec ps k y" "\<not> syStale y" "decodesDatabases lib dec" "lxFlag lib \<noteq> 0"
  shows "\<exists>n m d. sysInv lib dec ps y n m d"
  using assms(1,2)
proof (induction rule: sysReach.induct)
  case (opened_new n r headSum every s)
  then show ?case using open_new_inv by blast
next
  case (opened y s head sn sgs m d n r clean headSum every)
  then show ?case using open_inv [OF opened(1,2,4-8)] by blast
next
  case (stepped y y')
  have "\<not> syStale y" using stepped.hyps(2) stepped.prems by (cases rule: sysStep.cases) auto
  then show ?case using stepped.IH step_inv [OF stepped.hyps(2) _ stepped.prems assms(3,4)] by blast
qed

section \<open>How deep the chain grows\<close>

text \<open>The counter is the number of segments once the cadence is seeded. Before, the stored chain is as it was
  found, or one longer with a page size known, which the next seeding sees.\<close>

definition depthInv :: "nat \<Rightarrow> sys \<Rightarrow> bool" where
  "depthInv k y \<longleftrightarrow>
     (let s = sySession y; len = int (length (sySegments y)); every = ssSnapshotEvery s in
      len \<le> max (int k + 1) (every - 1) \<and>
      (syHead y = 0 \<longrightarrow> ssForceSnapshot s) \<and>
      (ssSeeded s \<and> \<not> ssForceSnapshot s \<longrightarrow> ssFlushesSince s = len \<or> every - 1 \<le> ssFlushesSince s) \<and>
      (\<not> ssSeeded s \<longrightarrow> len \<le> int k \<or> syPhase y = Ready \<and> ssPageSize s \<noteq> 0) \<and>
      (case syPhase y of
         Uploading a \<Rightarrow> ssForceSnapshot s \<and> atTxid a \<noteq> 0 \<and>
           (case atPayload a of
              SnapshotOf _ \<Rightarrow> True
            | SegmentOf _ \<Rightarrow> ssPageSize s \<noteq> 0 \<and> (ssSeeded s \<longrightarrow> ssFlushesSince s = len \<and> len + 1 \<le> every - 1))
       | _ \<Rightarrow> True))"

lemma sinkRebase_depth:
  assumes "sqliteFile ps n snap" "sinkRebase lib snap s = Inr s'"
  shows "ssSnapshotEvery s' = ssSnapshotEvery s" "ssSeeded s' = ssSeeded s" "ssFlushesSince s' = ssFlushesSince s"
    "ssPageSize s' = ssPageSize s" "ssForceSnapshot s' = (\<not> suppressed (dbSum lib ps snap n) s)"
  using assms(2) unfolding sinkRebase_run [OF assms(1)] by (auto simp: Let_def)

lemma flushSettle_depth [simp]:
  "ssSnapshotEvery (flushSettle a s) = ssSnapshotEvery s" "ssSeeded (flushSettle a s) = ssSeeded s"
  "ssFlushesSince (flushSettle a s) = (case atPayload a of SnapshotOf _ \<Rightarrow> 0 | SegmentOf _ \<Rightarrow> ssFlushesSince s + 1)"
  by (simp_all add: flushSettle_def Let_def split: payload.split)

lemma flushSeed_depth:
  "ssSeeded (flushSeed h chain s) \<longleftrightarrow> ssSeeded s \<or> h = 0 \<or> ssForceSnapshot s \<or> ssPageSize s \<noteq> 0"
  "\<not> ssSeeded s \<Longrightarrow> h \<noteq> 0 \<Longrightarrow> \<not> ssForceSnapshot s \<Longrightarrow> ssPageSize s \<noteq> 0 \<Longrightarrow>
     ssFlushesSince (flushSeed h chain s) = (case chain of Inr ms \<Rightarrow> trailingSegments ms | Inl _ \<Rightarrow> ssSnapshotEvery s - 1)"
  "ssSeeded s \<Longrightarrow> flushSeed h chain s = s"
  by (auto simp: flushSeed_def split: sum.split)

lemma step_depth:
  assumes "sysStep lib ps y y'" "depthInv k y" "repInv lib ps (sySession y) n"
  shows "depthInv k y'"
  using assms(1)
proof (cases rule: sysStep.cases)
  case (captured frames s)
  have w: "wholeDb ps n (ssReplica (sySession y))" "ssChecksum (sySession y) = dbSum lib ps (ssReplica (sySession y)) n"
    using assms(3) by (simp_all add: repInv_def sqliteFile_def)
  have "ps \<noteq> 0" using captured(2) by (auto simp: framesWf_def)
  then show ?thesis using assms(2) captured(1) sinkApply_fields [OF captured(3,2) w]
    by (simp add: depthInv_def Let_def split: phase.splits payload.splits)
next
  case (rebased m snap s)
  have "\<not> suppressed x (sySession y)" for x using assms(3) by (simp add: suppressed_def repInv_def)
  then show ?thesis using assms(2) rebased(1) sinkRebase_depth [OF rebased(2,3)]
    by (simp add: depthInv_def Let_def split: phase.splits payload.splits)
next
  case (seeded chain)
  show ?thesis
  proof (cases "ssSeeded (sySession y)")
    case True
    then show ?thesis using assms(2) seeded(1,2) flushSeed_depth(3) by (simp add: depthInv_def Let_def)
  next
    case False
    then show ?thesis using assms(2) seeded flushSeed_depth(1) [of "syHead y" chain "sySession y"] flushSeed_depth(2) [of "sySession y" "syHead y" chain]
      by (auto simp: depthInv_def Let_def split: sum.splits)
  qed
next
  case (taken io a s)
  have s: "s = (sySession y)\<lparr>ssPages := [], ssForceSnapshot := True\<rparr>"
    using flushEncode_session [of lib io "syHead y + 1" "sySession y"] taken(4) by simp
  show ?thesis using assms(2) taken(1-3) flushEncode_Inr [OF taken(4)] unfolding s
    by (auto simp: depthInv_def Let_def wantsSnapshot_def split: payload.splits)
next
  case (refused io e s)
  have "s = (sySession y)\<lparr>ssPages := [], ssForceSnapshot := True\<rparr>"
    using flushEncode_session [of lib io "syHead y + 1" "sySession y"] refused(3) by simp
  then show ?thesis using assms(2) refused(1,2) by (auto simp: depthInv_def Let_def)
next
  case (committed a)
  then show ?thesis using assms(2) by (cases "atPayload a") (auto simp: depthInv_def Let_def land_def)
next
  case (unseen a)
  then show ?thesis using assms(2) by (cases "atPayload a") (auto simp: depthInv_def Let_def land_def)
next
  case (given_up a)
  then show ?thesis using assms(2) by (auto simp: depthInv_def Let_def)
qed

lemma sysReach_depth: "sysReach lib dec ps k y \<Longrightarrow> depthInv k y"
proof (induction rule: sysReach.induct)
  case (opened_new n r headSum every s)
  then show ?case using sinkRebase_depth [OF opened_new(1,2)] by (simp add: depthInv_def suppressed_def openSession_def)
next
  case (opened y s head sn sgs m d n r clean headSum every)
  then show ?case using sinkRebase_depth [OF opened(5,6)] by (auto simp: depthInv_def openSession_def)
next
  case (stepped y y')
  then show ?case using step_depth sysReach_repInv by blast
qed

section \<open>Properties\<close>


text \<open>C25: The chain stays shallow. A session opened on a chain with at most \<^verbatim>\<open>k\<close> segments on its snapshot never
  leaves one with more than \<^verbatim>\<open>k + 1\<close> and the cadence less one, whichever is larger: the flush that races
  the seeding of the cadence adds at most one.\<close>

theorem chain_depth_bounded:
  assumes "sysReach lib dec ps k y"
  shows "int (length (sySegments y)) \<le> max (int k + 1) (ssSnapshotEvery (sySession y) - 1)"
  using sysReach_depth [OF assms] by (simp add: depthInv_def Let_def)

end
