(* ===== verification/Session_Runs.thy ===== *)
theory Session_Runs
  imports Session_Safety
begin

text \<open>
  Runs of a session on small databases: one that flushes a snapshot and is then idle, and one that takes a
  segment after a rebase and before another transaction, whose page count \<^verbatim>\<open>rebaseline\<close> in
  \<^verbatim>\<open>internal/session/session.go\<close> left as it was.
\<close>

section \<open>A decoder\<close>

definition writePages :: "u32 \<Rightarrow> pages \<Rightarrow> bytes \<Rightarrow> bytes" where
  "writePages ps pgs f = fold (\<lambda>(p, b) f. writeAt f (pageOff ps p) b) pgs f"

definition decodePages :: decoder where
  "decodePages sn = Inr (truncateTo (writePages (snPageSize sn) (snPages sn) []) (unat (snCommit sn) * unat (snPageSize sn)))"

lemma writePages_applied:
  assumes "pagesWf ps pgs"
  shows "pagesApplied ps pgs f (writePages ps pgs f)"
  using assms
proof (induction pgs arbitrary: f)
  case (Cons pb pgs)
  obtain p b where pb: "pb = (p, b)" by (cases pb)
  have "pagesWf ps pgs" "length b = unat ps" "p \<notin> fst ` set pgs" using Cons.prems by (auto simp: pagesWf_def pb)
  moreover have "writePages ps (pb # pgs) f = writePages ps pgs (writeAt f (pageOff ps p) b)" by (simp add: writePages_def pb)
  ultimately show ?case using pagesApplied_step Cons.IH by (simp add: pb)
qed (simp add: pagesApplied_def writePages_def)

lemma decodePages_decodes: "decodesDatabases lib decodePages"
  unfolding decodesDatabases_def
proof (intro allI impI, elim conjE)
  fix sn :: snapshot
  let ?ps = "snPageSize sn" and ?n = "snCommit sn" and ?g = "writePages (snPageSize sn) (snPages sn) []"
  assume a: "pagesWf ?ps (snPages sn)" "fst ` set (snPages sn) = dataPages lib ?ps ?n"
  have k: "0 < unat ?ps" using a(1) by (simp add: pagesWf_def)
  have "pageOf ?ps (truncateTo ?g (unat ?n * unat ?ps)) p = b" if m: "(p, b) \<in> set (snPages sn)" for p b
  proof -
    have "p \<in> dataPages lib ?ps ?n" using m a(2) by force
    then have "1 \<le> p" "p \<le> ?n" by (simp_all add: dataPages_def)
    moreover have "inFile ?ps ?g p" "pageOf ?ps ?g p = b"
      using writePages_applied [OF a(1), of "[]"] m unfolding pagesApplied_def by blast+
    ultimately show ?thesis using pageOf_truncate [OF _ _ _ k] by simp
  qed
  then show "\<exists>f. decodePages sn = Inr f \<and> wholeDb ?ps ?n f \<and> (\<forall>(p, b) \<in> set (snPages sn). pageOf ?ps f p = b)"
    using truncate_whole [OF k] by (auto simp: decodePages_def)
qed

section \<open>Two databases\<close>

definition sampleHead :: bytes where
  "sampleHead = dbHeaderMagic @ [2, 0] @ replicate 10 0 @ [0, 0, 0, 2] @ replicate 68 9"

definition sampleFirst :: bytes where
  "sampleFirst = sampleHead @ replicate 411 9 @ [7]"

definition sampleSecond :: bytes where
  "sampleSecond = replicate 511 1 @ [3]"

definition sampleTwo :: bytes where
  "sampleTwo = sampleFirst @ sampleSecond"

lemma sampleTwo_lengths: "length sampleHead = 100" "length sampleFirst = 512" "length sampleSecond = 512"
  by (simp_all add: sampleFirst_def sampleSecond_def sampleHead_def dbHeaderMagic_def)

lemma sampleTwo_header: "readDBHeader sampleTwo = Inr (512, 2)"
proof -
  have "readAt sampleTwo 0 dbHeaderSize = readAt sampleHead 0 dbHeaderSize"
    using sampleTwo_lengths by (simp add: readAt_def dbHeaderSize_def sampleTwo_def) (simp add: sampleFirst_def)
  then have "readDBHeader sampleTwo = readDBHeader sampleHead" unfolding readDBHeader_def by (rule arg_cong)
  also have "readDBHeader sampleHead = Inr (512, 2)" by code_simp
  finally show ?thesis .
qed

lemma sampleOne_file: "sqliteFile 512 1 (samplePage 4)" "sqliteFile 512 1 (samplePage 5)"
  by (simp_all add: sqliteFile_def samplePage_header wholeDb_def samplePage_facts)

lemma sampleTwo_file: "sqliteFile 512 2 sampleTwo"
  using sampleTwo_lengths by (simp add: sqliteFile_def sampleTwo_header wholeDb_def) (simp add: sampleTwo_def)

lemma sampleLib_lock: "lxLockPgno sampleLib 512 = 2097153" and sampleLib_flag: "lxFlag sampleLib \<noteq> 0"
  by (code_simp, simp add: sampleLib_def)

lemma dataPages_two: "dataPages sampleLib 512 2 = {1, 2}" and dataPages_one: "dataPages sampleLib 512 1 = {1}"
proof -
  have "1 \<le> p \<and> p \<le> 2 \<and> p \<noteq> 2097153 \<longleftrightarrow> p = 1 \<or> p = 2" for p :: u32 by unat_arith
  then show "dataPages sampleLib 512 2 = {1, 2}" by (auto simp: dataPages_def sampleLib_lock)
  have "1 \<le> p \<and> p \<le> 1 \<and> p \<noteq> 2097153 \<longleftrightarrow> p = 1" for p :: u32 by unat_arith
  then show "dataPages sampleLib 512 1 = {1}" by (auto simp: dataPages_def sampleLib_lock)
qed

lemma sampleTwo_pages: "last (pageOf 512 sampleTwo 1) = 7" "last (pageOf 512 sampleTwo 2) = 3"
proof -
  have "pageOf 512 sampleTwo 1 = sampleFirst" "pageOf 512 sampleTwo 2 = sampleSecond"
    using sampleTwo_lengths by (simp_all add: pageOf_def pageOff_def sampleTwo_def)
  then show "last (pageOf 512 sampleTwo 1) = 7" "last (pageOf 512 sampleTwo 2) = 3"
    by (simp_all add: sampleFirst_def sampleSecond_def)
qed

lemma sampleTwo_sums:
  "dbSum sampleLib 512 sampleTwo 2 = 9223372036854776580"
  "pageOf 512 f 1 = pageOf 512 sampleTwo 1 \<Longrightarrow> dbSum sampleLib 512 f 1 = 9223372036854776071"
  unfolding dbSum_def pageSum_def dataPages_two dataPages_one
  by (simp_all add: sampleLib_def sampleTwo_pages)

section \<open>A flushed session\<close>

definition sampleOpened :: session where
  "sampleOpened =
     (let chk = dbSum sampleLib 512 (samplePage 4) 1 in
      (openSession False 0 10)\<lparr>ssReplica := samplePage 4, ssChecksum := chk, ssFlushChecksum := chk, ssPages := [],
        ssForceSnapshot := True, ssRebaseGen := 1\<rparr>)"

abbreviation sysOf :: "session \<Rightarrow> phase \<Rightarrow> u64 \<Rightarrow> snapshot option \<Rightarrow> segment list \<Rightarrow> bool \<Rightarrow> sys" where
  "sysOf s p h sn sgs b \<equiv> \<lparr>sySession = s, syPhase = p, syHead = h, sySnapshot = sn, sySegments = sgs, syStale = b\<rparr>"

lemma sampleOpened_reach: "sysReach sampleLib decodePages 512 0 (sysOf sampleOpened Ready 0 None [] False)"
proof (rule sysReach.opened_new [OF sampleOne_file(1)])
  show "sinkRebase sampleLib (samplePage 4) (openSession False 0 10) = Inr sampleOpened"
    by (simp add: sinkRebase_run [OF sampleOne_file(1)] sampleOpened_def suppressed_def openSession_def Let_def)
qed

text \<open>A first flush, of whatever the replica holds, writes a snapshot.\<close>

lemma first_flush:
  assumes "sysReach sampleLib dec 512 k (sysOf s Ready 0 None [] False)" "ssForceSnapshot s" "sqliteFile 512 n (ssReplica s)"
    "a = \<lparr>atTxid = 1, atPayload = SnapshotOf (snapshotOf sampleLib 512 n 1 (ssReplica s)), atChecksum = ssChecksum s,
          atGen = ssRebaseGen s, atAppliedGen = ssAppliedGen s, atReplica = ssReplica s\<rparr>"
  shows "sysReach sampleLib dec 512 k
    (sysOf (flushSettle a (s\<lparr>ssSeeded := True, ssPages := [], ssForceSnapshot := True\<rparr>)) Ready 1
      (Some (snapshotOf sampleLib 512 n 1 (ssReplica s))) [] False)"
proof -
  let ?s = "s\<lparr>ssSeeded := True\<rparr>"
  have seed: "flushSeed 0 (Inl (plain_err '''')) s = ?s" using assms(2) by (auto simp: flushSeed_def)
  have "sysStep sampleLib 512 (sysOf s Ready 0 None [] False) (sysOf ?s Seeded 0 None [] False)"
    using sysStep.seeded [of "sysOf s Ready 0 None [] False" "Inl (plain_err '''')" sampleLib 512] by (simp add: seed)
  moreover have enc: "flushEncode sampleLib None 1 ?s = (Inr a, ?s\<lparr>ssPages := [], ssForceSnapshot := True\<rparr>)"
    using assms(2-4) EncodeSnapshot_ok [OF assms(3), of sampleLib 1]
    by (simp add: flushEncode_def wantsSnapshot_def drain_def newPageSet_def)
  have "sysStep sampleLib 512 (sysOf ?s Seeded 0 None [] False)
      (sysOf (?s\<lparr>ssPages := [], ssForceSnapshot := True\<rparr>) (Uploading a) 0 None [] False)"
    using sysStep.taken [of "sysOf ?s Seeded 0 None [] False" sampleLib None] enc assms(2) by (simp add: wantsSnapshot_def)
  moreover have "sysStep sampleLib 512 (sysOf (?s\<lparr>ssPages := [], ssForceSnapshot := True\<rparr>) (Uploading a) 0 None [] False)
      (sysOf (flushSettle a (?s\<lparr>ssPages := [], ssForceSnapshot := True\<rparr>)) Ready 1
        (Some (snapshotOf sampleLib 512 n 1 (ssReplica s))) [] False)"
    using sysStep.committed [of "sysOf (?s\<lparr>ssPages := [], ssForceSnapshot := True\<rparr>) (Uploading a) 0 None [] False" a]
    by (simp add: land_def assms(4))
  ultimately show ?thesis using sysReach.stepped assms(1) by blast
qed


theorem chain_depth_bounded_witness: "int (length (sySegments (sysOf sampleOpened Ready 0 None [] False))) \<le> 9"
  using chain_depth_bounded [OF sampleOpened_reach] by (simp add: sampleOpened_def Let_def openSession_def)

section \<open>A segment after a rebase\<close>

definition sampleFrame :: frame where
  "sampleFrame = \<lparr>frHeader = \<lparr>fhPgno = 1, fhCommitSize = 1, fhSalt1 = 0, fhSalt2 = 0, fhCksum1 = 0, fhCksum2 = 0\<rparr>, frData = samplePage 5\<rparr>"

text \<open>After a transaction of one page and a rebase to two, the session still counts one.\<close>

lemma rebased_session:
  "\<exists>s. sysReach sampleLib decodePages 512 0 (sysOf s Ready 0 None [] False) \<and> ssForceSnapshot s \<and> ssReplica s = sampleTwo \<and>
     ssChecksum s = dbSum sampleLib 512 sampleTwo 2 \<and> ssCommit s = 1 \<and> ssPageSize s = 512 \<and> ssSnapshotEvery s = 10 \<and> ssRebaseGen s = 2"
proof -
  have wf: "framesWf 512 [sampleFrame]" by (simp add: framesWf_def sampleFrame_def samplePage_facts)
  have w: "wholeDb 512 1 (ssReplica sampleOpened)" "ssChecksum sampleOpened = dbSum sampleLib 512 (ssReplica sampleOpened) 1"
    by (simp_all add: sampleOpened_def Let_def wholeDb_def samplePage_facts)
  have g: "growthCarried sampleLib 512 1 [sampleFrame]" by (auto simp: growthCarried_def sampleFrame_def not_le)
  have cut: "truncateTo (written 512 [sampleFrame] sampleOpened) 512 = samplePage 5"
    by (simp add: writeFrames_def sampleFrame_def writeAt_def pageOff_def truncateTo_def sampleOpened_def Let_def samplePage_facts)
  obtain s1 where s1: "sinkApply sampleLib 512 [sampleFrame] sampleOpened = Inr s1"
    using recordApply_run [OF wf w g] by (simp add: sinkApply_def replicaApply_def sampleFrame_def folded_def)
  note f = sinkApply_fields [OF s1 wf w]
  have r1: "ssReplica s1 = samplePage 5" using sinkApply_Inr(4) [OF s1 wf w] cut by (simp add: sampleFrame_def)
  have c1: "commitOf [sampleFrame] = 1" by (simp add: sampleFrame_def)
  let ?y0 = "sysOf sampleOpened Ready 0 None [] False" and ?y1 = "sysOf s1 Ready 0 None [] False"
  have "sysStep sampleLib 512 ?y0 ?y1"
    using sysStep.captured [OF wf, of sampleLib ?y0 s1] s1 r1 c1 sampleOne_file(2) by simp
  then have y1: "sysReach sampleLib decodePages 512 0 ?y1" using sysReach.stepped sampleOpened_reach by blast
  obtain s2 where s2: "sinkRebase sampleLib sampleTwo s1 = Inr s2" "ssReplica s2 = sampleTwo" "ssCommit s2 = ssCommit s1"
    "ssChecksum s2 = dbSum sampleLib 512 sampleTwo 2" "ssPageSize s2 = ssPageSize s1" "ssSnapshotEvery s2 = ssSnapshotEvery s1"
    "ssRebaseGen s2 = ssRebaseGen s1 + 1" "ssForceSnapshot s2 = (\<not> suppressed (dbSum sampleLib 512 sampleTwo 2) s1)"
    by (simp add: sinkRebase_run [OF sampleTwo_file] Let_def)
  have o: "ssRebaseGen sampleOpened = 1" "ssSnapshotEvery sampleOpened = 10" by (simp_all add: sampleOpened_def Let_def openSession_def)
  have "sysReach sampleLib decodePages 512 0 (sysOf s2 Ready 0 None [] False)"
    using sysReach.stepped [OF y1] sysStep.rebased [OF sampleTwo_file, of sampleLib ?y1 s2] s2(1) by simp
  then show ?thesis using s2 f o c1 by (intro exI [of _ s2]) (simp add: suppressed_def)
qed

lemma sampleTwo_refused:
  assumes "sg = \<lparr>sgPageSize = 512, sgCommit = 1, sgMin = 2, sgMax = 2, sgPre = dbSum sampleLib 512 sampleTwo 2, sgPages = [],
    sgPost = dbSum sampleLib 512 sampleTwo 2\<rparr>"
  shows "\<exists>e. MaterializeChain sampleLib decodePages (snapshotOf sampleLib 512 2 1 sampleTwo) [sg] = Inl e"
proof -
  let ?sn = "snapshotOf sampleLib 512 2 1 sampleTwo" and ?chk = "dbSum sampleLib 512 sampleTwo 2"
  have w: "wholeDb 512 2 sampleTwo" using sampleTwo_file by (simp add: sqliteFile_def)
  obtain f where f: "MaterializeChain sampleLib decodePages ?sn [] = Inr ((1, ?chk), f)" "sameData sampleLib 512 2 f sampleTwo"
    by (rule MaterializeChain_snapshot [OF decodePages_decodes w])
  have "f = sampleTwo" by (rule sameData_eq [OF f(2)]) (simp add: sampleLib_lock)
  moreover have "segmentRefusal 512 1 ?chk sg = None" by (simp add: segmentRefusal_def assms)
  moreover have "\<not> (2 < p \<and> p \<le> 1)" for p :: u32 by unat_arith
  then have "pagesWf 512 (sgPages sg)" "carries sampleLib 512 2 sg" by (auto simp: assms pagesWf_def carries_def)
  ultimately obtain f' where f': "leaves 512 2 sg sampleTwo f'" "applySegment sampleLib 512 1 2 ?chk sg sampleTwo =
      (if dbSum sampleLib 512 f' (sgCommit sg) = sgPost sg then Inr f' else Inl (plain_err ''ltxio: segment post-apply checksum mismatch''))"
    using applySegment_run [OF _ w, of 1 sampleLib sg] by blast
  have "pageOf 512 f' 1 = pageOf 512 sampleTwo 1" using f'(1) by (simp add: leaves_def assms)
  then have "dbSum sampleLib 512 f' (sgCommit sg) \<noteq> sgPost sg" using sampleTwo_sums by (simp add: assms)
  then have "\<exists>e. applySegment sampleLib 512 1 2 ?chk sg sampleTwo = Inl e" using f'(2) by simp
  moreover have "snPageSize ?sn = 512" "chainCommit ?sn [] = 2" "snMax ?sn \<noteq> 0" by (simp_all add: snapshotOf_def chainCommit_def)
  ultimately show ?thesis using MaterializeChain_snoc [of ?sn sampleLib decodePages "[]" sg] f(1) \<open>f = sampleTwo\<close> by auto
qed

text \<open>C27: The page count a segment declares can be out of date. There is a run of a session, with one transaction, one
  rebase that changes the number of pages, and two flushes that succeed, after which the automatic flush has
  nothing pending and the branch cannot be read at its head: the second flush, with no transaction since the
  rebase, writes a segment with the number of pages from before it.\<close>

theorem stale_segment_unreadable:
  "\<exists>y sn e. sysReach sampleLib decodePages 512 0 y \<and> syPhase y = Ready \<and> \<not> autoFlushPending (sySession y) \<and>
     sySnapshot y = Some sn \<and> MaterializeChain sampleLib decodePages sn (sySegments y) = Inl e"
proof -
  obtain s where s: "sysReach sampleLib decodePages 512 0 (sysOf s Ready 0 None [] False)" "ssForceSnapshot s" "ssReplica s = sampleTwo"
    "ssChecksum s = dbSum sampleLib 512 sampleTwo 2" "ssCommit s = 1" "ssPageSize s = 512" "ssSnapshotEvery s = 10" "ssRebaseGen s = 2"
    using rebased_session by blast
  let ?sn = "snapshotOf sampleLib 512 2 1 sampleTwo" and ?chk = "dbSum sampleLib 512 sampleTwo 2"
  define a where "a = \<lparr>atTxid = 1, atPayload = SnapshotOf (snapshotOf sampleLib 512 2 1 (ssReplica s)), atChecksum = ssChecksum s,
    atGen = ssRebaseGen s, atAppliedGen = ssAppliedGen s, atReplica = ssReplica s\<rparr>"
  define t where "t = flushSettle a (s\<lparr>ssSeeded := True, ssPages := [], ssForceSnapshot := True\<rparr>)"
  have y1: "sysReach sampleLib decodePages 512 0 (sysOf t Ready 1 (Some ?sn) [] False)"
    using first_flush [OF s(1,2) _ a_def] s(3) sampleTwo_file by (simp add: t_def)
  have t: "ssSeeded t" "\<not> ssForceSnapshot t" "ssFlushesSince t = 0" "ssCommit t = 1" "ssPageSize t = 512" "ssPages t = []"
    "ssChecksum t = ?chk" "ssFlushChecksum t = ?chk" "ssSnapshotEvery t = 10" "ssReplica t = sampleTwo"
    using s by (simp_all add: t_def a_def)
  define sg where "sg = \<lparr>sgPageSize = 512, sgCommit = 1, sgMin = 2, sgMax = 2, sgPre = ?chk, sgPages = [], sgPost = ?chk\<rparr>"
  define b where "b = \<lparr>atTxid = 2, atPayload = SegmentOf sg, atChecksum = ?chk, atGen = ssRebaseGen t,
    atAppliedGen = ssAppliedGen t, atReplica = sampleTwo\<rparr>"
  let ?t = "t\<lparr>ssPages := [], ssForceSnapshot := True\<rparr>"
  have w: "\<not> wantsSnapshot 2 t" using t by (simp add: wantsSnapshot_def minPagesForFractionCheck_def)
  have e: "flushEncode sampleLib None 2 t = (Inr b, ?t)"
    using t w by (simp add: flushEncode_def drain_def newPageSet_def EncodeSegment_def sampleTwo_sums(1) b_def sg_def)
  have "sysStep sampleLib 512 (sysOf t Ready 1 (Some ?sn) [] False) (sysOf t Seeded 1 (Some ?sn) [] False)"
    using sysStep.seeded [of "sysOf t Ready 1 (Some ?sn) [] False" "Inl (plain_err '''')" sampleLib 512] t(1) by (simp add: flushSeed_def)
  moreover have "sysStep sampleLib 512 (sysOf t Seeded 1 (Some ?sn) [] False)
      (sysOf ?t (Uploading b) 1 (Some ?sn) [] (\<not> commitCurrent t))"
    using sysStep.taken [of "sysOf t Seeded 1 (Some ?sn) [] False" sampleLib None] e w by simp
  moreover have "sysStep sampleLib 512 (sysOf ?t (Uploading b) 1 (Some ?sn) [] (\<not> commitCurrent t))
      (sysOf (flushSettle b ?t) Ready 2 (Some ?sn) [sg] (\<not> commitCurrent t))"
    using sysStep.committed [of "sysOf ?t (Uploading b) 1 (Some ?sn) [] (\<not> commitCurrent t)" b] by (simp add: land_def b_def)
  ultimately have "sysReach sampleLib decodePages 512 0 (sysOf (flushSettle b ?t) Ready 2 (Some ?sn) [sg] (\<not> commitCurrent t))"
    using sysReach.stepped y1 by blast
  moreover have "\<not> autoFlushPending (flushSettle b ?t)" by (simp add: autoFlushPending_def b_def)
  moreover obtain e where "MaterializeChain sampleLib decodePages ?sn [sg] = Inl e" using sampleTwo_refused sg_def by blast
  ultimately show ?thesis by (intro exI [of _ "sysOf (flushSettle b ?t) Ready 2 (Some ?sn) [sg] (\<not> commitCurrent t)"]) auto
qed

end
